theory Spec2Isabelle
  imports Complex_Main "HOL-Library.While_Combinator"
begin

section \<open>Primitive layer: vectors and rectangles\<close>

text \<open>
  The tree of \<^verbatim>\<open>b2_dynamic_tree.cpp\<close> is written against a 2D vector type and a
  rectangle type \<^verbatim>\<open>Rectf\<close> whose headers are not part of the sources at hand.
  Coordinates are \<^verbatim>\<open>float\<close> in the program; they are modelled as real numbers. The
  tree compares coordinates, takes minima and maxima of them, and adds or subtracts them.
  Where a property below depends on an addition being exact, namely in the translation
  \<^verbatim>\<open>move\<close> of \<^verbatim>\<open>ShiftOrigin\<close>, the addition is the rounded one of binary32.
\<close>

record Vector =
  vx :: real
  vy :: real

record Rectf =
  get_left :: real
  get_top :: real
  get_right :: real
  get_bottom :: real

text \<open>Modelled from the spec: the vector type "with the usual arithmetic"
  (\<^verbatim>\<open>math/vector.hpp\<close> is missing).\<close>

definition vminus :: "Vector \<Rightarrow> Vector \<Rightarrow> Vector" where
  "vminus a b = \<lparr>vx = vx a - vx b, vy = vy a - vy b\<rparr>"

definition vplus :: "Vector \<Rightarrow> Vector \<Rightarrow> Vector" where
  "vplus a b = \<lparr>vx = vx a + vx b, vy = vy a + vy b\<rparr>"

definition vneg :: "Vector \<Rightarrow> Vector" where
  "vneg a = \<lparr>vx = - vx a, vy = - vy a\<rparr>"

definition vscale :: "real \<Rightarrow> Vector \<Rightarrow> Vector" where
  "vscale k a = \<lparr>vx = k * vx a, vy = k * vy a\<rparr>"

definition LengthSquared :: "Vector \<Rightarrow> real" where
  "LengthSquared a = vx a * vx a + vy a * vy a"

text \<open>Modelled from the spec: \<open>r = normalize(p2 - p1)\<close>; the helper of the vector header
  is missing.\<close>

definition Normalize :: "Vector \<Rightarrow> Vector" where
  "Normalize a = vscale (1 / sqrt (LengthSquared a)) a"

text \<open>Modelled from the spec: \<open>v = perp(r)\<close>, "rotate 90 degrees, i.e. \<open>(-r.y, r.x)\<close>",
  which is \<^verbatim>\<open>b2Cross(s, r)\<close> at \<open>s = 1\<close>; \<open>abs_v = (|v.x|, |v.y|)\<close>; the dot product.\<close>

definition b2Cross :: "real \<Rightarrow> Vector \<Rightarrow> Vector" where
  "b2Cross s a = \<lparr>vx = - s * vy a, vy = s * vx a\<rparr>"

definition b2AbsV :: "Vector \<Rightarrow> Vector" where
  "b2AbsV a = \<lparr>vx = \<bar>vx a\<bar>, vy = \<bar>vy a\<bar>\<rparr>"

definition b2Dot :: "Vector \<Rightarrow> Vector \<Rightarrow> real" where
  "b2Dot a b = vx a * vx b + vy a * vy b"

text \<open>Modelled from the spec: the rectangle type "with perimeter, containment, overlap,
  union, translation, and grow-by-margin operations" (\<^verbatim>\<open>math/rectf.hpp\<close> is missing).
  A rectangle is stored by its four edges, as the accessors \<^verbatim>\<open>get_left()\<close> ...
  \<^verbatim>\<open>get_bottom()\<close> that \<^verbatim>\<open>MoveProxy\<close> assigns through suggest.\<close>

definition grown :: "Rectf \<Rightarrow> real \<Rightarrow> Rectf" where
  "grown r b = \<lparr>get_left = get_left r - b, get_top = get_top r - b,
                get_right = get_right r + b, get_bottom = get_bottom r + b\<rparr>"

definition contains :: "Rectf \<Rightarrow> Rectf \<Rightarrow> bool" where
  "contains r o' \<longleftrightarrow> get_left r \<le> get_left o' \<and> get_top r \<le> get_top o' \<and>
                     get_right o' \<le> get_right r \<and> get_bottom o' \<le> get_bottom r"

definition overlaps :: "Rectf \<Rightarrow> Rectf \<Rightarrow> bool" where
  "overlaps a b \<longleftrightarrow> get_left a \<le> get_right b \<and> get_left b \<le> get_right a \<and>
                    get_top a \<le> get_bottom b \<and> get_top b \<le> get_bottom a"

definition combine :: "Rectf \<Rightarrow> Rectf \<Rightarrow> Rectf" where
  "combine a b = \<lparr>get_left = min (get_left a) (get_left b),
                  get_top = min (get_top a) (get_top b),
                  get_right = max (get_right a) (get_right b),
                  get_bottom = max (get_bottom a) (get_bottom b)\<rparr>"

definition get_perimeter :: "Rectf \<Rightarrow> real" where
  "get_perimeter r = 2 * ((get_right r - get_left r) + (get_bottom r - get_top r))"

text \<open>The addition of two \<^verbatim>\<open>float\<close> values, as \<^verbatim>\<open>Rectf::move\<close> performs it on each edge: the
  exact sum is rounded to the nearest binary32 number, that is to the nearest multiple
  of \<open>2 powr (e - 23)\<close> where \<open>2 powr e \<le> \<bar>x\<bar> < 2 powr (e + 1)\<close> and \<open>e\<close> is at least \<open>-126\<close>; a tie
  goes to the even multiple. Sums beyond the largest \<^verbatim>\<open>float\<close>, which the program turns
  into an infinity, are rounded in the same way here.\<close>

definition nearest_even :: "real \<Rightarrow> int" where
  "nearest_even x =
     (let f = \<lfloor>x\<rfloor>
      in if x - of_int f < 1/2 then f
         else if 1/2 < x - of_int f then f + 1
         else if even f then f else f + 1)"

definition round32 :: "real \<Rightarrow> real" where
  "round32 x =
     (if x = 0 then 0
      else
        let e = max \<lfloor>log 2 \<bar>x\<bar>\<rfloor> (- 126);
            q = 2 powr (of_int e - 23)
        in sgn x * (of_int (nearest_even (\<bar>x\<bar> / q)) * q))"

definition fadd :: "real \<Rightarrow> real \<Rightarrow> real" where
  "fadd x y = round32 (x + y)"

definition move :: "Rectf \<Rightarrow> Vector \<Rightarrow> Rectf" where
  "move r v = \<lparr>get_left = fadd (get_left r) (vx v), get_top = fadd (get_top r) (vy v),
               get_right = fadd (get_right r) (vx v), get_bottom = fadd (get_bottom r) (vy v)\<rparr>"

definition get_middle :: "Rectf \<Rightarrow> Vector" where
  "get_middle r = \<lparr>vx = (get_left r + get_right r) / 2, vy = (get_top r + get_bottom r) / 2\<rparr>"

definition get_extents :: "Rectf \<Rightarrow> Vector" where
  "get_extents r = \<lparr>vx = (get_right r - get_left r) / 2, vy = (get_bottom r - get_top r) / 2\<rparr>"

text \<open>\<^verbatim>\<open>Rectf(p, Sizef(0,0))\<close>: the rectangle of size zero at the point \<open>p\<close>.\<close>

definition point_rect :: "Vector \<Rightarrow> Rectf" where
  "point_rect p = \<lparr>get_left = vx p, get_top = vy p, get_right = vx p, get_bottom = vy p\<rparr>"

section \<open>Nodes, the pool and the tree\<close>

text \<open>
  \<^verbatim>\<open>struct b2TreeNode\<close>. The union of \<^verbatim>\<open>parent\<close> and \<^verbatim>\<open>next\<close> is one field, called
  \<open>parent\<close>; \<open>next\<close> reads the same field. \<^verbatim>\<open>void* userData\<close> is an address, with 0 for
  \<^verbatim>\<open>nullptr\<close>. The \<^verbatim>\<open>int\<close> fields are unbounded integers: heights and indices stay far
  below \<open>2^31\<close> in every run that fits in memory.
\<close>

record b2TreeNode =
  aabb :: Rectf
  userData :: nat
  parent :: int
  child1 :: int
  child2 :: int
  height :: int
  moved :: bool

abbreviation "next" :: "b2TreeNode \<Rightarrow> int" where
  "next n \<equiv> parent n"

definition b2_nullNode :: int where
  "b2_nullNode = -1"

definition IsLeaf :: "b2TreeNode \<Rightarrow> bool" where
  "IsLeaf n \<longleftrightarrow> child1 n = b2_nullNode"

text \<open>
  \<^verbatim>\<open>class b2DynamicTree\<close>. The array \<^verbatim>\<open>m_nodes\<close> is a store from indices to nodes;
  the slots \<open>0 \<le> i < m_nodeCapacity\<close> are the allocated array, and what the store holds
  elsewhere stands for memory the program must not touch: every access below checks
  the index and fails with \<open>OutOfBounds\<close> outside the array.
\<close>

record b2DynamicTree =
  m_root :: int
  m_nodes :: "int \<Rightarrow> b2TreeNode"
  m_nodeCount :: int
  m_nodeCapacity :: int
  m_freeList :: int
  m_path :: int
  m_insertionCount :: int

datatype error = AssertionFailed | OutOfBounds

definition node :: "b2DynamicTree \<Rightarrow> int \<Rightarrow> b2TreeNode" where
  "node s i = m_nodes s i"

definition upd :: "b2DynamicTree \<Rightarrow> int \<Rightarrow> (b2TreeNode \<Rightarrow> b2TreeNode) \<Rightarrow> b2DynamicTree" where
  "upd s i f = s\<lparr>m_nodes := (m_nodes s)(i := f (m_nodes s i))\<rparr>"

definition in_range :: "b2DynamicTree \<Rightarrow> int \<Rightarrow> bool" where
  "in_range s i \<longleftrightarrow> 0 \<le> i \<and> i < m_nodeCapacity s"

definition zero_node :: b2TreeNode where
  "zero_node = \<lparr>aabb = \<lparr>get_left = 0, get_top = 0, get_right = 0, get_bottom = 0\<rparr>,
     userData = 0, parent = 0, child1 = 0, child2 = 0, height = 0, moved = False\<rparr>"

text \<open>The loop that threads the free list through the slots \<open>lo, ..., hi - 1\<close>, followed by the
  two assignments to the last slot \<open>hi\<close>.\<close>

definition link_free :: "int \<Rightarrow> int \<Rightarrow> b2DynamicTree \<Rightarrow> b2DynamicTree" where
  "link_free lo hi s =
     (let s1 = fold (\<lambda>i t. upd (upd t i (\<lambda>n. n\<lparr>parent := i + 1\<rparr>)) i (\<lambda>n. n\<lparr>height := -1\<rparr>))
                 [lo..hi - 1] s;
          s2 = upd s1 hi (\<lambda>n. n\<lparr>parent := b2_nullNode\<rparr>)
      in upd s2 hi (\<lambda>n. n\<lparr>height := -1\<rparr>))"

text \<open>The constructor. \<open>raw\<close> is what the memory outside the first array holds; the array
  itself is cleared by \<^verbatim>\<open>memset\<close>.\<close>

definition b2DynamicTree_new :: "(int \<Rightarrow> b2TreeNode) \<Rightarrow> b2DynamicTree" where
  "b2DynamicTree_new raw =
     (link_free 0 15
        \<lparr>m_root = b2_nullNode,
         m_nodes = (\<lambda>i. if 0 \<le> i \<and> i < 16 then zero_node else raw i),
         m_nodeCount = 0, m_nodeCapacity = 16, m_freeList = b2_nullNode,
         m_path = 0, m_insertionCount = 0\<rparr>)
     \<lparr>m_freeList := 0, m_path := 0, m_insertionCount := 0\<rparr>"

text \<open>\<^verbatim>\<open>AllocateNode\<close>, in its two parts. The first rebuilds a bigger pool when the free
  list is empty: the first \<open>m_nodeCount\<close> slots are copied and the new slots are
  uninitialised; the model leaves in them whatever the store held, which nothing below
  constrains. The second peels a node off the free list.\<close>

definition grow_pool :: "b2DynamicTree \<Rightarrow> b2DynamicTree" where
  "grow_pool s =
     (link_free (m_nodeCount s) (2 * m_nodeCapacity s - 1)
        (s\<lparr>m_nodeCapacity := 2 * m_nodeCapacity s\<rparr>))
     \<lparr>m_freeList := m_nodeCount s\<rparr>"

definition peel_node :: "b2DynamicTree \<Rightarrow> error + (b2DynamicTree \<times> int)" where
  "peel_node s =
     (let nodeId = m_freeList s
      in if \<not> in_range s nodeId then Inl OutOfBounds
         else
           let s2 = s\<lparr>m_freeList := next (node s nodeId)\<rparr>;
               s3 = upd s2 nodeId (\<lambda>n. n\<lparr>parent := b2_nullNode\<rparr>);
               s4 = upd s3 nodeId (\<lambda>n. n\<lparr>child1 := b2_nullNode\<rparr>);
               s5 = upd s4 nodeId (\<lambda>n. n\<lparr>child2 := b2_nullNode\<rparr>);
               s6 = upd s5 nodeId (\<lambda>n. n\<lparr>height := 0\<rparr>);
               s7 = upd s6 nodeId (\<lambda>n. n\<lparr>userData := 0\<rparr>);
               s8 = upd s7 nodeId (\<lambda>n. n\<lparr>moved := False\<rparr>)
           in Inr (s8\<lparr>m_nodeCount := m_nodeCount s8 + 1\<rparr>, nodeId))"

definition AllocateNode :: "b2DynamicTree \<Rightarrow> error + (b2DynamicTree \<times> int)" where
  "AllocateNode s =
     (if m_freeList s = b2_nullNode \<and> m_nodeCount s \<noteq> m_nodeCapacity s then Inl AssertionFailed
      else peel_node (if m_freeList s = b2_nullNode then grow_pool s else s))"

definition FreeNode :: "b2DynamicTree \<Rightarrow> int \<Rightarrow> error + b2DynamicTree" where
  "FreeNode s nodeId =
     (if \<not> (0 \<le> nodeId \<and> nodeId < m_nodeCapacity s) then Inl AssertionFailed
      else if \<not> 0 < m_nodeCount s then Inl AssertionFailed
      else
        let s1 = upd s nodeId (\<lambda>n. n\<lparr>parent := m_freeList s\<rparr>);
            s2 = upd s1 nodeId (\<lambda>n. n\<lparr>height := -1\<rparr>);
            s3 = s2\<lparr>m_freeList := nodeId\<rparr>
        in Inr (s3\<lparr>m_nodeCount := m_nodeCount s3 - 1\<rparr>))"

section \<open>Rotations\<close>

text \<open>
  \<^verbatim>\<open>Balance\<close> has two branches, "rotate C up" and "rotate B up", each made of the same three
  blocks of assignments with the names exchanged. Each block is one definition here; its
  assignments are applied one after the other to the store, each reading the store the
  previous one left.

  The first block, for the child \<open>iC\<close> of \<open>iA\<close> that goes up (\<open>C\<close> in one branch, \<open>B\<close> in
  the other): "swap A and C" and "A's old parent should point to C".
\<close>

definition swap_up :: "b2DynamicTree \<Rightarrow> int \<Rightarrow> int \<Rightarrow> error + b2DynamicTree" where
  "swap_up s iA iC =
     (let s1 = upd s iC (\<lambda>n. n\<lparr>child1 := iA\<rparr>);
          s2 = upd s1 iC (\<lambda>n. n\<lparr>parent := parent (node s1 iA)\<rparr>);
          s3 = upd s2 iA (\<lambda>n. n\<lparr>parent := iC\<rparr>);
          p = parent (node s3 iC)
      in if p \<noteq> b2_nullNode \<and> \<not> in_range s3 p then Inl OutOfBounds
         else if p \<noteq> b2_nullNode \<and> child1 (node s3 p) \<noteq> iA \<and> child2 (node s3 p) \<noteq> iA
           then Inl AssertionFailed
         else Inr (if p \<noteq> b2_nullNode
                   then (if child1 (node s3 p) = iA
                         then upd s3 p (\<lambda>n. n\<lparr>child1 := iC\<rparr>)
                         else upd s3 p (\<lambda>n. n\<lparr>child2 := iC\<rparr>))
                   else s3\<lparr>m_root := iC\<rparr>))"

text \<open>The block "rotate" of the branch "rotate C up", as written under
  \<^verbatim>\<open>if (F->height > G->height)\<close>; under \<^verbatim>\<open>else\<close> the same assignments are made with \<open>F\<close>
  and \<open>G\<close> exchanged.\<close>

definition rotate_C_children ::
  "b2DynamicTree \<Rightarrow> int \<Rightarrow> int \<Rightarrow> int \<Rightarrow> int \<Rightarrow> int \<Rightarrow> b2DynamicTree" where
  "rotate_C_children s iA iB iC iF iG =
     (let s5 = upd s iC (\<lambda>n. n\<lparr>child2 := iF\<rparr>);
          s6 = upd s5 iA (\<lambda>n. n\<lparr>child2 := iG\<rparr>);
          s7 = upd s6 iG (\<lambda>n. n\<lparr>parent := iA\<rparr>);
          s8 = upd s7 iA (\<lambda>n. n\<lparr>aabb := combine (aabb (node s7 iB)) (aabb (node s7 iG))\<rparr>);
          s9 = upd s8 iC (\<lambda>n. n\<lparr>aabb := combine (aabb (node s8 iA)) (aabb (node s8 iF))\<rparr>);
          s10 = upd s9 iA (\<lambda>n. n\<lparr>height := 1 + max (height (node s9 iB)) (height (node s9 iG))\<rparr>)
      in upd s10 iC (\<lambda>n. n\<lparr>height := 1 + max (height (node s10 iA)) (height (node s10 iF))\<rparr>))"

text \<open>The block "rotate" of the branch "rotate B up", as written under
  \<^verbatim>\<open>if (D->height > E->height)\<close>; under \<^verbatim>\<open>else\<close> with \<open>D\<close> and \<open>E\<close> exchanged.\<close>

definition rotate_B_children ::
  "b2DynamicTree \<Rightarrow> int \<Rightarrow> int \<Rightarrow> int \<Rightarrow> int \<Rightarrow> int \<Rightarrow> b2DynamicTree" where
  "rotate_B_children s iA iB iC iD iE =
     (let s5 = upd s iB (\<lambda>n. n\<lparr>child2 := iD\<rparr>);
          s6 = upd s5 iA (\<lambda>n. n\<lparr>child1 := iE\<rparr>);
          s7 = upd s6 iE (\<lambda>n. n\<lparr>parent := iA\<rparr>);
          s8 = upd s7 iA (\<lambda>n. n\<lparr>aabb := combine (aabb (node s7 iC)) (aabb (node s7 iE))\<rparr>);
          s9 = upd s8 iB (\<lambda>n. n\<lparr>aabb := combine (aabb (node s8 iA)) (aabb (node s8 iD))\<rparr>);
          s10 = upd s9 iA (\<lambda>n. n\<lparr>height := 1 + max (height (node s9 iC)) (height (node s9 iE))\<rparr>)
      in upd s10 iB (\<lambda>n. n\<lparr>height := 1 + max (height (node s10 iA)) (height (node s10 iD))\<rparr>))"

text \<open>The branch \<^verbatim>\<open>if (balance > 1)\<close> of \<^verbatim>\<open>Balance\<close>: rotate \<open>C\<close> up.\<close>

definition rotate_C_up :: "b2DynamicTree \<Rightarrow> int \<Rightarrow> int \<Rightarrow> int \<Rightarrow> error + (b2DynamicTree \<times> int)" where
  "rotate_C_up s iA iB iC =
     (let iF = child1 (node s iC); iG = child2 (node s iC) in
      if \<not> in_range s iF \<or> \<not> in_range s iG then Inl AssertionFailed
      else case swap_up s iA iC of
             Inl e \<Rightarrow> Inl e
           | Inr s4 \<Rightarrow>
               if height (node s4 iF) > height (node s4 iG)
               then Inr (rotate_C_children s4 iA iB iC iF iG, iC)
               else Inr (rotate_C_children s4 iA iB iC iG iF, iC))"

text \<open>The branch \<^verbatim>\<open>if (balance < -1)\<close>: rotate \<open>B\<close> up.\<close>

definition rotate_B_up :: "b2DynamicTree \<Rightarrow> int \<Rightarrow> int \<Rightarrow> int \<Rightarrow> error + (b2DynamicTree \<times> int)" where
  "rotate_B_up s iA iB iC =
     (let iD = child1 (node s iB); iE = child2 (node s iB) in
      if \<not> in_range s iD \<or> \<not> in_range s iE then Inl AssertionFailed
      else case swap_up s iA iB of
             Inl e \<Rightarrow> Inl e
           | Inr s4 \<Rightarrow>
               if height (node s4 iD) > height (node s4 iE)
               then Inr (rotate_B_children s4 iA iB iC iD iE, iB)
               else Inr (rotate_B_children s4 iA iB iC iE iD, iB))"

definition Balance :: "b2DynamicTree \<Rightarrow> int \<Rightarrow> error + (b2DynamicTree \<times> int)" where
  "Balance s iA =
     (if iA = b2_nullNode then Inl AssertionFailed
      else if \<not> in_range s iA then Inl OutOfBounds
      else if IsLeaf (node s iA) \<or> height (node s iA) < 2 then Inr (s, iA)
      else
        let iB = child1 (node s iA); iC = child2 (node s iA) in
        if \<not> in_range s iB \<or> \<not> in_range s iC then Inl AssertionFailed
        else
          let balance = height (node s iC) - height (node s iB) in
          if balance > 1 then rotate_C_up s iA iB iC
          else if balance < -1 then rotate_B_up s iA iB iC
          else Inr (s, iA))"

section \<open>Insertion\<close>

text \<open>One pass through the body of the sibling search of \<^verbatim>\<open>InsertLeaf\<close>, at the internal
  node \<open>index\<close>: the three costs, then the decision.\<close>

definition descent_cost :: "b2DynamicTree \<Rightarrow> Rectf \<Rightarrow> int \<Rightarrow> real" where
  "descent_cost s leafAABB index =
     (let combinedArea = get_perimeter (combine (aabb (node s index)) leafAABB)
      in 2 * combinedArea)"

definition inheritance_cost :: "b2DynamicTree \<Rightarrow> Rectf \<Rightarrow> int \<Rightarrow> real" where
  "inheritance_cost s leafAABB index =
     (let area = get_perimeter (aabb (node s index));
          combinedArea = get_perimeter (combine (aabb (node s index)) leafAABB)
      in 2 * (combinedArea - area))"

definition child_cost :: "b2DynamicTree \<Rightarrow> Rectf \<Rightarrow> real \<Rightarrow> int \<Rightarrow> real" where
  "child_cost s leafAABB inheritanceCost child =
     (if IsLeaf (node s child) then
        get_perimeter (combine leafAABB (aabb (node s child))) + inheritanceCost
      else
        let oldArea = get_perimeter (aabb (node s child));
            newArea = get_perimeter (combine leafAABB (aabb (node s child)))
        in (newArea - oldArea) + inheritanceCost)"

datatype descent = Stop | Descend int

definition descend_step :: "b2DynamicTree \<Rightarrow> Rectf \<Rightarrow> int \<Rightarrow> descent" where
  "descend_step s leafAABB index =
     (let child1 = child1 (node s index);
          child2 = child2 (node s index);
          cost = descent_cost s leafAABB index;
          inheritanceCost = inheritance_cost s leafAABB index;
          cost1 = child_cost s leafAABB inheritanceCost child1;
          cost2 = child_cost s leafAABB inheritanceCost child2
      in if cost < cost1 \<and> cost < cost2 then Stop
         else if cost1 < cost2 then Descend child1
         else Descend child2)"

text \<open>The loop \<^verbatim>\<open>while (m_nodes[index].IsLeaf() == false)\<close>. It returns the sibling; \<open>None\<close>
  stands for a search that never ends.\<close>

partial_function (option) find_sibling :: "b2DynamicTree \<Rightarrow> Rectf \<Rightarrow> int \<Rightarrow> (error + int) option" where
  "find_sibling s leafAABB index =
     (if \<not> in_range s index then Some (Inl OutOfBounds)
      else if IsLeaf (node s index) then Some (Inr index)
      else if \<not> in_range s (child1 (node s index)) \<or> \<not> in_range s (child2 (node s index))
        then Some (Inl OutOfBounds)
      else (case descend_step s leafAABB index of
              Stop \<Rightarrow> Some (Inr index)
            | Descend c \<Rightarrow> find_sibling s leafAABB c))"

declare find_sibling.simps [code]

text \<open>The part of \<^verbatim>\<open>InsertLeaf\<close> between the two loops: a new parent takes the place of the
  sibling and gets the sibling and the leaf as children.\<close>

definition splice_leaf :: "b2DynamicTree \<Rightarrow> Rectf \<Rightarrow> int \<Rightarrow> int \<Rightarrow> error + b2DynamicTree" where
  "splice_leaf s leafAABB leaf sibling =
     (let oldParent = parent (node s sibling) in
      case AllocateNode s of
        Inl e \<Rightarrow> Inl e
      | Inr (s1, newParent) \<Rightarrow>
          if \<not> in_range s1 sibling \<or> \<not> in_range s1 leaf then Inl OutOfBounds
          else if oldParent \<noteq> b2_nullNode \<and> \<not> in_range s1 oldParent then Inl OutOfBounds
          else
            let s2 = upd s1 newParent (\<lambda>n. n\<lparr>parent := oldParent\<rparr>);
                s3 = upd s2 newParent (\<lambda>n. n\<lparr>userData := 0\<rparr>);
                s4 = upd s3 newParent (\<lambda>n. n\<lparr>aabb := combine leafAABB (aabb (node s3 sibling))\<rparr>);
                s5 = upd s4 newParent (\<lambda>n. n\<lparr>height := height (node s4 sibling) + 1\<rparr>)
            in if oldParent \<noteq> b2_nullNode then
                 let s6 = (if child1 (node s5 oldParent) = sibling
                           then upd s5 oldParent (\<lambda>n. n\<lparr>child1 := newParent\<rparr>)
                           else upd s5 oldParent (\<lambda>n. n\<lparr>child2 := newParent\<rparr>));
                     s7 = upd s6 newParent (\<lambda>n. n\<lparr>child1 := sibling\<rparr>);
                     s8 = upd s7 newParent (\<lambda>n. n\<lparr>child2 := leaf\<rparr>);
                     s9 = upd s8 sibling (\<lambda>n. n\<lparr>parent := newParent\<rparr>)
                 in Inr (upd s9 leaf (\<lambda>n. n\<lparr>parent := newParent\<rparr>))
               else
                 let s7 = upd s5 newParent (\<lambda>n. n\<lparr>child1 := sibling\<rparr>);
                     s8 = upd s7 newParent (\<lambda>n. n\<lparr>child2 := leaf\<rparr>);
                     s9 = upd s8 sibling (\<lambda>n. n\<lparr>parent := newParent\<rparr>);
                     s10 = upd s9 leaf (\<lambda>n. n\<lparr>parent := newParent\<rparr>)
                 in Inr (s10\<lparr>m_root := newParent\<rparr>))"

text \<open>The body of the loop "walk back up the tree fixing heights and AABBs" of
  \<^verbatim>\<open>InsertLeaf\<close>; it returns the store and the next \<open>index\<close>.\<close>

definition insert_fix :: "b2DynamicTree \<Rightarrow> int \<Rightarrow> error + (b2DynamicTree \<times> int)" where
  "insert_fix s index0 =
     (case Balance s index0 of
        Inl e \<Rightarrow> Inl e
      | Inr (s1, index) \<Rightarrow>
          if \<not> in_range s1 index then Inl OutOfBounds
          else
            let child1 = child1 (node s1 index);
                child2 = child2 (node s1 index)
            in if child1 = b2_nullNode \<or> child2 = b2_nullNode then Inl AssertionFailed
               else if \<not> in_range s1 child1 \<or> \<not> in_range s1 child2 then Inl OutOfBounds
               else
                 let s2 = upd s1 index
                            (\<lambda>n. n\<lparr>height := 1 + max (height (node s1 child1)) (height (node s1 child2))\<rparr>);
                     s3 = upd s2 index
                            (\<lambda>n. n\<lparr>aabb := combine (aabb (node s2 child1)) (aabb (node s2 child2))\<rparr>)
                 in Inr (s3, parent (node s3 index)))"

text \<open>The body of the loop "adjust ancestor bounds" of \<^verbatim>\<open>RemoveLeaf\<close>: no assertion, and
  the box is assigned before the height.\<close>

definition remove_fix :: "b2DynamicTree \<Rightarrow> int \<Rightarrow> error + (b2DynamicTree \<times> int)" where
  "remove_fix s index0 =
     (case Balance s index0 of
        Inl e \<Rightarrow> Inl e
      | Inr (s1, index) \<Rightarrow>
          if \<not> in_range s1 index then Inl OutOfBounds
          else
            let child1 = child1 (node s1 index);
                child2 = child2 (node s1 index)
            in if \<not> in_range s1 child1 \<or> \<not> in_range s1 child2 then Inl OutOfBounds
               else
                 let s2 = upd s1 index
                            (\<lambda>n. n\<lparr>aabb := combine (aabb (node s1 child1)) (aabb (node s1 child2))\<rparr>);
                     s3 = upd s2 index
                            (\<lambda>n. n\<lparr>height := 1 + max (height (node s2 child1)) (height (node s2 child2))\<rparr>)
                 in Inr (s3, parent (node s3 index)))"

text \<open>The loop \<^verbatim>\<open>while (index != b2_nullNode)\<close> around either body; \<open>None\<close> stands for a
  walk that never reaches the root.\<close>

partial_function (option) walk_up ::
  "(b2DynamicTree \<Rightarrow> int \<Rightarrow> error + (b2DynamicTree \<times> int)) \<Rightarrow> b2DynamicTree \<Rightarrow> int
     \<Rightarrow> (error + b2DynamicTree) option" where
  "walk_up body s index =
     (if index = b2_nullNode then Some (Inr s)
      else (case body s index of
              Inl e \<Rightarrow> Some (Inl e)
            | Inr (s1, index1) \<Rightarrow> walk_up body s1 index1))"

declare walk_up.simps [code]

definition InsertLeaf :: "b2DynamicTree \<Rightarrow> int \<Rightarrow> (error + b2DynamicTree) option" where
  "InsertLeaf s0 leaf =
     (let s = s0\<lparr>m_insertionCount := m_insertionCount s0 + 1\<rparr> in
      if m_root s = b2_nullNode then
        (if \<not> in_range s leaf then Some (Inl OutOfBounds)
         else Some (Inr (upd (s\<lparr>m_root := leaf\<rparr>) leaf (\<lambda>n. n\<lparr>parent := b2_nullNode\<rparr>))))
      else if \<not> in_range s leaf then Some (Inl OutOfBounds)
      else
        let leafAABB = aabb (node s leaf) in
        case find_sibling s leafAABB (m_root s) of
          None \<Rightarrow> None
        | Some (Inl e) \<Rightarrow> Some (Inl e)
        | Some (Inr sibling) \<Rightarrow>
            (case splice_leaf s leafAABB leaf sibling of
               Inl e \<Rightarrow> Some (Inl e)
             | Inr s1 \<Rightarrow> walk_up insert_fix s1 (parent (node s1 leaf))))"

section \<open>Removal\<close>

definition RemoveLeaf :: "b2DynamicTree \<Rightarrow> int \<Rightarrow> (error + b2DynamicTree) option" where
  "RemoveLeaf s leaf =
     (if leaf = m_root s then Some (Inr (s\<lparr>m_root := b2_nullNode\<rparr>))
      else if \<not> in_range s leaf then Some (Inl OutOfBounds)
      else
        let iParent = parent (node s leaf) in
        if \<not> in_range s iParent then Some (Inl OutOfBounds)
        else
          let grandParent = parent (node s iParent);
              sibling = (if child1 (node s iParent) = leaf then child2 (node s iParent)
                         else child1 (node s iParent))
          in if \<not> in_range s sibling then Some (Inl OutOfBounds)
             else if grandParent \<noteq> b2_nullNode then
               (if \<not> in_range s grandParent then Some (Inl OutOfBounds)
                else
                  let s1 = (if child1 (node s grandParent) = iParent
                            then upd s grandParent (\<lambda>n. n\<lparr>child1 := sibling\<rparr>)
                            else upd s grandParent (\<lambda>n. n\<lparr>child2 := sibling\<rparr>));
                      s2 = upd s1 sibling (\<lambda>n. n\<lparr>parent := grandParent\<rparr>)
                  in case FreeNode s2 iParent of
                       Inl e \<Rightarrow> Some (Inl e)
                     | Inr s3 \<Rightarrow> walk_up remove_fix s3 grandParent)
             else
               let s1 = s\<lparr>m_root := sibling\<rparr>;
                   s2 = upd s1 sibling (\<lambda>n. n\<lparr>parent := b2_nullNode\<rparr>)
               in Some (FreeNode s2 iParent))"

section \<open>The public operations\<close>

text \<open>\<^verbatim>\<open>b2_aabbExtension\<close> and \<^verbatim>\<open>b2_aabbMultiplier\<close> are constants of a header that is
  missing; they are the parameters \<open>ext\<close> and \<open>mult\<close>.\<close>

definition CreateProxy ::
  "real \<Rightarrow> b2DynamicTree \<Rightarrow> Rectf \<Rightarrow> nat \<Rightarrow> (error + (b2DynamicTree \<times> int)) option" where
  "CreateProxy ext s aabb0 userData0 =
     (case AllocateNode s of
        Inl e \<Rightarrow> Some (Inl e)
      | Inr (s1, proxyId) \<Rightarrow>
          let s2 = upd s1 proxyId (\<lambda>n. n\<lparr>aabb := grown aabb0 ext\<rparr>);
              s3 = upd s2 proxyId (\<lambda>n. n\<lparr>userData := userData0\<rparr>);
              s4 = upd s3 proxyId (\<lambda>n. n\<lparr>height := 0\<rparr>);
              s5 = upd s4 proxyId (\<lambda>n. n\<lparr>moved := True\<rparr>)
          in case InsertLeaf s5 proxyId of
               None \<Rightarrow> None
             | Some (Inl e) \<Rightarrow> Some (Inl e)
             | Some (Inr s6) \<Rightarrow> Some (Inr (s6, proxyId)))"

definition DestroyProxy :: "b2DynamicTree \<Rightarrow> int \<Rightarrow> (error + b2DynamicTree) option" where
  "DestroyProxy s proxyId =
     (if \<not> (0 \<le> proxyId \<and> proxyId < m_nodeCapacity s) then Some (Inl AssertionFailed)
      else if \<not> IsLeaf (node s proxyId) then Some (Inl AssertionFailed)
      else case RemoveLeaf s proxyId of
             None \<Rightarrow> None
           | Some (Inl e) \<Rightarrow> Some (Inl e)
           | Some (Inr s1) \<Rightarrow> Some (FreeNode s1 proxyId))"

text \<open>The first part of \<^verbatim>\<open>MoveProxy\<close>: the new fat box, extended by the predicted motion.\<close>

definition predicted_fatAABB :: "real \<Rightarrow> real \<Rightarrow> Rectf \<Rightarrow> Vector \<Rightarrow> Rectf" where
  "predicted_fatAABB ext mult aabb0 displacement =
     (let fatAABB = grown aabb0 ext;
          d = vscale mult displacement;
          fat1 = (if vx d < 0 then fatAABB\<lparr>get_left := get_left fatAABB + vx d\<rparr>
                  else fatAABB\<lparr>get_right := get_right fatAABB + vx d\<rparr>)
      in if vy d < 0 then fat1\<lparr>get_top := get_top fat1 + vy d\<rparr>
         else fat1\<lparr>get_bottom := get_bottom fat1 + vy d\<rparr>)"

definition MoveProxy ::
  "real \<Rightarrow> real \<Rightarrow> b2DynamicTree \<Rightarrow> int \<Rightarrow> Rectf \<Rightarrow> Vector \<Rightarrow> (error + (b2DynamicTree \<times> bool)) option" where
  "MoveProxy ext mult s proxyId aabb0 displacement =
     (if \<not> (0 \<le> proxyId \<and> proxyId < m_nodeCapacity s) then Some (Inl AssertionFailed)
      else if \<not> IsLeaf (node s proxyId) then Some (Inl AssertionFailed)
      else
        let fatAABB = predicted_fatAABB ext mult aabb0 displacement;
            treeAABB = aabb (node s proxyId)
        in if contains treeAABB aabb0 \<and> contains (grown fatAABB (4 * ext)) treeAABB
           then Some (Inr (s, False))
           else case RemoveLeaf s proxyId of
                  None \<Rightarrow> None
                | Some (Inl e) \<Rightarrow> Some (Inl e)
                | Some (Inr s1) \<Rightarrow>
                    (case InsertLeaf (upd s1 proxyId (\<lambda>n. n\<lparr>aabb := fatAABB\<rparr>)) proxyId of
                       None \<Rightarrow> None
                     | Some (Inl e) \<Rightarrow> Some (Inl e)
                     | Some (Inr s2) \<Rightarrow>
                         Some (Inr (upd s2 proxyId (\<lambda>n. n\<lparr>moved := True\<rparr>), True))))"

definition GetUserData :: "b2DynamicTree \<Rightarrow> int \<Rightarrow> error + nat" where
  "GetUserData s proxyId =
     (if \<not> (0 \<le> proxyId \<and> proxyId < m_nodeCapacity s) then Inl AssertionFailed
      else Inr (userData (node s proxyId)))"

definition WasMoved :: "b2DynamicTree \<Rightarrow> int \<Rightarrow> error + bool" where
  "WasMoved s proxyId =
     (if \<not> (0 \<le> proxyId \<and> proxyId < m_nodeCapacity s) then Inl AssertionFailed
      else Inr (moved (node s proxyId)))"

definition ClearMoved :: "b2DynamicTree \<Rightarrow> int \<Rightarrow> error + b2DynamicTree" where
  "ClearMoved s proxyId =
     (if \<not> (0 \<le> proxyId \<and> proxyId < m_nodeCapacity s) then Inl AssertionFailed
      else Inr (upd s proxyId (\<lambda>n. n\<lparr>moved := False\<rparr>)))"

definition GetFatAABB :: "b2DynamicTree \<Rightarrow> int \<Rightarrow> error + Rectf" where
  "GetFatAABB s proxyId =
     (if \<not> (0 \<le> proxyId \<and> proxyId < m_nodeCapacity s) then Inl AssertionFailed
      else Inr (aabb (node s proxyId)))"

definition GetHeight :: "b2DynamicTree \<Rightarrow> error + int" where
  "GetHeight s =
     (if m_root s = b2_nullNode then Inr 0
      else if \<not> in_range s (m_root s) then Inl OutOfBounds
      else Inr (height (node s (m_root s))))"

text \<open>\<^verbatim>\<open>GetMaxBalance\<close>: the loop over all slots, as a fold that carries \<open>maxBalance\<close>.\<close>

definition max_balance_step :: "b2DynamicTree \<Rightarrow> int \<Rightarrow> error + int \<Rightarrow> error + int" where
  "max_balance_step s i acc =
     (case acc of
        Inl e \<Rightarrow> Inl e
      | Inr maxBalance \<Rightarrow>
          if height (node s i) \<le> 1 then Inr maxBalance
          else if IsLeaf (node s i) then Inl AssertionFailed
          else if \<not> in_range s (child1 (node s i)) \<or> \<not> in_range s (child2 (node s i))
            then Inl OutOfBounds
          else
            let balance = \<bar>height (node s (child2 (node s i))) - height (node s (child1 (node s i)))\<bar>
            in Inr (max maxBalance balance))"

definition GetMaxBalance :: "b2DynamicTree \<Rightarrow> error + int" where
  "GetMaxBalance s = fold (max_balance_step s) [0..m_nodeCapacity s - 1] (Inr 0)"

definition ShiftOrigin :: "b2DynamicTree \<Rightarrow> Vector \<Rightarrow> b2DynamicTree" where
  "ShiftOrigin s newOrigin =
     fold (\<lambda>i t. upd t i (\<lambda>n. n\<lparr>aabb := move (aabb n) (vneg newOrigin)\<rparr>))
       [0..m_nodeCapacity s - 1] s"

text \<open>
  \<^verbatim>\<open>RebuildBottomUp\<close>. The local array \<^verbatim>\<open>nodes\<close> has \<^verbatim>\<open>m_nodeCount\<close> entries, of which the
  first \<^verbatim>\<open>count\<close> have been written; the model keeps these as a list. \<^verbatim>\<open>b2_maxFloat\<close> is a
  constant of a header that is missing; it is the parameter \<open>maxFloat\<close>. \<^verbatim>\<open>Validate\<close>, called
  last, has an empty body unless \<^verbatim>\<open>b2DEBUG\<close> is defined.

  One pass of the first loop, "build array of leaves, free the rest":
\<close>

definition collect_step ::
  "int \<Rightarrow> int \<Rightarrow> error + (b2DynamicTree \<times> int list) \<Rightarrow> error + (b2DynamicTree \<times> int list)" where
  "collect_step sz i acc =
     (case acc of
        Inl e \<Rightarrow> Inl e
      | Inr (s, nodes) \<Rightarrow>
          if height (node s i) < 0 then Inr (s, nodes)
          else if IsLeaf (node s i) then
            (if \<not> int (length nodes) < sz then Inl OutOfBounds
             else Inr (upd s i (\<lambda>n. n\<lparr>parent := b2_nullNode\<rparr>), nodes @ [i]))
          else (case FreeNode s i of Inl e \<Rightarrow> Inl e | Inr s1 \<Rightarrow> Inr (s1, nodes)))"

text \<open>The two nested loops that look for the pair of least cost; they carry \<^verbatim>\<open>minCost\<close>,
  \<^verbatim>\<open>iMin\<close> and \<^verbatim>\<open>jMin\<close>.\<close>

definition min_pair_step ::
  "b2DynamicTree \<Rightarrow> int list \<Rightarrow> int \<Rightarrow> int \<Rightarrow> real \<times> int \<times> int \<Rightarrow> real \<times> int \<times> int" where
  "min_pair_step s nodes i j acc =
     (case acc of (minCost, iMin, jMin) \<Rightarrow>
        let aabbi = aabb (node s (nodes ! nat i));
            aabbj = aabb (node s (nodes ! nat j));
            cost = get_perimeter (combine aabbi aabbj)
        in if cost < minCost then (cost, i, j) else (minCost, iMin, jMin))"

definition min_pair :: "real \<Rightarrow> b2DynamicTree \<Rightarrow> int list \<Rightarrow> real \<times> int \<times> int" where
  "min_pair maxFloat s nodes =
     fold (\<lambda>i acc. fold (min_pair_step s nodes i) [i + 1..int (length nodes) - 1] acc)
       [0..int (length nodes) - 1] (maxFloat, - 1, - 1)"

text \<open>The body of the loop \<^verbatim>\<open>while (count > 1)\<close>. The pointers \<^verbatim>\<open>child1\<close> and \<^verbatim>\<open>child2\<close> are
  taken before \<^verbatim>\<open>AllocateNode\<close>; when \<^verbatim>\<open>AllocateNode\<close> has to move the pool they point
  into freed memory, and the model reports the accesses through them as out of bounds.\<close>

definition join_pair ::
  "real \<Rightarrow> b2DynamicTree \<Rightarrow> int list \<Rightarrow> error + (b2DynamicTree \<times> int list)" where
  "join_pair maxFloat s nodes =
     (if \<not> list_all (in_range s) nodes then Inl OutOfBounds
      else
        case min_pair maxFloat s nodes of (minCost, iMin, jMin) \<Rightarrow>
          if \<not> (0 \<le> iMin \<and> iMin < int (length nodes)) \<or> \<not> (0 \<le> jMin \<and> jMin < int (length nodes))
          then Inl OutOfBounds
          else
            let index1 = nodes ! nat iMin;
                index2 = nodes ! nat jMin
            in case AllocateNode s of
                 Inl e \<Rightarrow> Inl e
               | Inr (s1, parentIndex) \<Rightarrow>
                   if m_freeList s = b2_nullNode then Inl OutOfBounds
                   else
                     let s2 = upd s1 parentIndex (\<lambda>n. n\<lparr>child1 := index1\<rparr>);
                         s3 = upd s2 parentIndex (\<lambda>n. n\<lparr>child2 := index2\<rparr>);
                         s4 = upd s3 parentIndex
                                (\<lambda>n. n\<lparr>height := 1 + max (height (node s3 index1)) (height (node s3 index2))\<rparr>);
                         s5 = upd s4 parentIndex
                                (\<lambda>n. n\<lparr>aabb := combine (aabb (node s4 index1)) (aabb (node s4 index2))\<rparr>);
                         s6 = upd s5 parentIndex (\<lambda>n. n\<lparr>parent := b2_nullNode\<rparr>);
                         s7 = upd s6 index1 (\<lambda>n. n\<lparr>parent := parentIndex\<rparr>);
                         s8 = upd s7 index2 (\<lambda>n. n\<lparr>parent := parentIndex\<rparr>)
                     in Inr (s8, butlast ((nodes[nat jMin := last nodes])[nat iMin := parentIndex])))"

function rebuild_loop ::
  "real \<Rightarrow> b2DynamicTree \<Rightarrow> int list \<Rightarrow> error + (b2DynamicTree \<times> int list)" where
  "rebuild_loop maxFloat s nodes =
     (if length nodes \<le> 1 then Inr (s, nodes)
      else case join_pair maxFloat s nodes of
             Inl e \<Rightarrow> Inl e
           | Inr (s1, nodes1) \<Rightarrow> rebuild_loop maxFloat s1 nodes1)"
  by pat_completeness auto

termination
proof (relation "measure (\<lambda>(maxFloat, s, nodes). length nodes)")
  show "wf (measure (\<lambda>(maxFloat :: real, s :: b2DynamicTree, nodes :: int list). length nodes))"
    by simp
next
  fix maxFloat s and nodes :: "int list" and x2 s1 nodes1
  assume "\<not> length nodes \<le> 1" and "join_pair maxFloat s nodes = Inr x2" and "(s1, nodes1) = x2"
  then have "length nodes1 = length nodes - 1"
    by (auto simp: join_pair_def Let_def split: if_splits prod.splits sum.splits)
  with \<open>\<not> length nodes \<le> 1\<close>
  show "((maxFloat, s1, nodes1), (maxFloat, s, nodes))
      \<in> measure (\<lambda>(maxFloat, s, nodes). length nodes)"
    by simp
qed

declare rebuild_loop.simps [simp del]

text \<open>\<^verbatim>\<open>m_root = nodes[0]\<close> reads a slot that was never written when no leaf was found.\<close>

definition RebuildBottomUp :: "real \<Rightarrow> b2DynamicTree \<Rightarrow> error + b2DynamicTree" where
  "RebuildBottomUp maxFloat s =
     (case fold (collect_step (m_nodeCount s)) [0..m_nodeCapacity s - 1] (Inr (s, [])) of
        Inl e \<Rightarrow> Inl e
      | Inr (s1, nodes) \<Rightarrow>
          (case rebuild_loop maxFloat s1 nodes of
             Inl e \<Rightarrow> Inl e
           | Inr (s2, nodes2) \<Rightarrow>
               if nodes2 = [] then Inl OutOfBounds else Inr (s2\<lparr>m_root := nodes2 ! 0\<rparr>)))"

section \<open>Queries\<close>

text \<open>
  \<^verbatim>\<open>Query\<close> and \<^verbatim>\<open>RayCast\<close> are templates over the callback class. A callback object is
  modelled by its state \<open>'c\<close> and a function from the state and the arguments of the call
  to the returned value and the next state. Both walks are a \<^verbatim>\<open>while\<close> loop over a
  \<^verbatim>\<open>std::vector\<close> used as a stack, whose back is the end of the list. One pass through
  the body either goes on with a new loop state, or returns, or fails.
\<close>

datatype ('l, 'c) iteration = Continue 'l | Return 'c | Fail error

partial_function (option) run_loop ::
  "('l \<Rightarrow> ('l, 'c) iteration) \<Rightarrow> 'l \<Rightarrow> (error + 'c) option" where
  "run_loop body l =
     (case body l of
        Continue l1 \<Rightarrow> run_loop body l1
      | Return c \<Rightarrow> Some (Inr c)
      | Fail e \<Rightarrow> Some (Inl e))"

declare run_loop.simps [code]

definition Query_body ::
  "('c \<Rightarrow> int \<Rightarrow> bool \<times> 'c) \<Rightarrow> b2DynamicTree \<Rightarrow> Rectf \<Rightarrow> int list \<times> 'c
     \<Rightarrow> (int list \<times> 'c, 'c) iteration" where
  "Query_body QueryCallback s aabb0 l =
     (case l of (stack, c) \<Rightarrow>
        if stack = [] then Return c
        else
          let nodeId = last stack; stack1 = butlast stack in
          if nodeId = b2_nullNode then Continue (stack1, c)
          else if \<not> in_range s nodeId then Fail OutOfBounds
          else if overlaps (aabb (node s nodeId)) aabb0 then
            (if IsLeaf (node s nodeId) then
               (case QueryCallback c nodeId of
                  (proceed, c1) \<Rightarrow> if proceed = False then Return c1 else Continue (stack1, c1))
             else Continue (stack1 @ [child1 (node s nodeId), child2 (node s nodeId)], c))
          else Continue (stack1, c))"

definition Query ::
  "('c \<Rightarrow> int \<Rightarrow> bool \<times> 'c) \<Rightarrow> 'c \<Rightarrow> b2DynamicTree \<Rightarrow> Rectf \<Rightarrow> (error + 'c) option" where
  "Query QueryCallback c s aabb0 = run_loop (Query_body QueryCallback s aabb0) ([m_root s], c)"

record b2RayCastInput =
  p1 :: Vector
  p2 :: Vector
  maxFraction :: real

record 'c ray_loop =
  rl_stack :: "int list"
  rl_maxFraction :: real
  rl_segmentAABB :: Rectf
  rl_callback :: 'c

text \<open>The bounding box of the segment from \<open>p1\<close> to \<open>p1 + maxFraction * (p2 - p1)\<close>.\<close>

definition segment_box :: "Vector \<Rightarrow> Vector \<Rightarrow> real \<Rightarrow> Rectf" where
  "segment_box a b fraction =
     (let t = vplus a (vscale fraction (vminus b a))
      in combine (point_rect a) (point_rect t))"

text \<open>The branch \<^verbatim>\<open>if (node->IsLeaf())\<close> of the body of \<^verbatim>\<open>RayCast\<close>: the call of the
  callback and what its value does to the ray. \<open>l1\<close> is the loop state after the pop.\<close>

definition RayCast_leaf ::
  "('c \<Rightarrow> b2RayCastInput \<Rightarrow> int \<Rightarrow> real \<times> 'c) \<Rightarrow> b2RayCastInput \<Rightarrow> 'c ray_loop \<Rightarrow> int
     \<Rightarrow> ('c ray_loop, 'c) iteration" where
  "RayCast_leaf RayCastCallback input l1 nodeId =
     (let subInput = \<lparr>p1 = p1 input, p2 = p2 input, maxFraction = rl_maxFraction l1\<rparr>
      in case RayCastCallback (rl_callback l1) subInput nodeId of
           (value, c1) \<Rightarrow>
             if value = 0 then Return c1
             else if value > 0 then
               Continue (l1\<lparr>rl_maxFraction := value,
                            rl_segmentAABB := segment_box (p1 input) (p2 input) value,
                            rl_callback := c1\<rparr>)
             else Continue (l1\<lparr>rl_callback := c1\<rparr>))"

definition RayCast_body ::
  "('c \<Rightarrow> b2RayCastInput \<Rightarrow> int \<Rightarrow> real \<times> 'c) \<Rightarrow> b2DynamicTree \<Rightarrow> b2RayCastInput
     \<Rightarrow> Vector \<Rightarrow> Vector \<Rightarrow> 'c ray_loop \<Rightarrow> ('c ray_loop, 'c) iteration" where
  "RayCast_body RayCastCallback s input v abs_v l =
     (if rl_stack l = [] then Return (rl_callback l)
      else
        let nodeId = last (rl_stack l);
            l1 = l\<lparr>rl_stack := butlast (rl_stack l)\<rparr>
        in if nodeId = b2_nullNode then Continue l1
           else if \<not> in_range s nodeId then Fail OutOfBounds
           else if overlaps (aabb (node s nodeId)) (rl_segmentAABB l) = False then Continue l1
           else
             let c = get_middle (aabb (node s nodeId));
                 h = get_extents (aabb (node s nodeId));
                 separation = \<bar>b2Dot v (vminus (p1 input) c)\<bar> - b2Dot abs_v h
             in if separation > 0 then Continue l1
                else if IsLeaf (node s nodeId) then RayCast_leaf RayCastCallback input l1 nodeId
                else Continue (l1\<lparr>rl_stack := rl_stack l1 @
                                  [child1 (node s nodeId), child2 (node s nodeId)]\<rparr>))"

definition RayCast ::
  "('c \<Rightarrow> b2RayCastInput \<Rightarrow> int \<Rightarrow> real \<times> 'c) \<Rightarrow> 'c \<Rightarrow> b2DynamicTree \<Rightarrow> b2RayCastInput
     \<Rightarrow> (error + 'c) option" where
  "RayCast RayCastCallback c s input =
     (let r = vminus (p2 input) (p1 input) in
      if \<not> LengthSquared r > 0 then Some (Inl AssertionFailed)
      else
        let r1 = Normalize r;
            v = b2Cross 1 r1;
            abs_v = b2AbsV v
        in run_loop (RayCast_body RayCastCallback s input v abs_v)
             \<lparr>rl_stack = [m_root s], rl_maxFraction = maxFraction input,
              rl_segmentAABB = segment_box (p1 input) (p2 input) (maxFraction input),
              rl_callback = c\<rparr>)"

section \<open>Example trees\<close>

text \<open>Concrete inputs for the witnesses and counterexamples below. \<open>created s r\<close> is the
  tree after \<^verbatim>\<open>CreateProxy\<close> of the tight box \<open>r\<close> with extension \<open>0.1\<close> and no user data.\<close>

definition rect :: "real \<Rightarrow> real \<Rightarrow> real \<Rightarrow> real \<Rightarrow> Rectf" where
  "rect l t r b = \<lparr>get_left = l, get_top = t, get_right = r, get_bottom = b\<rparr>"

definition created :: "b2DynamicTree \<Rightarrow> Rectf \<Rightarrow> b2DynamicTree" where
  "created s r = (case CreateProxy (1/10) s r 0 of Some (Inr (s1, h)) \<Rightarrow> s1 | _ \<Rightarrow> s)"

definition tree0 :: b2DynamicTree where
  "tree0 = b2DynamicTree_new (\<lambda>i. zero_node)"

text \<open>The tree of one proxy with the tight box \<open>[(0,0),(1,1)]\<close>, for an extension \<open>ext\<close>.\<close>

definition one_proxy :: "real \<Rightarrow> b2DynamicTree" where
  "one_proxy ext = (case CreateProxy ext tree0 (rect 0 0 1 1) 0 of Some (Inr (s1, h)) \<Rightarrow> s1 | _ \<Rightarrow> tree0)"

text \<open>Two proxies side by side, and the fat box of a third one placed symmetrically above
  them.\<close>

definition tie_tree :: b2DynamicTree where
  "tie_tree = created (created tree0 (rect 0 0 1 1)) (rect 2 0 3 1)"

definition tie_leaf :: Rectf where
  "tie_leaf = grown (rect 1 5 2 6) (1/10)"

section \<open>Observing the callbacks\<close>

text \<open>A callback wrapped so that its state also records every call made to it: the handle
  and the returned flag for \<^verbatim>\<open>QueryCallback\<close>; the \<^verbatim>\<open>maxFraction\<close> of the input passed,
  the handle and the returned value for \<^verbatim>\<open>RayCastCallback\<close>. The wrapped callback
  answers as the callback does.\<close>

definition traced_query ::
  "('c \<Rightarrow> int \<Rightarrow> bool \<times> 'c) \<Rightarrow> 'c \<times> (int \<times> bool) list \<Rightarrow> int \<Rightarrow> bool \<times> 'c \<times> (int \<times> bool) list" where
  "traced_query cb ct h = (case cb (fst ct) h of (b, c1) \<Rightarrow> (b, (c1, snd ct @ [(h, b)])))"

definition traced_ray ::
  "('c \<Rightarrow> b2RayCastInput \<Rightarrow> int \<Rightarrow> real \<times> 'c) \<Rightarrow> 'c \<times> (real \<times> int \<times> real) list
     \<Rightarrow> b2RayCastInput \<Rightarrow> int \<Rightarrow> real \<times> 'c \<times> (real \<times> int \<times> real) list" where
  "traced_ray cb ct subInput h =
     (case cb (fst ct) subInput h of (v, c1) \<Rightarrow> (v, (c1, snd ct @ [(maxFraction subInput, h, v)])))"

text \<open>The state of the callback after one pass through the body of \<^verbatim>\<open>RayCast\<close>.\<close>

definition iteration_callback :: "('c ray_loop, 'c) iteration \<Rightarrow> 'c option" where
  "iteration_callback r =
     (case r of Continue l \<Rightarrow> Some (rl_callback l) | Return c \<Rightarrow> Some c | Fail e \<Rightarrow> None)"

text \<open>A ray along the two proxies of \<open>tie_tree\<close>, and a loop state of \<^verbatim>\<open>RayCast\<close> about to
  visit the leaf 1.\<close>

definition ray_in :: b2RayCastInput where
  "ray_in = \<lparr>p1 = \<lparr>vx = 0, vy = 1/2\<rparr>, p2 = \<lparr>vx = 4, vy = 1/2\<rparr>, maxFraction = 1\<rparr>"

definition ray_loop1 :: "(unit \<times> (real \<times> int \<times> real) list) ray_loop" where
  "ray_loop1 = \<lparr>rl_stack = [0, 1], rl_maxFraction = 1,
     rl_segmentAABB = segment_box (p1 ray_in) (p2 ray_in) 1, rl_callback = ((), [])\<rparr>"

section \<open>The shape of a tree\<close>

text \<open>
  What the code relies on between two public calls, as predicates on the state. A slot of
  the pool is allocated when its height is not the \<open>-1\<close> that \<^verbatim>\<open>FreeNode\<close> and the
  constructor write. The free slots form one list from \<open>m_freeList\<close> through the \<open>next\<close>
  fields, and \<open>m_nodeCount\<close> counts the others.
\<close>

definition allocated :: "b2DynamicTree \<Rightarrow> int \<Rightarrow> bool" where
  "allocated s i \<longleftrightarrow> in_range s i \<and> 0 \<le> height (node s i)"

fun free_chain :: "b2DynamicTree \<Rightarrow> int \<Rightarrow> int list \<Rightarrow> bool" where
  "free_chain s i [] \<longleftrightarrow> i = b2_nullNode"
| "free_chain s i (x # xs) \<longleftrightarrow>
     i = x \<and> in_range s x \<and> height (node s x) = -1 \<and> free_chain s (next (node s x)) xs"

definition pool_inv :: "b2DynamicTree \<Rightarrow> bool" where
  "pool_inv s \<longleftrightarrow>
     0 < m_nodeCapacity s \<and>
     (\<forall>i. in_range s i \<longrightarrow> -1 \<le> height (node s i)) \<and>
     (\<exists>xs. free_chain s (m_freeList s) xs \<and> distinct xs \<and>
        set xs = {i. in_range s i \<and> height (node s i) = -1} \<and>
        m_nodeCount s + int (length xs) = m_nodeCapacity s)"

text \<open>
  In the middle of an operation some allocated nodes hang outside the tree (the leaf being
  inserted or removed, a parent just allocated): the set \<open>D\<close>. The other allocated nodes
  are attached. \<open>links_inv\<close> says that parent and child pointers of attached nodes agree;
  \<open>rank_inv\<close> that a function \<open>r\<close> decreases from a node to its children, which rules out
  cycles; \<open>exact_inv\<close> that height and box of an internal node are computed from its
  children, except at the nodes of \<open>P\<close>, the ancestors that the walk back to the root has
  still to fix; \<open>root_inv\<close> that the root is attached and has no parent.
\<close>

definition attached :: "b2DynamicTree \<Rightarrow> int set \<Rightarrow> int \<Rightarrow> bool" where
  "attached s D i \<longleftrightarrow> allocated s i \<and> i \<notin> D"

definition links_inv :: "b2DynamicTree \<Rightarrow> int set \<Rightarrow> bool" where
  "links_inv s D \<longleftrightarrow>
     (\<forall>i. attached s D i \<longrightarrow>
        (i \<noteq> m_root s \<longrightarrow>
           attached s D (parent (node s i)) \<and>
           (child1 (node s (parent (node s i))) = i \<or> child2 (node s (parent (node s i))) = i)) \<and>
        (child1 (node s i) = b2_nullNode \<longrightarrow>
           child2 (node s i) = b2_nullNode \<and> height (node s i) = 0) \<and>
        (child1 (node s i) \<noteq> b2_nullNode \<longrightarrow>
           attached s D (child1 (node s i)) \<and> attached s D (child2 (node s i)) \<and>
           child1 (node s i) \<noteq> child2 (node s i) \<and>
           parent (node s (child1 (node s i))) = i \<and>
           parent (node s (child2 (node s i))) = i))"

definition rank_inv :: "b2DynamicTree \<Rightarrow> int set \<Rightarrow> (int \<Rightarrow> real) \<Rightarrow> bool" where
  "rank_inv s D r \<longleftrightarrow>
     (\<forall>i. attached s D i \<and> child1 (node s i) \<noteq> b2_nullNode \<longrightarrow>
        r (child1 (node s i)) < r i \<and> r (child2 (node s i)) < r i)"

definition exact_inv :: "b2DynamicTree \<Rightarrow> int set \<Rightarrow> int set \<Rightarrow> bool" where
  "exact_inv s D P \<longleftrightarrow>
     (\<forall>i. attached s D i \<and> i \<notin> P \<and> child1 (node s i) \<noteq> b2_nullNode \<longrightarrow>
        height (node s i) =
          1 + max (height (node s (child1 (node s i)))) (height (node s (child2 (node s i)))) \<and>
        aabb (node s i) =
          combine (aabb (node s (child1 (node s i)))) (aabb (node s (child2 (node s i)))))"

definition root_inv :: "b2DynamicTree \<Rightarrow> int set \<Rightarrow> bool" where
  "root_inv s D \<longleftrightarrow>
     (m_root s = b2_nullNode \<longrightarrow> (\<forall>i. \<not> attached s D i)) \<and>
     (m_root s \<noteq> b2_nullNode \<longrightarrow>
        attached s D (m_root s) \<and> parent (node s (m_root s)) = b2_nullNode)"

definition detached_inv :: "b2DynamicTree \<Rightarrow> int set \<Rightarrow> bool" where
  "detached_inv s D \<longleftrightarrow>
     (\<forall>i \<in> D. allocated s i \<and> child1 (node s i) = b2_nullNode \<and>
        child2 (node s i) = b2_nullNode \<and> height (node s i) = 0)"

definition tinv :: "b2DynamicTree \<Rightarrow> int set \<Rightarrow> int set \<Rightarrow> (int \<Rightarrow> real) \<Rightarrow> bool" where
  "tinv s D P r \<longleftrightarrow>
     pool_inv s \<and> links_inv s D \<and> rank_inv s D r \<and> exact_inv s D P \<and> root_inv s D \<and>
     detached_inv s D"

text \<open>Between two public calls nothing is detached and nothing is left to fix, and the
  height itself is a rank.\<close>

definition hrank :: "b2DynamicTree \<Rightarrow> int \<Rightarrow> real" where
  "hrank s i = real_of_int (height (node s i))"

definition tree_inv :: "b2DynamicTree \<Rightarrow> bool" where
  "tree_inv s \<longleftrightarrow> tinv s {} {} (hrank s)"

text \<open>\<open>anc_chain s i xs\<close>: the list \<open>xs\<close> is \<open>i\<close>, its parent, and so on up to a node whose
  parent is the sentinel.\<close>

fun anc_chain :: "b2DynamicTree \<Rightarrow> int \<Rightarrow> int list \<Rightarrow> bool" where
  "anc_chain s i [] \<longleftrightarrow> i = b2_nullNode"
| "anc_chain s i (x # xs) \<longleftrightarrow> i = x \<and> i \<noteq> b2_nullNode \<and> anc_chain s (parent (node s x)) xs"

text \<open>Two nodes that differ at most in \<open>userData\<close> and \<open>moved\<close>.\<close>

definition same_tree_fields :: "b2TreeNode \<Rightarrow> b2TreeNode \<Rightarrow> bool" where
  "same_tree_fields a b \<longleftrightarrow> parent a = parent b \<and> child1 a = child1 b \<and> child2 a = child2 b \<and>
     height a = height b \<and> aabb a = aabb b"

text \<open>
  In the middle of \<^verbatim>\<open>RebuildBottomUp\<close> the allocated nodes form several trees, whose roots
  are the entries of the array \<^verbatim>\<open>nodes\<close>: \<open>forest_inv s R\<close> for the set \<open>R\<close> of roots.
\<close>

definition forest_inv :: "b2DynamicTree \<Rightarrow> int set \<Rightarrow> bool" where
  "forest_inv s R \<longleftrightarrow>
     pool_inv s \<and>
     (\<forall>x \<in> R. allocated s x \<and> parent (node s x) = b2_nullNode) \<and>
     (\<forall>i. allocated s i \<longrightarrow>
        (i \<notin> R \<longrightarrow>
           allocated s (parent (node s i)) \<and>
           (child1 (node s (parent (node s i))) = i \<or> child2 (node s (parent (node s i))) = i)) \<and>
        (child1 (node s i) = b2_nullNode \<longrightarrow>
           child2 (node s i) = b2_nullNode \<and> height (node s i) = 0) \<and>
        (child1 (node s i) \<noteq> b2_nullNode \<longrightarrow>
           allocated s (child1 (node s i)) \<and> allocated s (child2 (node s i)) \<and>
           child1 (node s i) \<noteq> child2 (node s i) \<and>
           parent (node s (child1 (node s i))) = i \<and>
           parent (node s (child2 (node s i))) = i \<and>
           height (node s i) =
             1 + max (height (node s (child1 (node s i)))) (height (node s (child2 (node s i)))) \<and>
           aabb (node s i) =
             combine (aabb (node s (child1 (node s i)))) (aabb (node s (child2 (node s i))))))"

text \<open>The first loop of \<^verbatim>\<open>RebuildBottomUp\<close> after the slots below \<open>k\<close>, started in \<open>s0\<close>.\<close>

definition collect_inv :: "b2DynamicTree \<Rightarrow> int \<Rightarrow> b2DynamicTree \<Rightarrow> int list \<Rightarrow> bool" where
  "collect_inv s0 k s ns \<longleftrightarrow>
     pool_inv s \<and> m_nodeCapacity s = m_nodeCapacity s0 \<and> distinct ns \<and>
     (\<forall>j. in_range s0 j \<and> j < k \<longrightarrow> (allocated s j \<longleftrightarrow> j \<in> set ns)) \<and>
     (\<forall>j \<in> set ns. j < k \<and> in_range s0 j \<and> child1 (node s j) = b2_nullNode \<and>
        child2 (node s j) = b2_nullNode \<and> height (node s j) = 0 \<and>
        parent (node s j) = b2_nullNode) \<and>
     (\<forall>j. k \<le> j \<longrightarrow> in_range s0 j \<longrightarrow> node s j = node s0 j)"

text \<open>
  A handle is a live proxy when it is a slot of the pool that is a leaf and is not on the
  free list. The reachable states are those that the constructor and the public mutating
  operations produce, each called on live proxies where it takes a handle and having
  returned normally.
\<close>

definition is_proxy :: "b2DynamicTree \<Rightarrow> int \<Rightarrow> bool" where
  "is_proxy s h \<longleftrightarrow> in_range s h \<and> IsLeaf (node s h) \<and> height (node s h) \<noteq> -1"

inductive reachable :: "real \<Rightarrow> real \<Rightarrow> b2DynamicTree \<Rightarrow> bool" for ext mult where
  init: "reachable ext mult (b2DynamicTree_new raw)"
| create: "reachable ext mult s \<Longrightarrow> CreateProxy ext s aabb0 userData0 = Some (Inr (s1, h)) \<Longrightarrow>
     reachable ext mult s1"
| destroy: "reachable ext mult s \<Longrightarrow> is_proxy s h \<Longrightarrow> DestroyProxy s h = Some (Inr s1) \<Longrightarrow>
     reachable ext mult s1"
| move: "reachable ext mult s \<Longrightarrow> is_proxy s h \<Longrightarrow>
     MoveProxy ext mult s h aabb0 displacement = Some (Inr (s1, b)) \<Longrightarrow> reachable ext mult s1"
| clear: "reachable ext mult s \<Longrightarrow> ClearMoved s h = Inr s1 \<Longrightarrow> reachable ext mult s1"
| shift: "reachable ext mult s \<Longrightarrow> reachable ext mult (ShiftOrigin s newOrigin)"
| rebuild: "reachable ext mult s \<Longrightarrow> RebuildBottomUp maxFloat s = Inr s1 \<Longrightarrow>
     reachable ext mult s1"

text \<open>\<open>below s i h\<close>: the node \<open>i\<close> is \<open>h\<close> or an ancestor of \<open>h\<close> in the tree.\<close>

inductive below :: "b2DynamicTree \<Rightarrow> int \<Rightarrow> int \<Rightarrow> bool" for s i where
  self: "below s i i"
| up: "below s i (parent (node s h)) \<Longrightarrow> attached s {} h \<Longrightarrow> h \<noteq> m_root s \<Longrightarrow> below s i h"

text \<open>The leaves that \<^verbatim>\<open>Query\<close> reports below the node \<open>i\<close>, in the order of the calls; \<open>n\<close>
  bounds the depth. The stack gives \<open>child2\<close> before \<open>child1\<close>.\<close>

fun hits :: "b2DynamicTree \<Rightarrow> Rectf \<Rightarrow> nat \<Rightarrow> int \<Rightarrow> int list" where
  "hits s box 0 i = []"
| "hits s box (Suc n) i =
     (if i = b2_nullNode then []
      else if \<not> overlaps (aabb (node s i)) box then []
      else if IsLeaf (node s i) then [i]
      else hits s box n (child2 (node s i)) @ hits s box n (child1 (node s i)))"

text \<open>The state of a callback after the calls for the handles of a list.\<close>

definition feed :: "('c \<Rightarrow> int \<Rightarrow> bool \<times> 'c) \<Rightarrow> 'c \<Rightarrow> int list \<Rightarrow> 'c" where
  "feed cb c hs = foldl (\<lambda>c h. snd (cb c h)) c hs"

section \<open>The store\<close>

lemma node_upd [simp]: "node (upd s i f) j = (if j = i then f (node s i) else node s j)"
  by (simp add: node_def upd_def)

lemma upd_fields [simp]:
  "m_root (upd s i f) = m_root s"
  "m_nodeCount (upd s i f) = m_nodeCount s"
  "m_nodeCapacity (upd s i f) = m_nodeCapacity s"
  "m_freeList (upd s i f) = m_freeList s"
  "m_path (upd s i f) = m_path s"
  "m_insertionCount (upd s i f) = m_insertionCount s"
  by (simp_all add: upd_def)

lemma in_range_upd [simp]: "in_range (upd s i f) j = in_range s j"
  by (simp add: in_range_def)

lemma node_simps [simp]:
  "node (s\<lparr>m_root := r\<rparr>) i = node s i"
  "node (s\<lparr>m_nodeCount := c\<rparr>) i = node s i"
  "node (s\<lparr>m_nodeCapacity := k\<rparr>) i = node s i"
  "node (s\<lparr>m_freeList := fl\<rparr>) i = node s i"
  "node (s\<lparr>m_path := pa\<rparr>) i = node s i"
  "node (s\<lparr>m_insertionCount := ic\<rparr>) i = node s i"
  by (simp_all add: node_def)

lemma in_range_simps [simp]:
  "in_range (s\<lparr>m_root := r\<rparr>) i = in_range s i"
  "in_range (s\<lparr>m_nodeCount := c\<rparr>) i = in_range s i"
  "in_range (s\<lparr>m_freeList := fl\<rparr>) i = in_range s i"
  "in_range (s\<lparr>m_path := pa\<rparr>) i = in_range s i"
  "in_range (s\<lparr>m_insertionCount := ic\<rparr>) i = in_range s i"
  by (simp_all add: in_range_def)

lemma fold_link_node:
  "node (fold (\<lambda>i t. upd (upd t i (\<lambda>n. n\<lparr>parent := i + 1\<rparr>)) i (\<lambda>n. n\<lparr>height := -1\<rparr>)) [lo..hi] s) j
   = (if lo \<le> j \<and> j \<le> hi then (node s j)\<lparr>parent := j + 1, height := -1\<rparr> else node s j)"
proof (induction lo hi arbitrary: s rule: upto.induct)
  case (1 i j)
  show ?case
  proof (cases "i \<le> j")
    case True
    then have "[i..j] = i # [i + 1..j]" by (simp add: upto_rec1)
    with True 1 show ?thesis by auto
  next
    case False
    then show ?thesis by simp
  qed
qed

lemma fold_upd_fields:
  "m_root (fold (\<lambda>i t. upd (upd t i (f i)) i (g i)) xs s) = m_root s"
  "m_nodeCount (fold (\<lambda>i t. upd (upd t i (f i)) i (g i)) xs s) = m_nodeCount s"
  "m_nodeCapacity (fold (\<lambda>i t. upd (upd t i (f i)) i (g i)) xs s) = m_nodeCapacity s"
  "m_freeList (fold (\<lambda>i t. upd (upd t i (f i)) i (g i)) xs s) = m_freeList s"
  "m_path (fold (\<lambda>i t. upd (upd t i (f i)) i (g i)) xs s) = m_path s"
  "m_insertionCount (fold (\<lambda>i t. upd (upd t i (f i)) i (g i)) xs s) = m_insertionCount s"
  by (induction xs arbitrary: s; simp)+

lemma link_free_node:
  "lo \<le> hi \<Longrightarrow> node (link_free lo hi s) j =
     (if lo \<le> j \<and> j \<le> hi
      then (node s j)\<lparr>parent := (if j = hi then b2_nullNode else j + 1), height := -1\<rparr>
      else node s j)"
  by (auto simp: link_free_def Let_def fold_link_node)

lemma link_free_fields [simp]:
  "m_root (link_free lo hi s) = m_root s"
  "m_nodeCount (link_free lo hi s) = m_nodeCount s"
  "m_nodeCapacity (link_free lo hi s) = m_nodeCapacity s"
  "m_freeList (link_free lo hi s) = m_freeList s"
  "m_path (link_free lo hi s) = m_path s"
  "m_insertionCount (link_free lo hi s) = m_insertionCount s"
  by (simp_all add: link_free_def Let_def fold_upd_fields)

lemma new_node:
  "node (b2DynamicTree_new raw) j =
     (if 0 \<le> j \<and> j < 16
      then zero_node\<lparr>parent := (if j = 15 then b2_nullNode else j + 1), height := -1\<rparr>
      else raw j)"
  by (simp add: b2DynamicTree_new_def link_free_node) (simp add: node_def)

lemma new_fields [simp]:
  "m_root (b2DynamicTree_new raw) = b2_nullNode"
  "m_nodeCount (b2DynamicTree_new raw) = 0"
  "m_nodeCapacity (b2DynamicTree_new raw) = 16"
  "m_freeList (b2DynamicTree_new raw) = 0"
  "m_path (b2DynamicTree_new raw) = 0"
  "m_insertionCount (b2DynamicTree_new raw) = 0"
  by (simp_all add: b2DynamicTree_new_def)

lemma fold_shift_node:
  "node (fold (\<lambda>i t. upd t i (\<lambda>n. n\<lparr>aabb := move (aabb n) w\<rparr>)) [lo..hi] s) j
   = (if lo \<le> j \<and> j \<le> hi then (node s j)\<lparr>aabb := move (aabb (node s j)) w\<rparr> else node s j)"
proof (induction lo hi arbitrary: s rule: upto.induct)
  case (1 i k)
  show ?case
  proof (cases "i \<le> k")
    case True
    then have "[i..k] = i # [i + 1..k]" by (simp add: upto_rec1)
    with True 1 show ?thesis by auto
  next
    case False
    then show ?thesis by simp
  qed
qed

lemma fold_upd1_fields:
  "m_root (fold (\<lambda>i t. upd t i (f i)) xs s) = m_root s"
  "m_nodeCount (fold (\<lambda>i t. upd t i (f i)) xs s) = m_nodeCount s"
  "m_nodeCapacity (fold (\<lambda>i t. upd t i (f i)) xs s) = m_nodeCapacity s"
  "m_freeList (fold (\<lambda>i t. upd t i (f i)) xs s) = m_freeList s"
  "m_path (fold (\<lambda>i t. upd t i (f i)) xs s) = m_path s"
  "m_insertionCount (fold (\<lambda>i t. upd t i (f i)) xs s) = m_insertionCount s"
  by (induction xs arbitrary: s; simp)+

lemma ShiftOrigin_node:
  "node (ShiftOrigin s v) j =
     (if in_range s j then (node s j)\<lparr>aabb := move (aabb (node s j)) (vneg v)\<rparr> else node s j)"
  by (auto simp: ShiftOrigin_def fold_shift_node in_range_def)

lemma ShiftOrigin_fields [simp]:
  "m_root (ShiftOrigin s v) = m_root s"
  "m_nodeCount (ShiftOrigin s v) = m_nodeCount s"
  "m_nodeCapacity (ShiftOrigin s v) = m_nodeCapacity s"
  "m_freeList (ShiftOrigin s v) = m_freeList s"
  "m_path (ShiftOrigin s v) = m_path s"
  "m_insertionCount (ShiftOrigin s v) = m_insertionCount s"
  by (simp_all add: ShiftOrigin_def fold_upd1_fields)

lemma tree_eqI:
  assumes "m_root a = m_root b" "m_nodeCount a = m_nodeCount b" "m_nodeCapacity a = m_nodeCapacity b"
    "m_freeList a = m_freeList b" "m_path a = m_path b" "m_insertionCount a = m_insertionCount b"
    "\<And>i. node a i = node b i"
  shows "a = (b::b2DynamicTree)"
proof -
  have "m_nodes a = m_nodes b" using assms(7) by (auto simp: node_def)
  with assms show ?thesis by simp
qed

section \<open>Rounded addition\<close>

lemma nearest_even_bounds: "x - 1/2 \<le> of_int (nearest_even x)" "of_int (nearest_even x) \<le> x + 1/2"
  unfolding nearest_even_def Let_def by (auto; linarith)+

lemma nearest_even_of_int [simp]: "nearest_even (of_int n) = n"
  by (simp add: nearest_even_def)

lemma nearest_even_numeral [simp]: "nearest_even (numeral n) = numeral n" "nearest_even 0 = 0"
  using nearest_even_of_int [of "numeral n"] nearest_even_of_int [of 0] by simp_all

lemma nearest_even_mono:
  assumes "x \<le> y"
  shows "nearest_even x \<le> nearest_even y"
proof (rule ccontr)
  assume "\<not> nearest_even x \<le> nearest_even y"
  then have gt: "nearest_even y + 1 \<le> nearest_even x" by simp
  then have "real_of_int (nearest_even y) + 1 \<le> of_int (nearest_even x)" by linarith
  with nearest_even_bounds(2) [of x] nearest_even_bounds(1) [of y] assms
  have "x = y" by linarith
  with gt show False by simp
qed

lemma two_powr_24: "(2::real) powr (e + 1) = 16777216 * 2 powr (e - 23)"
proof -
  have a: "(2::real) powr 24 = 16777216" by simp
  have "(2::real) powr (e + 1) = 2 powr 24 * 2 powr (e - 23)"
    by (subst powr_add [symmetric]) (simp add: add.commute)
  then show ?thesis unfolding a .
qed

lemma two_powr_23: "(2::real) powr e = 8388608 * 2 powr (e - 23)"
proof -
  have a: "(2::real) powr 23 = 8388608" by simp
  have "(2::real) powr e = 2 powr 23 * 2 powr (e - 23)"
    by (subst powr_add [symmetric]) (simp add: add.commute)
  then show ?thesis unfolding a .
qed

lemma round32_pos:
  assumes "0 < x"
  shows "round32 x = of_int (nearest_even (x / 2 powr (of_int (max \<lfloor>log 2 x\<rfloor> (- 126)) - 23))) *
     2 powr (of_int (max \<lfloor>log 2 x\<rfloor> (- 126)) - 23)"
  using assms by (simp add: round32_def Let_def)

lemma round32_neg: "x < 0 \<Longrightarrow> round32 x = - round32 (- x)"
  by (simp add: round32_def Let_def)

lemma round32_pos_range:
  assumes x: "0 < x" and e: "e = max \<lfloor>log 2 x\<rfloor> (- 126)"
  shows "0 \<le> round32 x" "round32 x \<le> 2 powr (of_int e + 1)"
    "- 126 \<le> \<lfloor>log 2 x\<rfloor> \<Longrightarrow> 2 powr (of_int e) \<le> round32 x"
proof -
  define q :: real where "q = 2 powr (of_int e - 23)"
  have q: "0 < q" by (simp add: q_def)
  have r: "round32 x = of_int (nearest_even (x / q)) * q"
    using round32_pos [OF x] by (simp add: q_def e)
  have fl: "2 powr (of_int \<lfloor>log 2 x\<rfloor>) \<le> x" "x < 2 powr (of_int (\<lfloor>log 2 x\<rfloor> + 1))"
    using floor_log_eq_powr_iff [of x 2 "\<lfloor>log 2 x\<rfloor>"] x by simp_all
  have "\<lfloor>log 2 x\<rfloor> \<le> e" by (simp add: e)
  then have "(2::real) powr (of_int (\<lfloor>log 2 x\<rfloor> + 1)) \<le> 2 powr (of_int e + 1)"
    by (intro powr_mono) simp_all
  with fl(2) have "x < 2 powr (of_int e + 1)" by (rule less_le_trans)
  then have "x < 16777216 * q" by (simp add: two_powr_24 q_def)
  then have "x / q \<le> of_int 16777216" using q by (simp add: field_simps)
  from nearest_even_mono [OF this] have "nearest_even (x / q) \<le> 16777216" by simp
  then have "real_of_int (nearest_even (x / q)) \<le> 16777216" by linarith
  then have "of_int (nearest_even (x / q)) * q \<le> 16777216 * q"
    using q by (intro mult_right_mono) simp_all
  then show "round32 x \<le> 2 powr (of_int e + 1)" by (simp add: r two_powr_24 q_def)
  have "0 \<le> x / q" using x q by simp
  then have "of_int 0 \<le> x / q" by simp
  from nearest_even_mono [OF this] have "0 \<le> nearest_even (x / q)" by simp
  then show "0 \<le> round32 x" using q by (simp add: r)
  assume "- 126 \<le> \<lfloor>log 2 x\<rfloor>"
  then have "e = \<lfloor>log 2 x\<rfloor>" by (simp add: e)
  with fl(1) have "2 powr (of_int e) \<le> x" by simp
  then have "8388608 * q \<le> x" by (simp add: two_powr_23 [of "of_int e"] q_def)
  then have "of_int 8388608 \<le> x / q" using q by (simp add: field_simps)
  from nearest_even_mono [OF this] have "8388608 \<le> nearest_even (x / q)" by simp
  then have "8388608 \<le> real_of_int (nearest_even (x / q))" by linarith
  then have "8388608 * q \<le> of_int (nearest_even (x / q)) * q"
    using q by (intro mult_right_mono) simp_all
  then show "2 powr (of_int e) \<le> round32 x" by (simp add: r two_powr_23 [of "of_int e"] q_def)
qed

lemma round32_pos_mono:
  assumes x: "0 < x" and xy: "x \<le> y"
  shows "round32 x \<le> round32 y"
proof -
  define ex where "ex = max \<lfloor>log 2 x\<rfloor> (- 126)"
  define ey where "ey = max \<lfloor>log 2 y\<rfloor> (- 126)"
  have y: "0 < y" using x xy by simp
  have "log 2 x \<le> log 2 y" using x xy by (intro log_mono) simp_all
  then have fl: "\<lfloor>log 2 x\<rfloor> \<le> \<lfloor>log 2 y\<rfloor>" by (rule floor_mono)
  then have le: "ex \<le> ey" by (simp add: ex_def ey_def)
  show ?thesis
  proof (cases "ex = ey")
    case True
    define q :: real where "q = 2 powr (of_int ex - 23)"
    have q: "0 < q" by (simp add: q_def)
    have rx: "round32 x = of_int (nearest_even (x / q)) * q"
      using round32_pos [OF x] by (simp add: q_def ex_def)
    have ry: "round32 y = of_int (nearest_even (y / q)) * q"
      using round32_pos [OF y] True by (simp add: q_def ey_def)
    have "x / q \<le> y / q" using xy q by (simp add: divide_right_mono)
    from nearest_even_mono [OF this]
    have "real_of_int (nearest_even (x / q)) \<le> of_int (nearest_even (y / q))" by linarith
    then show ?thesis unfolding rx ry using q by (intro mult_right_mono) simp_all
  next
    case False
    with le have lt: "ex + 1 \<le> ey" by simp
    then have "- 126 < ey" by (simp add: ex_def)
    then have n: "- 126 \<le> \<lfloor>log 2 y\<rfloor>" unfolding ey_def by linarith
    have "round32 x \<le> 2 powr (of_int ex + 1)" by (rule round32_pos_range(2) [OF x ex_def])
    also have "\<dots> \<le> 2 powr (of_int ey)" using lt by (intro powr_mono) simp_all
    also have "\<dots> \<le> round32 y" by (rule round32_pos_range(3) [OF y ey_def n])
    finally show ?thesis .
  qed
qed

lemma round32_mono: "x \<le> y \<Longrightarrow> round32 x \<le> round32 y"
proof -
  assume xy: "x \<le> y"
  have z: "round32 0 = 0" by (simp add: round32_def)
  have pos: "0 \<le> round32 a" if "0 < a" for a using round32_pos_range(1) [OF that refl] .
  consider "0 < x" | "x = 0" "y = 0" | "x = 0" "0 < y" | "x < 0" "0 \<le> y" | "x < 0" "y < 0"
    using xy by linarith
  then show ?thesis
  proof cases
    case 1
    then show ?thesis using xy by (rule round32_pos_mono)
  next
    case 2
    then show ?thesis by simp
  next
    case 3
    then show ?thesis using pos [of y] by (simp add: z)
  next
    case 4
    have "round32 x \<le> 0" using pos [of "- x"] 4(1) by (simp add: round32_neg)
    moreover have "0 \<le> round32 y" using pos [of y] 4(2) z by (cases "y = 0") auto
    ultimately show ?thesis by simp
  next
    case 5
    have "round32 (- y) \<le> round32 (- x)" using 5 xy by (intro round32_pos_mono) simp_all
    then show ?thesis using 5 by (simp add: round32_neg)
  qed
qed

lemma fadd_mono: "x \<le> y \<Longrightarrow> fadd x d \<le> fadd y d"
  by (simp add: fadd_def round32_mono)

lemma fadd_min: "fadd (min a b) d = min (fadd a d) (fadd b d)"
  by (rule min_of_mono [symmetric]) (simp add: mono_def fadd_mono)

lemma fadd_max: "fadd (max a b) d = max (fadd a d) (fadd b d)"
  by (rule max_of_mono [symmetric]) (simp add: mono_def fadd_mono)

lemma move_combine: "move (combine a b) v = combine (move a v) (move b v)"
  by (simp add: move_def combine_def fadd_min fadd_max)




section \<open>Moving a proxy a little\<close>

text \<open>
  Claim C5. For a leaf handle inside the pool: if the box stored on the node contains the
  new tight box, and the new fat box (extended by the predicted motion) grown by
  \<open>4 * ext\<close> contains the stored box, then \<^verbatim>\<open>MoveProxy\<close> returns \<open>false\<close> and the tree it
  leaves is the tree it was given, identical in every member and every node.
\<close>

theorem MoveProxy_small_motion:
  assumes "0 \<le> proxyId" and "proxyId < m_nodeCapacity s" and "IsLeaf (node s proxyId)"
    and "contains (aabb (node s proxyId)) tight"
    and "contains (grown (predicted_fatAABB ext mult tight displacement) (4 * ext))
           (aabb (node s proxyId))"
  shows "MoveProxy ext mult s proxyId tight displacement = Some (Inr (s, False))"
  using assms by (simp add: MoveProxy_def Let_def)

text \<open>The scenario S4 of the specification: a proxy created at \<open>[(0,0),(1,1)]\<close> with
  extension \<open>0.1\<close> is moved to \<open>[(0.05,0.05),(1.05,1.05)]\<close> with displacement
  \<open>(0.05,0.05)\<close>.\<close>

theorem MoveProxy_small_motion_witness:
  "\<exists>s. CreateProxy (1/10) (b2DynamicTree_new (\<lambda>i. zero_node))
          \<lparr>get_left = 0, get_top = 0, get_right = 1, get_bottom = 1\<rparr> 0 = Some (Inr (s, 0)) \<and>
       MoveProxy (1/10) 2 s 0
          \<lparr>get_left = 1/20, get_top = 1/20, get_right = 21/20, get_bottom = 21/20\<rparr>
          \<lparr>vx = 1/20, vy = 1/20\<rparr> = Some (Inr (s, False))"
proof -
  let ?t = "\<lparr>get_left = 1/20, get_top = 1/20, get_right = 21/20, get_bottom = 21/20\<rparr>"
  let ?d = "\<lparr>vx = 1/20, vy = 1/20\<rparr>"
  have "\<exists>s. CreateProxy (1/10) (b2DynamicTree_new (\<lambda>i. zero_node))
          \<lparr>get_left = 0, get_top = 0, get_right = 1, get_bottom = 1\<rparr> 0 = Some (Inr (s, 0)) \<and>
        0 < m_nodeCapacity s \<and> IsLeaf (node s 0) \<and> contains (aabb (node s 0)) ?t \<and>
        contains (grown (predicted_fatAABB (1/10) 2 ?t ?d) (4 * (1/10))) (aabb (node s 0))"
    by (simp add: CreateProxy_def AllocateNode_def peel_node_def grow_pool_def InsertLeaf_def in_range_def new_node Let_def
        IsLeaf_def b2_nullNode_def contains_def grown_def predicted_fatAABB_def vscale_def)
  then obtain s where s: "CreateProxy (1/10) (b2DynamicTree_new (\<lambda>i. zero_node))
          \<lparr>get_left = 0, get_top = 0, get_right = 1, get_bottom = 1\<rparr> 0 = Some (Inr (s, 0))"
     and h: "0 < m_nodeCapacity s" "IsLeaf (node s 0)" "contains (aabb (node s 0)) ?t"
        "contains (grown (predicted_fatAABB (1/10) 2 ?t ?d) (4 * (1/10))) (aabb (node s 0))"
    by blast
  from MoveProxy_small_motion [OF _ h] s show ?thesis by auto
qed

section \<open>Evaluating the example trees\<close>

lemma tree0_node: "node tree0 j = (if 0 \<le> j \<and> j < 16
      then zero_node\<lparr>parent := (if j = 15 then -1 else j + 1), height := -1\<rparr>
      else zero_node)"
  by (simp add: tree0_def new_node b2_nullNode_def)

lemma tree0_fields:
  "m_root tree0 = -1"
  "m_nodeCount tree0 = 0"
  "m_nodeCapacity tree0 = 16"
  "m_freeList tree0 = 0"
  "m_path tree0 = 0"
  "m_insertionCount tree0 = 0"
  by (simp_all add: tree0_def b2_nullNode_def)

lemmas evals = CreateProxy_def AllocateNode_def peel_node_def grow_pool_def InsertLeaf_def splice_leaf_def insert_fix_def Balance_def
  rotate_B_up_def rotate_C_up_def swap_up_def rotate_C_children_def rotate_B_children_def find_sibling.simps walk_up.simps descend_step_def descent_cost_def
  inheritance_cost_def child_cost_def IsLeaf_def b2_nullNode_def in_range_def
  combine_def get_perimeter_def grown_def rect_def tree0_node tree0_fields zero_node_def Let_def

lemma tie_tree_facts:
  "m_root tie_tree = 2" "m_nodeCapacity tie_tree = 16"
  "node tie_tree 2 = \<lparr>aabb = rect (-1/10) (-1/10) (31/10) (11/10), userData = 0, parent = -1,
      child1 = 0, child2 = 1, height = 1, moved = False\<rparr>"
  "node tie_tree 0 = \<lparr>aabb = rect (-1/10) (-1/10) (11/10) (11/10), userData = 0, parent = 2,
      child1 = -1, child2 = -1, height = 0, moved = True\<rparr>"
  "node tie_tree 1 = \<lparr>aabb = rect (19/10) (-1/10) (31/10) (11/10), userData = 0, parent = 2,
      child1 = -1, child2 = -1, height = 0, moved = True\<rparr>"
  by (simp_all add: tie_tree_def created_def evals)

section \<open>Shifting the origin\<close>

lemma one_proxy_facts:
  "node (one_proxy ext) j =
     (if j = 0 then \<lparr>aabb = rect (- ext) (- ext) (1 + ext) (1 + ext), userData = 0, parent = -1,
        child1 = -1, child2 = -1, height = 0, moved = True\<rparr>
      else node tree0 j)"
  "m_nodeCapacity (one_proxy ext) = 16" "m_root (one_proxy ext) = 0"
  by (simp_all add: one_proxy_def evals)





section \<open>The sibling search\<close>

text \<open>
  Claim C3, as the code has it. At an internal candidate \<open>index\<close> whose children are in the
  pool, the search stops and inserts at \<open>index\<close> exactly when \<open>cost < cost1\<close> and
  \<open>cost < cost2\<close>; otherwise it goes on in \<open>child1\<close> when \<open>cost1 < cost2\<close> and in \<open>child2\<close>
  when \<open>cost2 \<le> cost1\<close>: a tie goes to \<open>child2\<close>.
\<close>

theorem find_sibling_step:
  assumes "in_range s index" and "\<not> IsLeaf (node s index)"
    and "in_range s (child1 (node s index))" and "in_range s (child2 (node s index))"
  shows "find_sibling s leafAABB index =
     (if descent_cost s leafAABB index
           < child_cost s leafAABB (inheritance_cost s leafAABB index) (child1 (node s index)) \<and>
         descent_cost s leafAABB index
           < child_cost s leafAABB (inheritance_cost s leafAABB index) (child2 (node s index))
      then Some (Inr index)
      else if child_cost s leafAABB (inheritance_cost s leafAABB index) (child1 (node s index))
               < child_cost s leafAABB (inheritance_cost s leafAABB index) (child2 (node s index))
        then find_sibling s leafAABB (child1 (node s index))
        else find_sibling s leafAABB (child2 (node s index)))"
  using assms by (subst find_sibling.simps) (simp add: descend_step_def Let_def)

theorem find_sibling_step_witness:
  "in_range tie_tree 2 \<and> \<not> IsLeaf (node tie_tree 2) \<and>
   find_sibling tie_tree tie_leaf 2 = find_sibling tie_tree tie_leaf 1"
  using find_sibling_step [of tie_tree 2 tie_leaf]
  by (simp add: tie_tree_facts descent_cost_def
      inheritance_cost_def child_cost_def IsLeaf_def b2_nullNode_def in_range_def
      combine_def get_perimeter_def grown_def rect_def tie_leaf_def Let_def)

text \<open>The claim C3 as stated sends a tie to \<open>child1\<close>. In the tree of two proxies
  \<open>[(0,0),(1,1)]\<close> and \<open>[(2,0),(3,1)]\<close>, the root has \<open>child1 = 0\<close> and \<open>child2 = 1\<close>; for the
  box of a proxy at \<open>[(1,5),(2,6)]\<close> both children cost the same, and the search goes to
  node 1, which is \<open>child2\<close>.\<close>

theorem find_sibling_tie_counterexample:
  "child1 (node tie_tree (m_root tie_tree)) = 0 \<and> child2 (node tie_tree (m_root tie_tree)) = 1 \<and>
   child_cost tie_tree tie_leaf (inheritance_cost tie_tree tie_leaf (m_root tie_tree)) 0 =
   child_cost tie_tree tie_leaf (inheritance_cost tie_tree tie_leaf (m_root tie_tree)) 1 \<and>
   descend_step tie_tree tie_leaf (m_root tie_tree) = Descend 1 \<and>
   find_sibling tie_tree tie_leaf (m_root tie_tree) = Some (Inr 1)"
  by (simp add: tie_tree_facts find_sibling.simps descend_step_def descent_cost_def
      inheritance_cost_def child_cost_def IsLeaf_def b2_nullNode_def in_range_def
      combine_def get_perimeter_def grown_def rect_def tie_leaf_def Let_def)

section \<open>The walks and their callbacks\<close>

lemma run_loop_invariant:
  fixes body :: "'l \<Rightarrow> ('l, 'c) iteration"
  assumes run: "run_loop body l = Some r"
    and init: "I l"
    and step: "\<And>l l1. I l \<Longrightarrow> body l = Continue l1 \<Longrightarrow> I l1"
  shows "\<exists>l1. I l1 \<and> (case r of Inr c \<Rightarrow> body l1 = Return c | Inl e \<Rightarrow> body l1 = Fail e)"
proof -
  let ?Q = "\<lambda>r. \<exists>l1. I l1 \<and> (case r of Inr c \<Rightarrow> body l1 = Return c | Inl e \<Rightarrow> body l1 = Fail e)"
  have "body = body \<longrightarrow> I l \<longrightarrow> ?Q r"
  proof (rule run_loop.raw_induct [where P = "\<lambda>b l r. b = body \<longrightarrow> I l \<longrightarrow> ?Q r", OF _ run])
    fix rl :: "('l \<Rightarrow> ('l, 'c) iteration) \<Rightarrow> 'l \<Rightarrow> (error + 'c) option"
    fix b l r
    assume IH: "\<And>b l r. rl b l = Some r \<Longrightarrow> b = body \<longrightarrow> I l \<longrightarrow> ?Q r"
      and eq: "(case b l of Continue l1 \<Rightarrow> rl b l1 | Return c \<Rightarrow> Some (Inr c)
                | Fail e \<Rightarrow> Some (Inl e)) = Some r"
    show "b = body \<longrightarrow> I l \<longrightarrow> ?Q r"
    proof (intro impI)
      assume b: "b = body" and I: "I l"
      show "?Q r"
      proof (cases "body l")
        case (Continue l1)
        with eq b have "rl body l1 = Some r" by simp
        moreover have "I l1" using step [OF I Continue] .
        ultimately show ?thesis using IH by blast
      next
        case (Return c)
        with eq b have "r = Inr c" by simp
        with Return I show ?thesis by auto
      next
        case (Fail e)
        with eq b have "r = Inl e" by simp
        with Fail I show ?thesis by auto
      qed
    qed
  qed
  with init show ?thesis by blast
qed

lemma list_all_butlastI: "list_all P xs \<Longrightarrow> list_all P (butlast xs)"
  by (induction xs) auto

lemma Query_stop_is_last:
  assumes "Query (traced_query cb) (c0, []) s q = Some (Inr (c, tr))"
  shows "list_all snd (butlast tr)"
proof -
  let ?I = "\<lambda>l :: int list \<times> 'a \<times> (int \<times> bool) list. list_all snd (snd (snd l))"
  have "\<exists>l1. ?I l1 \<and> (case Inr (c, tr) of Inr c \<Rightarrow> Query_body (traced_query cb) s q l1 = Return c
            | Inl e \<Rightarrow> Query_body (traced_query cb) s q l1 = Fail e)"
    by (rule run_loop_invariant [OF assms [unfolded Query_def], where I = ?I])
       (auto simp: Query_body_def traced_query_def Let_def split: if_splits prod.splits)
  then obtain l1 where "?I l1" "Query_body (traced_query cb) s q l1 = Return (c, tr)" by auto
  then show ?thesis
    by (auto simp: Query_body_def traced_query_def Let_def split: if_splits prod.splits
             intro: list_all_butlastI)
qed


lemma RayCast_leaf_Continue:
  assumes "RayCast_leaf cb input l0 n = Continue l1"
  shows "\<exists>w. cb (rl_callback l0) \<lparr>p1 = p1 input, p2 = p2 input, maxFraction = rl_maxFraction l0\<rparr> n
                  = (w, rl_callback l1) \<and> w \<noteq> 0 \<and>
         rl_stack l1 = rl_stack l0 \<and>
         rl_maxFraction l1 = (if w > 0 then w else rl_maxFraction l0) \<and>
         rl_segmentAABB l1 = (if w > 0 then segment_box (p1 input) (p2 input) w
                              else rl_segmentAABB l0)"
proof -
  obtain w c1 where cb: "cb (rl_callback l0) \<lparr>p1 = p1 input, p2 = p2 input, maxFraction = rl_maxFraction l0\<rparr> n = (w, c1)"
    by (cases "cb (rl_callback l0) \<lparr>p1 = p1 input, p2 = p2 input, maxFraction = rl_maxFraction l0\<rparr> n")
  with assms show ?thesis
    by (cases "w = 0"; cases "w > 0") (auto simp: RayCast_leaf_def)
qed

lemma RayCast_leaf_Return:
  assumes "RayCast_leaf cb input l0 n = Return c"
  shows "cb (rl_callback l0) \<lparr>p1 = p1 input, p2 = p2 input, maxFraction = rl_maxFraction l0\<rparr> n = (0, c)"
proof -
  obtain w c1 where cb: "cb (rl_callback l0) \<lparr>p1 = p1 input, p2 = p2 input, maxFraction = rl_maxFraction l0\<rparr> n = (w, c1)"
    by (cases "cb (rl_callback l0) \<lparr>p1 = p1 input, p2 = p2 input, maxFraction = rl_maxFraction l0\<rparr> n")
  with assms show ?thesis
    by (cases "w = 0"; cases "w > 0") (auto simp: RayCast_leaf_def)
qed

lemma RayCast_leaf_not_Fail: "RayCast_leaf cb input l0 n \<noteq> Fail e"
  by (simp add: RayCast_leaf_def Let_def split: prod.splits)

lemma RayCast_body_unfold:
  "RayCast_body cb s input v abs_v l = r \<Longrightarrow>
     (rl_stack l = [] \<and> r = Return (rl_callback l)) \<or>
     (rl_stack l \<noteq> [] \<and> r = Fail OutOfBounds) \<or>
     (rl_stack l \<noteq> [] \<and> r = Continue (l\<lparr>rl_stack := butlast (rl_stack l)\<rparr>)) \<or>
     (rl_stack l \<noteq> [] \<and> r = RayCast_leaf cb input (l\<lparr>rl_stack := butlast (rl_stack l)\<rparr>) (last (rl_stack l))) \<or>
     (rl_stack l \<noteq> [] \<and> r = Continue (l\<lparr>rl_stack := butlast (rl_stack l) @
                [child1 (node s (last (rl_stack l))), child2 (node s (last (rl_stack l)))]\<rparr>))"
  unfolding RayCast_body_def Let_def by (simp split: if_splits)

lemma RayCast_body_Continue:
  assumes "RayCast_body cb s input v abs_v l = Continue l1"
  shows "rl_stack l \<noteq> [] \<and>
     ((rl_callback l1 = rl_callback l \<and> rl_maxFraction l1 = rl_maxFraction l \<and>
       rl_segmentAABB l1 = rl_segmentAABB l) \<or>
      (\<exists>w. cb (rl_callback l)
                  \<lparr>p1 = p1 input, p2 = p2 input, maxFraction = rl_maxFraction l\<rparr>
                  (last (rl_stack l)) = (w, rl_callback l1) \<and> w \<noteq> 0 \<and>
         rl_stack l1 = butlast (rl_stack l) \<and>
         rl_maxFraction l1 = (if w > 0 then w else rl_maxFraction l) \<and>
         rl_segmentAABB l1 = (if w > 0 then segment_box (p1 input) (p2 input) w
                              else rl_segmentAABB l)))"
  using RayCast_body_unfold [OF assms]
proof (elim disjE conjE)
  assume "rl_stack l \<noteq> []"
    and "Continue l1 = RayCast_leaf cb input (l\<lparr>rl_stack := butlast (rl_stack l)\<rparr>) (last (rl_stack l))"
  then show ?thesis
    using RayCast_leaf_Continue [of cb input "l\<lparr>rl_stack := butlast (rl_stack l)\<rparr>" "last (rl_stack l)" l1]
    by (simp cong: if_cong)
qed auto

lemma RayCast_body_Return:
  assumes "RayCast_body cb s input v abs_v l = Return c"
  shows "(rl_stack l = [] \<and> c = rl_callback l) \<or>
     (rl_stack l \<noteq> [] \<and>
      cb (rl_callback l) \<lparr>p1 = p1 input, p2 = p2 input, maxFraction = rl_maxFraction l\<rparr>
        (last (rl_stack l)) = (0, c))"
  using RayCast_body_unfold [OF assms]
proof (elim disjE conjE)
  assume "rl_stack l \<noteq> []"
    and "Return c = RayCast_leaf cb input (l\<lparr>rl_stack := butlast (rl_stack l)\<rparr>) (last (rl_stack l))"
  then show ?thesis
    using RayCast_leaf_Return [of cb input "l\<lparr>rl_stack := butlast (rl_stack l)\<rparr>" "last (rl_stack l)" c]
    by simp
qed auto

lemma traced_ray_eq:
  "traced_ray cb ct i h = (value, ct1) \<longleftrightarrow>
     fst (cb (fst ct) i h) = value \<and> fst ct1 = snd (cb (fst ct) i h) \<and>
     snd ct1 = snd ct @ [(maxFraction i, h, value)]"
  by (cases ct1) (auto simp: traced_ray_def split: prod.splits)

lemma RayCast_run:
  assumes "RayCast cb c0 s input = Some r"
  shows "r = Inl AssertionFailed \<or>
     run_loop (RayCast_body cb s input
                 (b2Cross 1 (Normalize (vminus (p2 input) (p1 input))))
                 (b2AbsV (b2Cross 1 (Normalize (vminus (p2 input) (p1 input))))))
       \<lparr>rl_stack = [m_root s], rl_maxFraction = maxFraction input,
        rl_segmentAABB = segment_box (p1 input) (p2 input) (maxFraction input),
        rl_callback = c0\<rparr> = Some r"
  using assms by (auto simp: RayCast_def Let_def split: if_splits)



lemma RayCast_zero_is_last:
  assumes "RayCast (traced_ray cb) (c0, []) s input = Some (Inr (c, tr))"
  shows "list_all (\<lambda>e. snd (snd e) \<noteq> 0) (butlast tr)"
proof -
  let ?I = "\<lambda>l :: ('a \<times> (real \<times> int \<times> real) list) ray_loop.
              list_all (\<lambda>e. snd (snd e) \<noteq> 0) (snd (rl_callback l))"
  let ?body = "RayCast_body (traced_ray cb) s input
                 (b2Cross 1 (Normalize (vminus (p2 input) (p1 input))))
                 (b2AbsV (b2Cross 1 (Normalize (vminus (p2 input) (p1 input)))))"
  from RayCast_run [OF assms] have run: "run_loop ?body
       \<lparr>rl_stack = [m_root s], rl_maxFraction = maxFraction input,
        rl_segmentAABB = segment_box (p1 input) (p2 input) (maxFraction input),
        rl_callback = (c0, [])\<rparr> = Some (Inr (c, tr))"
    by simp
  have step: "?I l1" if "?I l" "?body l = Continue l1" for l l1
    using RayCast_body_Continue [OF that(2)] that(1) by (auto simp: traced_ray_eq)
  have "\<exists>l1. ?I l1 \<and> (case Inr (c, tr) of Inr c \<Rightarrow> ?body l1 = Return c | Inl e \<Rightarrow> ?body l1 = Fail e)"
  proof (rule run_loop_invariant [OF run, where I = ?I])
    show "?I \<lparr>rl_stack = [m_root s], rl_maxFraction = maxFraction input,
        rl_segmentAABB = segment_box (p1 input) (p2 input) (maxFraction input),
        rl_callback = (c0, [])\<rparr>" by simp
  qed (rule step)
  then obtain l1 where l1: "?I l1" "?body l1 = Return (c, tr)" by auto
  from RayCast_body_Return [OF l1(2)] show ?thesis
  proof
    assume "rl_stack l1 = [] \<and> (c, tr) = rl_callback l1"
    then have "tr = snd (rl_callback l1)" by (metis snd_conv)
    with l1(1) show ?thesis by (simp add: list_all_butlastI)
  next
    assume "rl_stack l1 \<noteq> [] \<and>
      traced_ray cb (rl_callback l1) \<lparr>p1 = p1 input, p2 = p2 input, maxFraction = rl_maxFraction l1\<rparr>
        (last (rl_stack l1)) = (0, c, tr)"
    then have "butlast tr = snd (rl_callback l1)" by (simp add: traced_ray_eq)
    with l1(1) show ?thesis by simp
  qed
qed

lemma RayCast_negative_keeps_ray:
  assumes cb: "iteration_callback (RayCast_body (traced_ray cb) s input v abs_v l)
             = Some (c1, snd (rl_callback l) @ [(f, h, value)])"
    and neg: "value < 0"
  shows "\<exists>l1. RayCast_body (traced_ray cb) s input v abs_v l = Continue l1 \<and>
           rl_stack l1 = butlast (rl_stack l) \<and>
           rl_maxFraction l1 = rl_maxFraction l \<and> rl_segmentAABB l1 = rl_segmentAABB l"
proof (cases "RayCast_body (traced_ray cb) s input v abs_v l")
  case (Continue l1)
  with cb have c: "rl_callback l1 = (c1, snd (rl_callback l) @ [(f, h, value)])"
    by (simp add: iteration_callback_def)
  then have "rl_callback l1 \<noteq> rl_callback l" by (metis append_self_conv not_Cons_self2 snd_conv)
  with RayCast_body_Continue [OF Continue] c neg Continue show ?thesis
    by (auto simp: traced_ray_eq)
next
  case (Return c)
  with cb have c: "c = (c1, snd (rl_callback l) @ [(f, h, value)])"
    by (simp add: iteration_callback_def)
  then have "c \<noteq> rl_callback l" by (metis append_self_conv not_Cons_self2 snd_conv)
  with RayCast_body_Return [OF Return] c neg show ?thesis
    by (auto simp: traced_ray_eq)
next
  case (Fail e)
  with cb show ?thesis by (simp add: iteration_callback_def)
qed


lemma sqrt_16: "sqrt 16 = 4"
  by (rule real_sqrt_unique) simp_all

lemmas ray_evals = RayCast_def run_loop.simps RayCast_body_def RayCast_leaf_def traced_ray_def
  tie_tree_facts ray_in_def vminus_def vplus_def vscale_def LengthSquared_def Normalize_def
  b2Cross_def b2AbsV_def b2Dot_def segment_box_def point_rect_def combine_def overlaps_def
  get_middle_def get_extents_def IsLeaf_def b2_nullNode_def in_range_def rect_def sqrt_16 Let_def

text \<open>
  Claim C7. With the calls recorded: in a \<^verbatim>\<open>Query\<close> that returns, every call but the last
  returned "continue", so a call that returns "stop" is the last one; in a \<^verbatim>\<open>RayCast\<close>
  that returns, every call but the last returned a value other than 0, so a call that
  returns 0 is the last one; and a pass of the body of \<^verbatim>\<open>RayCast\<close> in which the callback
  was called (the record grew by one call) and returned a negative value goes on with
  the loop, the stack popped, \<^verbatim>\<open>maxFraction\<close> and \<^verbatim>\<open>segmentAABB\<close> as they were.
\<close>

theorem callback_sentinels:
  "(Query (traced_query qcb) (q0, []) s box = Some (Inr (qc, qtr)) \<longrightarrow>
      list_all snd (butlast qtr)) \<and>
   (RayCast (traced_ray rcb) (r0, []) s input = Some (Inr (rc, rtr)) \<longrightarrow>
      list_all (\<lambda>e. snd (snd e) \<noteq> 0) (butlast rtr)) \<and>
   (iteration_callback (RayCast_body (traced_ray rcb) s input v abs_v l)
        = Some (c1, snd (rl_callback l) @ [(f, h, w)]) \<and> w < 0 \<longrightarrow>
      (\<exists>l1. RayCast_body (traced_ray rcb) s input v abs_v l = Continue l1 \<and>
         rl_stack l1 = butlast (rl_stack l) \<and>
         rl_maxFraction l1 = rl_maxFraction l \<and> rl_segmentAABB l1 = rl_segmentAABB l))"
  using Query_stop_is_last [of qcb q0 s box qc qtr]
    RayCast_zero_is_last [of rcb r0 s input rc rtr]
    RayCast_negative_keeps_ray [of rcb s input v abs_v l c1 f h w]
  by blast

text \<open>On the tree of two proxies: a query callback that stops at once is called for one of
  the two overlapping leaves only; a ray callback that returns 0 likewise; and a ray
  callback that returns \<open>-1\<close> on the leaf 1 leaves the ray as it was.\<close>

theorem callback_sentinels_witness:
  "Query (traced_query (\<lambda>c h. (False, c))) ((), []) tie_tree (rect 0 0 3 1)
     = Some (Inr ((), [(1, False)])) \<and>
   list_all snd (butlast [(1::int, False)]) \<and>
   RayCast (traced_ray (\<lambda>c i h. (0, c))) ((), []) tie_tree ray_in
     = Some (Inr ((), [(1, 1, 0)])) \<and>
   list_all (\<lambda>e. snd (snd e) \<noteq> 0) (butlast [(1::real, 1::int, 0::real)]) \<and>
   (\<exists>l1. RayCast_body (traced_ray (\<lambda>c i h. (- 1, c))) tie_tree ray_in
            \<lparr>vx = 0, vy = 1\<rparr> \<lparr>vx = 0, vy = 1\<rparr> ray_loop1 = Continue l1 \<and>
         rl_stack l1 = butlast (rl_stack ray_loop1) \<and>
         rl_maxFraction l1 = rl_maxFraction ray_loop1 \<and>
         rl_segmentAABB l1 = rl_segmentAABB ray_loop1)"
proof -
  have q: "Query (traced_query (\<lambda>c h. (False, c))) ((), []) tie_tree (rect 0 0 3 1)
     = Some (Inr ((), [(1, False)]))"
    by (simp add: Query_def run_loop.simps Query_body_def traced_query_def tie_tree_facts
        overlaps_def IsLeaf_def b2_nullNode_def in_range_def rect_def Let_def)
  have r: "RayCast (traced_ray (\<lambda>c i h. (0, c))) ((), []) tie_tree ray_in
     = Some (Inr ((), [(1, 1, 0)]))"
    by (simp add: ray_evals)
  have b: "iteration_callback (RayCast_body (traced_ray (\<lambda>c i h. (- 1, c))) tie_tree ray_in
            \<lparr>vx = 0, vy = 1\<rparr> \<lparr>vx = 0, vy = 1\<rparr> ray_loop1)
        = Some ((), snd (rl_callback ray_loop1) @ [(1, 1, - 1)]) \<and> (- 1 :: real) < 0"
    by (simp add: iteration_callback_def ray_loop1_def ray_evals)
  note T = callback_sentinels [where qcb = "\<lambda>c h. (False, c)" and ?q0.0 = "()" and s = tie_tree
      and box = "rect 0 0 3 1" and qc = "()" and qtr = "[(1, False)]"
      and rcb = "\<lambda>c i h. (0, c)" and ?r0.0 = "()" and input = ray_in and rc = "()"
      and rtr = "[(1, 1, 0)]"]
  note U = callback_sentinels [where rcb = "\<lambda>c i h. (- 1, c)" and s = tie_tree and input = ray_in
      and v = "\<lparr>vx = 0, vy = 1\<rparr>" and abs_v = "\<lparr>vx = 0, vy = 1\<rparr>" and l = ray_loop1
      and ?c1.0 = "()" and f = 1 and h = 1 and w = "- 1"]
  from T [THEN conjunct1, THEN mp, OF q]
  have 1: "list_all snd (butlast [(1::int, False)])" .
  from T [THEN conjunct2, THEN conjunct1, THEN mp, OF r]
  have 2: "list_all (\<lambda>e. snd (snd e) \<noteq> 0) (butlast [(1::real, 1::int, 0::real)])" .
  from U [THEN conjunct2, THEN conjunct2, THEN mp, OF b] have 3: "\<exists>l1. RayCast_body (traced_ray (\<lambda>c i h. (- 1, c))) tie_tree ray_in
            \<lparr>vx = 0, vy = 1\<rparr> \<lparr>vx = 0, vy = 1\<rparr> ray_loop1 = Continue l1 \<and>
         rl_stack l1 = butlast (rl_stack ray_loop1) \<and>
         rl_maxFraction l1 = rl_maxFraction ray_loop1 \<and>
         rl_segmentAABB l1 = rl_segmentAABB ray_loop1" .
  from q r 1 2 3 show ?thesis by blast
qed

text \<open>
  Claim C4, as the code has it. \<^verbatim>\<open>RayCast\<close> assigns to \<^verbatim>\<open>maxFraction\<close> whatever positive
  value the callback returns. In a \<^verbatim>\<open>RayCast\<close> that returns and in which no call of the
  callback has returned more than the \<^verbatim>\<open>maxFraction\<close> of the input it was given, the values
  of \<^verbatim>\<open>maxFraction\<close> passed to the successive calls are non-increasing. An entry of the
  recorded list is the \<^verbatim>\<open>maxFraction\<close> passed, the handle, and the value returned.
\<close>

theorem RayCast_fractions_decrease:
  assumes "RayCast (traced_ray cb) (c0, []) s input = Some (Inr (c, tr))"
    and bound: "\<forall>e \<in> set tr. snd (snd e) \<le> fst e"
  shows "sorted_wrt (\<ge>) (map fst tr)"
proof -
  let ?J = "\<lambda>l :: ('a \<times> (real \<times> int \<times> real) list) ray_loop.
              sorted_wrt (\<ge>) (map fst (snd (rl_callback l))) \<and>
              (\<forall>e \<in> set (snd (rl_callback l)). rl_maxFraction l \<le> fst e)"
  let ?I = "\<lambda>l :: ('a \<times> (real \<times> int \<times> real) list) ray_loop.
              (\<forall>e \<in> set (snd (rl_callback l)). snd (snd e) \<le> fst e) \<longrightarrow> ?J l"
  let ?body = "RayCast_body (traced_ray cb) s input
                 (b2Cross 1 (Normalize (vminus (p2 input) (p1 input))))
                 (b2AbsV (b2Cross 1 (Normalize (vminus (p2 input) (p1 input)))))"
  from RayCast_run [OF assms(1)] have run: "run_loop ?body
       \<lparr>rl_stack = [m_root s], rl_maxFraction = maxFraction input,
        rl_segmentAABB = segment_box (p1 input) (p2 input) (maxFraction input),
        rl_callback = (c0, [])\<rparr> = Some (Inr (c, tr))"
    by simp
  have step: "?I l1" if I: "?I l" and b: "?body l = Continue l1" for l l1
  proof
    assume b1: "\<forall>e \<in> set (snd (rl_callback l1)). snd (snd e) \<le> fst e"
    let ?i = "\<lparr>p1 = p1 input, p2 = p2 input, maxFraction = rl_maxFraction l\<rparr>"
    from RayCast_body_Continue [OF b] consider
        "rl_callback l1 = rl_callback l" "rl_maxFraction l1 = rl_maxFraction l"
      | w where "traced_ray cb (rl_callback l) ?i (last (rl_stack l)) = (w, rl_callback l1)"
          "rl_maxFraction l1 = (if w > 0 then w else rl_maxFraction l)"
      by blast
    then show "?J l1"
    proof cases
      case 1
      with I b1 show ?thesis by simp
    next
      case 2
      from 2(1) have
        tr: "snd (rl_callback l1) = snd (rl_callback l) @ [(rl_maxFraction l, last (rl_stack l), w)]"
        by (simp add: traced_ray_eq)
      from b1 tr have b0: "\<forall>e \<in> set (snd (rl_callback l)). snd (snd e) \<le> fst e"
        and le: "w \<le> rl_maxFraction l" by simp_all
      from I b0 have J: "?J l" by blast
      from le 2(2) have m: "rl_maxFraction l1 \<le> rl_maxFraction l" by simp
      from J tr m show ?thesis by (fastforce simp: sorted_wrt_append)
    qed
  qed
  have "\<exists>l1. ?I l1 \<and> (case Inr (c, tr) of Inr c \<Rightarrow> ?body l1 = Return c | Inl e \<Rightarrow> ?body l1 = Fail e)"
  proof (rule run_loop_invariant [OF run, where I = ?I])
    show "?I \<lparr>rl_stack = [m_root s], rl_maxFraction = maxFraction input,
        rl_segmentAABB = segment_box (p1 input) (p2 input) (maxFraction input),
        rl_callback = (c0, [])\<rparr>" by simp
  qed (rule step)
  then obtain l1 where l1: "?I l1" "?body l1 = Return (c, tr)" by auto
  from RayCast_body_Return [OF l1(2)] show ?thesis
  proof
    assume "rl_stack l1 = [] \<and> (c, tr) = rl_callback l1"
    then have "tr = snd (rl_callback l1)" by (metis snd_conv)
    with l1(1) bound show ?thesis by simp
  next
    assume "rl_stack l1 \<noteq> [] \<and>
      traced_ray cb (rl_callback l1) \<lparr>p1 = p1 input, p2 = p2 input, maxFraction = rl_maxFraction l1\<rparr>
        (last (rl_stack l1)) = (0, c, tr)"
    then have tr: "tr = snd (rl_callback l1) @ [(rl_maxFraction l1, last (rl_stack l1), 0)]"
      by (simp add: traced_ray_eq)
    with bound have "\<forall>e \<in> set (snd (rl_callback l1)). snd (snd e) \<le> fst e" by simp
    with l1(1) have "?J l1" by blast
    with tr show ?thesis by (fastforce simp: sorted_wrt_append)
  qed
qed

text \<open>On the tree of two proxies, a callback that returns \<open>3/10\<close> whatever it is given: it
  is called with \<open>1\<close> and then with \<open>3/10\<close>, and never returns more than it was passed.\<close>

theorem RayCast_fractions_decrease_witness:
  "RayCast (traced_ray (\<lambda>c i h. (3/10, c))) ((), []) tie_tree ray_in
     = Some (Inr ((), [(1, 1, 3/10), (3/10, 0, 3/10)])) \<and>
   sorted_wrt (\<ge>) (map fst [(1::real, 1::int, 3/10::real), (3/10, 0, 3/10)])"
proof -
  have r: "RayCast (traced_ray (\<lambda>c i h. (3/10, c))) ((), []) tie_tree ray_in
     = Some (Inr ((), [(1, 1, 3/10), (3/10, 0, 3/10)]))"
    by (simp add: ray_evals)
  have b: "\<forall>e \<in> set [(1::real, 1::int, 3/10::real), (3/10, 0, 3/10)]. snd (snd e) \<le> fst e"
    by simp
  from RayCast_fractions_decrease [OF r b] r
  show ?thesis by blast
qed

text \<open>The claim C4 as stated holds for every callback. On the tree of two proxies, with a
  ray of \<^verbatim>\<open>maxFraction\<close> 1 that crosses both, a callback that always returns 2 is called
  with \<^verbatim>\<open>maxFraction\<close> 1 and then with \<^verbatim>\<open>maxFraction\<close> 2.\<close>

theorem RayCast_fractions_counterexample:
  "RayCast (traced_ray (\<lambda>c i h. (2, c))) ((), []) tie_tree ray_in
     = Some (Inr ((), [(1, 1, 2), (2, 0, 2)]))"
  by (simp add: ray_evals)

section \<open>The free list\<close>

lemma null_not_in_range [simp]: "\<not> in_range s b2_nullNode"
  by (simp add: in_range_def b2_nullNode_def)

lemma in_range_not_null: "in_range s i \<Longrightarrow> i \<noteq> b2_nullNode"
  by auto

lemma allocated_not_null: "allocated s i \<Longrightarrow> i \<noteq> b2_nullNode"
  by (auto simp: allocated_def)

lemma attached_not_null: "attached s D i \<Longrightarrow> i \<noteq> b2_nullNode"
  by (auto simp: attached_def allocated_def)

lemma free_chain_cong:
  assumes "\<And>x. x \<in> set xs \<Longrightarrow> in_range s1 x = in_range s x \<and> height (node s1 x) = height (node s x)
              \<and> parent (node s1 x) = parent (node s x)"
  shows "free_chain s1 i xs = free_chain s i xs"
  using assms by (induction xs arbitrary: i) auto

lemma free_chain_set: "free_chain s i xs \<Longrightarrow> x \<in> set xs \<Longrightarrow> in_range s x \<and> height (node s x) = -1"
  by (induction xs arbitrary: i) auto

lemma pool_inv_frame:
  assumes p: "pool_inv s"
    and f: "m_nodeCapacity s1 = m_nodeCapacity s" "m_freeList s1 = m_freeList s"
      "m_nodeCount s1 = m_nodeCount s"
    and n: "\<And>i. in_range s i \<Longrightarrow>
        (height (node s i) = -1 \<longrightarrow> height (node s1 i) = -1 \<and> parent (node s1 i) = parent (node s i)) \<and>
        (0 \<le> height (node s i) \<longrightarrow> 0 \<le> height (node s1 i))"
  shows "pool_inv s1"
proof -
  have ir: "in_range s1 i = in_range s i" for i using f by (simp add: in_range_def)
  from p obtain xs where xs: "free_chain s (m_freeList s) xs" "distinct xs"
      "set xs = {i. in_range s i \<and> height (node s i) = -1}"
      "m_nodeCount s + int (length xs) = m_nodeCapacity s"
    and h: "\<And>i. in_range s i \<Longrightarrow> -1 \<le> height (node s i)" "0 < m_nodeCapacity s"
    by (auto simp: pool_inv_def)
  have hh: "height (node s1 i) = -1 \<longleftrightarrow> height (node s i) = -1" if "in_range s i" for i
    using n [OF that] h(1) [OF that] by (cases "height (node s i) = -1") auto
  have "free_chain s1 (m_freeList s1) xs"
    unfolding f(2) using xs(1,3) n ir
    by (subst free_chain_cong [where s = s]) auto
  moreover have "set xs = {i. in_range s1 i \<and> height (node s1 i) = -1}"
    using xs(3) hh ir by auto
  moreover have "\<forall>i. in_range s1 i \<longrightarrow> -1 \<le> height (node s1 i)"
  proof (intro allI impI)
    fix i assume "in_range s1 i"
    then have i: "in_range s i" by (simp add: ir)
    show "-1 \<le> height (node s1 i)"
    proof (cases "height (node s i) = -1")
      case True
      with n [OF i] show ?thesis by simp
    next
      case False
      with h(1) [OF i] have "0 \<le> height (node s i)" by simp
      with n [OF i] show ?thesis by simp
    qed
  qed
  ultimately show ?thesis using xs(2,4) h(2) f by (auto simp: pool_inv_def)
qed

section \<open>Frames\<close>

lemma tinv_frame:
  assumes t: "tinv s D P r"
    and p: "pool_inv s1"
    and root: "m_root s1 = m_root s"
    and att: "\<And>j. attached s1 D1 j \<longleftrightarrow> attached s D j"
    and same: "\<And>j. attached s D j \<Longrightarrow> same_tree_fields (node s1 j) (node s j)"
    and det: "detached_inv s1 D1"
  shows "tinv s1 D1 P r"
proof -
  from t have l: "links_inv s D" and rk: "rank_inv s D r" and ex: "exact_inv s D P"
    and ro: "root_inv s D"
    by (auto simp: tinv_def)
  have f: "parent (node s1 j) = parent (node s j)" "child1 (node s1 j) = child1 (node s j)"
    "child2 (node s1 j) = child2 (node s j)" "height (node s1 j) = height (node s j)"
    "aabb (node s1 j) = aabb (node s j)" if "attached s D j" for j
    using same [OF that] by (auto simp: same_tree_fields_def)
  have ch: "attached s D (child1 (node s j)) \<and> attached s D (child2 (node s j))"
    if "attached s D j" "child1 (node s j) \<noteq> b2_nullNode" for j
    using l that by (auto simp: links_inv_def)
  have pa: "attached s D (parent (node s j))" if "attached s D j" "j \<noteq> m_root s" for j
    using l that by (auto simp: links_inv_def)
  have "links_inv s1 D1"
    unfolding links_inv_def
  proof (intro allI impI)
    fix i assume "attached s1 D1 i"
    then have a: "attached s D i" by (simp add: att)
    from l a have L: "(i \<noteq> m_root s \<longrightarrow>
           attached s D (parent (node s i)) \<and>
           (child1 (node s (parent (node s i))) = i \<or> child2 (node s (parent (node s i))) = i)) \<and>
        (child1 (node s i) = b2_nullNode \<longrightarrow>
           child2 (node s i) = b2_nullNode \<and> height (node s i) = 0) \<and>
        (child1 (node s i) \<noteq> b2_nullNode \<longrightarrow>
           attached s D (child1 (node s i)) \<and> attached s D (child2 (node s i)) \<and>
           child1 (node s i) \<noteq> child2 (node s i) \<and>
           parent (node s (child1 (node s i))) = i \<and>
           parent (node s (child2 (node s i))) = i)"
      by (simp add: links_inv_def)
    show "(i \<noteq> m_root s1 \<longrightarrow>
           attached s1 D1 (parent (node s1 i)) \<and>
           (child1 (node s1 (parent (node s1 i))) = i \<or> child2 (node s1 (parent (node s1 i))) = i)) \<and>
        (child1 (node s1 i) = b2_nullNode \<longrightarrow>
           child2 (node s1 i) = b2_nullNode \<and> height (node s1 i) = 0) \<and>
        (child1 (node s1 i) \<noteq> b2_nullNode \<longrightarrow>
           attached s1 D1 (child1 (node s1 i)) \<and> attached s1 D1 (child2 (node s1 i)) \<and>
           child1 (node s1 i) \<noteq> child2 (node s1 i) \<and>
           parent (node s1 (child1 (node s1 i))) = i \<and>
           parent (node s1 (child2 (node s1 i))) = i)"
      using L a by (auto simp: f att root)
  qed
  moreover have "rank_inv s1 D1 r"
    using rk by (auto simp: rank_inv_def att f)
  moreover have "exact_inv s1 D1 P"
    unfolding exact_inv_def
  proof (intro allI impI)
    fix i assume "attached s1 D1 i \<and> i \<notin> P \<and> child1 (node s1 i) \<noteq> b2_nullNode"
    then have a: "attached s D i" "i \<notin> P" "child1 (node s i) \<noteq> b2_nullNode"
      by (auto simp: att f)
    from ch [OF a(1,3)] ex a show "height (node s1 i) =
          1 + max (height (node s1 (child1 (node s1 i)))) (height (node s1 (child2 (node s1 i)))) \<and>
        aabb (node s1 i) =
          combine (aabb (node s1 (child1 (node s1 i)))) (aabb (node s1 (child2 (node s1 i))))"
      by (simp add: f exact_inv_def)
  qed
  moreover have "root_inv s1 D1"
    using ro by (auto simp: root_inv_def att f root)
  ultimately show ?thesis using p det by (simp add: tinv_def)
qed

lemma free_chain_upto:
  assumes "\<And>j. lo \<le> j \<Longrightarrow> j \<le> hi \<Longrightarrow> in_range s j \<and> height (node s j) = -1 \<and>
             parent (node s j) = (if j = hi then b2_nullNode else j + 1)"
    and "lo \<le> hi"
  shows "free_chain s lo [lo..hi]"
  using assms
proof (induction lo hi rule: upto.induct)
  case (1 i j)
  have u: "[i..j] = i # [i + 1..j]" using 1(3) by (simp add: upto_rec1)
  show ?case
  proof (cases "i = j")
    case True
    with 1(2) [of i] show ?thesis by (simp add: u)
  next
    case False
    with 1(3) have lt: "i + 1 \<le> j" by simp
    have "free_chain s (i + 1) [i + 1..j]"
      using 1(1) 1(2) lt 1(3) by auto
    with 1(2) [of i] False 1(3) show ?thesis by (simp add: u)
  qed
qed

lemma peel_node_ok:
  assumes p: "pool_inv s" and fl: "m_freeList s \<noteq> b2_nullNode"
  shows "\<exists>s1. peel_node s = Inr (s1, m_freeList s) \<and> in_range s (m_freeList s) \<and>
     \<not> allocated s (m_freeList s) \<and>
     (\<forall>j. node s1 j = (if j = m_freeList s
         then (node s j)\<lparr>parent := b2_nullNode, child1 := b2_nullNode, child2 := b2_nullNode,
                    height := 0, userData := 0, moved := False\<rparr> else node s j)) \<and>
     m_nodeCapacity s1 = m_nodeCapacity s \<and>
     m_root s1 = m_root s \<and> m_insertionCount s1 = m_insertionCount s \<and> pool_inv s1"
proof -
  from p obtain xs where xs: "free_chain s (m_freeList s) xs" "distinct xs"
      "set xs = {i. in_range s i \<and> height (node s i) = -1}"
      "m_nodeCount s + int (length xs) = m_nodeCapacity s"
    and h: "\<And>i. in_range s i \<Longrightarrow> -1 \<le> height (node s i)" and cap: "0 < m_nodeCapacity s"
    by (auto simp: pool_inv_def)
  from fl obtain n ys where ys: "xs = n # ys" using xs(1) by (cases xs) auto
  with xs(1) have n: "m_freeList s = n" "in_range s n" "height (node s n) = -1"
    "free_chain s (parent (node s n)) ys" by auto
  obtain s1 where A: "peel_node s = Inr (s1, n)"
    and nd: "\<And>j. node s1 j = (if j = n then (node s n)\<lparr>parent := b2_nullNode, child1 := b2_nullNode,
        child2 := b2_nullNode, height := 0, userData := 0, moved := False\<rparr> else node s j)"
    and f: "m_nodeCapacity s1 = m_nodeCapacity s" "m_root s1 = m_root s"
      "m_insertionCount s1 = m_insertionCount s" "m_freeList s1 = parent (node s n)"
      "m_nodeCount s1 = m_nodeCount s + 1"
    using n by (simp add: peel_node_def Let_def)
  have ir: "in_range s1 j = in_range s j" for j by (simp add: in_range_def f)
  have nys: "n \<notin> set ys" using xs(2) ys by simp
  have fc: "free_chain s1 (m_freeList s1) ys"
  proof -
    have "free_chain s1 (parent (node s n)) ys = free_chain s (parent (node s n)) ys"
      by (rule free_chain_cong) (use nys in \<open>auto simp: nd ir\<close>)
    with n(4) show ?thesis by (simp add: f)
  qed
  have set: "set ys = {i. in_range s1 i \<and> height (node s1 i) = -1}"
    using xs(3) ys nys by (auto simp: nd ir)
  have "pool_inv s1"
    unfolding pool_inv_def
  proof (intro conjI allI impI exI [of _ ys])
    show "0 < m_nodeCapacity s1" using cap by (simp add: f)
    show "- 1 \<le> height (node s1 i)" if "in_range s1 i" for i
      using h [of i] that by (auto simp: nd ir)
    show "free_chain s1 (m_freeList s1) ys" by (rule fc)
    show "distinct ys" using xs(2) ys by simp
    show "set ys = {i. in_range s1 i \<and> height (node s1 i) = -1}" by (rule set)
    show "m_nodeCount s1 + int (length ys) = m_nodeCapacity s1" using xs(4) ys by (simp add: f)
  qed
  moreover have "\<not> allocated s n" using n by (simp add: allocated_def)
  ultimately show ?thesis using A n f nd by (intro exI [of _ s1]) simp
qed

lemma grow_pool_ok:
  assumes p: "pool_inv s" and fl: "m_freeList s = b2_nullNode"
  shows "m_nodeCount s = m_nodeCapacity s \<and> pool_inv (grow_pool s) \<and>
     m_freeList (grow_pool s) = m_nodeCapacity s \<and>
     (\<forall>j. in_range s j \<longrightarrow> node (grow_pool s) j = node s j \<and> 0 \<le> height (node s j)) \<and>
     (\<forall>j. \<not> in_range s j \<longrightarrow> same_tree_fields ((node (grow_pool s) j)\<lparr>parent := 0, height := 0\<rparr>)
             ((node s j)\<lparr>parent := 0, height := 0\<rparr>)) \<and>
     (\<forall>j. allocated (grow_pool s) j \<longleftrightarrow> allocated s j) \<and>
     m_nodeCapacity (grow_pool s) = 2 * m_nodeCapacity s \<and>
     m_root (grow_pool s) = m_root s \<and> m_insertionCount (grow_pool s) = m_insertionCount s"
proof -
  from p obtain xs where xs: "free_chain s (m_freeList s) xs" "distinct xs"
      "set xs = {i. in_range s i \<and> height (node s i) = -1}"
      "m_nodeCount s + int (length xs) = m_nodeCapacity s"
    and h: "\<And>i. in_range s i \<Longrightarrow> -1 \<le> height (node s i)" and cap: "0 < m_nodeCapacity s"
    by (auto simp: pool_inv_def)
  from fl xs(1) have xs_nil: "xs = []" by (cases xs) auto
  with xs(4) have cnt: "m_nodeCount s = m_nodeCapacity s" by simp
  have alloc: "0 \<le> height (node s i)" if "in_range s i" for i
  proof -
    from xs(3) xs_nil that have "height (node s i) \<noteq> -1" by auto
    with h [OF that] show ?thesis by simp
  qed
  define c where "c = m_nodeCapacity s"
  define g where "g = grow_pool s"
  have c0: "0 < c" using cap by (simp add: c_def)
  have le: "c \<le> 2 * c - 1" using c0 by simp
  have gnode: "node g j = (if c \<le> j \<and> j \<le> 2 * c - 1
      then (node s j)\<lparr>parent := (if j = 2 * c - 1 then b2_nullNode else j + 1), height := -1\<rparr>
      else node s j)" for j
  proof -
    have "g = (link_free c (2 * c - 1) (s\<lparr>m_nodeCapacity := 2 * c\<rparr>))\<lparr>m_freeList := c\<rparr>"
      by (simp add: g_def grow_pool_def cnt c_def)
    then show ?thesis by (simp add: link_free_node [OF le])
  qed
  have gf: "m_nodeCapacity g = 2 * c" "m_freeList g = c" "m_nodeCount g = c" "m_root g = m_root s"
    "m_insertionCount g = m_insertionCount s"
    using cnt by (simp_all add: g_def grow_pool_def c_def)
  have R: "in_range g j \<longleftrightarrow> 0 \<le> j \<and> j < 2 * c" for j by (simp add: in_range_def gf)
  have Rs: "in_range s j \<longleftrightarrow> 0 \<le> j \<and> j < c" for j by (simp add: in_range_def c_def)
  have H: "height (node g j) = (if c \<le> j \<and> j \<le> 2 * c - 1 then -1 else height (node s j))" for j
    by (simp add: gnode)
  have "pool_inv g"
    unfolding pool_inv_def
  proof (intro conjI allI impI exI [of _ "[c..2 * c - 1]"])
    show "0 < m_nodeCapacity g" using c0 by (simp add: gf)
    show "- 1 \<le> height (node g i)" if "in_range g i" for i
      using alloc [of i] that unfolding R Rs H by auto
    show "free_chain g (m_freeList g) [c..2 * c - 1]"
      unfolding gf
    proof (rule free_chain_upto [OF _ le])
      fix j assume j: "c \<le> j" "j \<le> 2 * c - 1"
      then show "in_range g j \<and> height (node g j) = -1 \<and>
             parent (node g j) = (if j = 2 * c - 1 then b2_nullNode else j + 1)"
        using c0 unfolding R H by (simp add: gnode)
    qed
    show "distinct [c..2 * c - 1]" by simp
    show "set [c..2 * c - 1] = {i. in_range g i \<and> height (node g i) = -1}"
    proof (rule set_eqI)
      fix i
      have "in_range g i \<and> height (node g i) = -1 \<longleftrightarrow> c \<le> i \<and> i \<le> 2 * c - 1"
        using alloc [of i] c0 unfolding R Rs H by (cases "c \<le> i") auto
      then show "i \<in> set [c..2 * c - 1] \<longleftrightarrow> i \<in> {i. in_range g i \<and> height (node g i) = -1}"
        by simp
    qed
    show "m_nodeCount g + int (length [c..2 * c - 1]) = m_nodeCapacity g"
      using c0 by (simp add: gf)
  qed
  moreover have "\<forall>j. in_range s j \<longrightarrow> node g j = node s j \<and> 0 \<le> height (node s j)"
    using alloc unfolding Rs by (auto simp: gnode)
  moreover have "\<forall>j. allocated g j \<longleftrightarrow> allocated s j"
  proof
    fix j show "allocated g j \<longleftrightarrow> allocated s j"
      using alloc [of j] c0 unfolding allocated_def R Rs H by auto
  qed
  moreover have "\<forall>j. \<not> in_range s j \<longrightarrow> same_tree_fields ((node g j)\<lparr>parent := 0, height := 0\<rparr>)
             ((node s j)\<lparr>parent := 0, height := 0\<rparr>)"
    by (simp add: gnode same_tree_fields_def)
  ultimately show ?thesis using cnt gf by (simp add: g_def [symmetric] c_def)
qed

section \<open>Allocating and freeing\<close>

lemma AllocateNode_ok:
  assumes p: "pool_inv s"
  shows "\<exists>s1 n. AllocateNode s = Inr (s1, n) \<and> in_range s1 n \<and> \<not> allocated s n \<and>
     parent (node s1 n) = b2_nullNode \<and> child1 (node s1 n) = b2_nullNode \<and>
     child2 (node s1 n) = b2_nullNode \<and> height (node s1 n) = 0 \<and>
     (\<forall>j. allocated s j \<longrightarrow> node s1 j = node s j) \<and>
     (\<forall>j. allocated s1 j \<longleftrightarrow> allocated s j \<or> j = n) \<and>
     m_root s1 = m_root s \<and> m_insertionCount s1 = m_insertionCount s \<and> pool_inv s1 \<and>
     (m_freeList s \<noteq> b2_nullNode \<longrightarrow> n = m_freeList s)"
proof (cases "m_freeList s = b2_nullNode")
  case False
  from peel_node_ok [OF p False] obtain s1 where s1: "peel_node s = Inr (s1, m_freeList s)"
    "in_range s (m_freeList s)" "\<not> allocated s (m_freeList s)"
    "\<And>j. node s1 j = (if j = m_freeList s
         then (node s j)\<lparr>parent := b2_nullNode, child1 := b2_nullNode, child2 := b2_nullNode,
                    height := 0, userData := 0, moved := False\<rparr> else node s j)"
    "m_nodeCapacity s1 = m_nodeCapacity s"
    "m_root s1 = m_root s" "m_insertionCount s1 = m_insertionCount s" "pool_inv s1"
    by blast
  have "AllocateNode s = Inr (s1, m_freeList s)"
    using False s1(1) by (simp add: AllocateNode_def)
  moreover have "\<forall>j. allocated s j \<longrightarrow> node s1 j = node s j"
    using s1(3) by (auto simp: s1(4))
  moreover have "\<forall>j. allocated s1 j \<longleftrightarrow> allocated s j \<or> j = m_freeList s"
    using s1(2,3) by (auto simp: allocated_def s1(4) in_range_def s1(5))
  moreover have "in_range s1 (m_freeList s)" using s1(2) by (simp add: in_range_def s1(5))
  ultimately show ?thesis using s1(3,6,7,8) False
    by (intro exI [of _ s1] exI [of _ "m_freeList s"]) (simp add: s1(4))
next
  case True
  let ?g = "grow_pool s"
  from grow_pool_ok [OF p True] have g: "m_nodeCount s = m_nodeCapacity s" "pool_inv ?g"
    "m_freeList ?g = m_nodeCapacity s"
    "\<And>j. in_range s j \<Longrightarrow> node ?g j = node s j"
    "\<And>j. allocated ?g j \<longleftrightarrow> allocated s j"
    "m_nodeCapacity ?g = 2 * m_nodeCapacity s"
    "m_root ?g = m_root s" "m_insertionCount ?g = m_insertionCount s"
    by blast+
  from p have cap: "0 < m_nodeCapacity s" by (simp add: pool_inv_def)
  have fl: "m_freeList ?g \<noteq> b2_nullNode" using cap by (simp add: g(3) b2_nullNode_def)
  from peel_node_ok [OF g(2) fl] obtain s1 where s1: "peel_node ?g = Inr (s1, m_freeList ?g)"
    "in_range ?g (m_freeList ?g)" "\<not> allocated ?g (m_freeList ?g)"
    "\<And>j. node s1 j = (if j = m_freeList ?g
         then (node ?g j)\<lparr>parent := b2_nullNode, child1 := b2_nullNode, child2 := b2_nullNode,
                    height := 0, userData := 0, moved := False\<rparr> else node ?g j)"
    "m_nodeCapacity s1 = m_nodeCapacity ?g"
    "m_root s1 = m_root ?g" "m_insertionCount s1 = m_insertionCount ?g" "pool_inv s1"
    by blast
  have "AllocateNode s = Inr (s1, m_nodeCapacity s)"
    using True s1(1) g(1) by (simp add: AllocateNode_def g(3))
  moreover have "\<forall>j. allocated s j \<longrightarrow> node s1 j = node s j"
  proof (intro allI impI)
    fix j assume "allocated s j"
    then have j: "in_range s j" by (simp add: allocated_def)
    then have "j \<noteq> m_freeList ?g" by (simp add: g(3) in_range_def)
    with g(4) [OF j] show "node s1 j = node s j" by (simp add: s1(4))
  qed
  moreover have "\<forall>j. allocated s1 j \<longleftrightarrow> allocated s j \<or> j = m_nodeCapacity s"
  proof
    fix j
    have "allocated s1 j \<longleftrightarrow> allocated ?g j \<or> j = m_freeList ?g"
      using s1(2,3) by (auto simp: allocated_def s1(4) in_range_def s1(5))
    then show "allocated s1 j \<longleftrightarrow> allocated s j \<or> j = m_nodeCapacity s"
      by (simp add: g(5) g(3))
  qed
  moreover have "in_range s1 (m_nodeCapacity s)"
    using s1(2) by (simp add: in_range_def s1(5) g(3))
  moreover have "\<not> allocated s (m_nodeCapacity s)" by (simp add: allocated_def in_range_def)
  ultimately show ?thesis using s1(6,7,8) True g(7,8)
    by (intro exI [of _ s1] exI [of _ "m_nodeCapacity s"]) (simp add: s1(4) g(3))
qed

lemma tinv_attached_in_range: "attached s D i \<Longrightarrow> in_range s i"
  by (simp add: attached_def allocated_def)

lemma AllocateNode_tinv:
  assumes t: "tinv s D P r"
  shows "\<exists>s1 n. AllocateNode s = Inr (s1, n) \<and> n \<notin> D \<and> \<not> allocated s n \<and> allocated s1 n \<and>
     tinv s1 (insert n D) P r \<and>
     (\<forall>j. allocated s j \<longrightarrow> node s1 j = node s j) \<and>
     (\<forall>j. allocated s1 j \<longleftrightarrow> allocated s j \<or> j = n) \<and>
     m_root s1 = m_root s \<and> m_insertionCount s1 = m_insertionCount s \<and>
     (m_freeList s \<noteq> b2_nullNode \<longrightarrow> n = m_freeList s)"
proof -
  from t have p: "pool_inv s" and d: "detached_inv s D" by (auto simp: tinv_def)
  from AllocateNode_ok [OF p] obtain s1 n where a: "AllocateNode s = Inr (s1, n)"
    "in_range s1 n" "\<not> allocated s n"
    "parent (node s1 n) = b2_nullNode" "child1 (node s1 n) = b2_nullNode"
    "child2 (node s1 n) = b2_nullNode" "height (node s1 n) = 0"
    "\<And>j. allocated s j \<Longrightarrow> node s1 j = node s j"
    "\<And>j. allocated s1 j \<longleftrightarrow> allocated s j \<or> j = n"
    "m_root s1 = m_root s" "m_insertionCount s1 = m_insertionCount s" "pool_inv s1"
    "m_freeList s \<noteq> b2_nullNode \<longrightarrow> n = m_freeList s"
    by blast
  have nD: "n \<notin> D" using d a(3) by (auto simp: detached_inv_def)
  have "tinv s1 (insert n D) P r"
  proof (rule tinv_frame [OF t a(12) a(10)])
    show "attached s1 (insert n D) j \<longleftrightarrow> attached s D j" for j
      using a(3) by (auto simp: attached_def a(9))
    show "same_tree_fields (node s1 j) (node s j)" if "attached s D j" for j
      using that a(8) [of j] by (simp add: attached_def same_tree_fields_def)
    show "detached_inv s1 (insert n D)"
      using d a(4-7) a(8) by (auto simp: detached_inv_def a(9))
  qed
  with a nD show ?thesis by (intro exI [of _ s1] exI [of _ n]) simp
qed

lemma FreeNode_ok:
  assumes p: "pool_inv s" and n: "allocated s n"
  shows "\<exists>s1. FreeNode s n = Inr s1 \<and> pool_inv s1 \<and> m_freeList s1 = n \<and>
     (\<forall>j. node s1 j = (if j = n then (node s n)\<lparr>parent := m_freeList s, height := -1\<rparr> else node s j)) \<and>
     m_nodeCapacity s1 = m_nodeCapacity s \<and> m_root s1 = m_root s \<and>
     m_insertionCount s1 = m_insertionCount s"
proof -
  from p obtain xs where xs: "free_chain s (m_freeList s) xs" "distinct xs"
      "set xs = {i. in_range s i \<and> height (node s i) = -1}"
      "m_nodeCount s + int (length xs) = m_nodeCapacity s"
    and h: "\<And>i. in_range s i \<Longrightarrow> -1 \<le> height (node s i)" and cap: "0 < m_nodeCapacity s"
    by (auto simp: pool_inv_def)
  from n have nr: "0 \<le> n" "n < m_nodeCapacity s" "0 \<le> height (node s n)"
    by (auto simp: allocated_def in_range_def)
  have nxs: "n \<notin> set xs" using xs(3) nr by auto
  have "set xs \<subseteq> {0..<m_nodeCapacity s} - {n}"
  proof
    fix i assume i: "i \<in> set xs"
    with xs(3) have "in_range s i" by simp
    with i nxs show "i \<in> {0..<m_nodeCapacity s} - {n}" by (auto simp: in_range_def)
  qed
  then have "card (set xs) \<le> card ({0..<m_nodeCapacity s} - {n})"
    by (intro card_mono) simp_all
  also have "\<dots> = nat (m_nodeCapacity s) - 1" using nr by simp
  finally have "int (length xs) < m_nodeCapacity s"
    using distinct_card [OF xs(2)] nr by linarith
  with xs(4) have cnt: "0 < m_nodeCount s" by simp
  obtain s1 where F: "FreeNode s n = Inr s1"
    and nd: "\<And>j. node s1 j = (if j = n then (node s n)\<lparr>parent := m_freeList s, height := -1\<rparr> else node s j)"
    and f: "m_nodeCapacity s1 = m_nodeCapacity s" "m_root s1 = m_root s"
      "m_insertionCount s1 = m_insertionCount s" "m_freeList s1 = n"
      "m_nodeCount s1 = m_nodeCount s - 1"
    using nr cnt by (simp add: FreeNode_def Let_def)
  have ir: "in_range s1 j = in_range s j" for j by (simp add: in_range_def f)
  have "pool_inv s1"
    unfolding pool_inv_def
  proof (intro conjI allI impI exI [of _ "n # xs"])
    show "0 < m_nodeCapacity s1" using cap by (simp add: f)
    show "- 1 \<le> height (node s1 i)" if "in_range s1 i" for i
      using h [of i] that by (auto simp: nd ir)
    have "free_chain s1 (m_freeList s) xs = free_chain s (m_freeList s) xs"
      by (rule free_chain_cong) (use nxs in \<open>auto simp: nd ir\<close>)
    with xs(1) show "free_chain s1 (m_freeList s1) (n # xs)"
      using n by (simp add: f nd ir allocated_def)
    show "distinct (n # xs)" using xs(2) nxs by simp
    show "set (n # xs) = {i. in_range s1 i \<and> height (node s1 i) = -1}"
    proof (rule set_eqI)
      fix i show "i \<in> set (n # xs) \<longleftrightarrow> i \<in> {i. in_range s1 i \<and> height (node s1 i) = -1}"
        using xs(3) n by (cases "i = n") (auto simp: nd ir allocated_def)
    qed
    show "m_nodeCount s1 + int (length (n # xs)) = m_nodeCapacity s1" using xs(4) by (simp add: f)
  qed
  with F nd f show ?thesis by (intro exI [of _ s1]) simp
qed

section \<open>The store after a rotation\<close>

lemma swap_up_result:
  assumes d: "A \<noteq> C" "p \<noteq> A" "p \<noteq> C"
    and r: "p \<noteq> b2_nullNode \<longrightarrow> in_range s p"
    and c: "parent (node s A) = p"
      "p \<noteq> b2_nullNode \<longrightarrow> child1 (node s p) = A \<or> child2 (node s p) = A"
  shows "\<exists>s1. swap_up s A C = Inr s1 \<and>
     (\<forall>j. node s1 j =
        (if j = C then (node s C)\<lparr>child1 := A, parent := p\<rparr>
         else if j = A then (node s A)\<lparr>parent := C\<rparr>
         else if j = p \<and> p \<noteq> b2_nullNode then
              (if child1 (node s p) = A then (node s p)\<lparr>child1 := C\<rparr> else (node s p)\<lparr>child2 := C\<rparr>)
         else node s j)) \<and>
     m_root s1 = (if p = b2_nullNode then C else m_root s) \<and>
     m_nodeCapacity s1 = m_nodeCapacity s \<and> m_freeList s1 = m_freeList s \<and>
     m_nodeCount s1 = m_nodeCount s \<and> m_insertionCount s1 = m_insertionCount s"
proof (cases "p = b2_nullNode")
  case True
  then show ?thesis using c by (simp add: swap_up_def Let_def d d [symmetric])
next
  case False
  show ?thesis
  proof (cases "child1 (node s p) = A")
    case True
    then show ?thesis using c r False by (simp add: swap_up_def Let_def d d [symmetric])
  next
    case c1: False
    then show ?thesis using c r False by (simp add: swap_up_def Let_def d d [symmetric])
  qed
qed

lemma rotate_C_children_result:
  assumes d: "A \<noteq> C" "A \<noteq> X" "A \<noteq> Y" "C \<noteq> X" "C \<noteq> Y" "X \<noteq> Y" "B \<noteq> A" "B \<noteq> C" "B \<noteq> Y"
  shows "(\<forall>j. node (rotate_C_children s A B C X Y) j =
        (if j = C then (node s C)\<lparr>child2 := X,
              aabb := combine (combine (aabb (node s B)) (aabb (node s Y))) (aabb (node s X)),
              height := 1 + max (1 + max (height (node s B)) (height (node s Y))) (height (node s X))\<rparr>
         else if j = A then (node s A)\<lparr>child2 := Y,
              aabb := combine (aabb (node s B)) (aabb (node s Y)),
              height := 1 + max (height (node s B)) (height (node s Y))\<rparr>
         else if j = Y then (node s Y)\<lparr>parent := A\<rparr>
         else node s j)) \<and>
     m_root (rotate_C_children s A B C X Y) = m_root s \<and>
     m_nodeCapacity (rotate_C_children s A B C X Y) = m_nodeCapacity s \<and>
     m_freeList (rotate_C_children s A B C X Y) = m_freeList s \<and>
     m_nodeCount (rotate_C_children s A B C X Y) = m_nodeCount s \<and>
     m_insertionCount (rotate_C_children s A B C X Y) = m_insertionCount s"
  by (simp add: rotate_C_children_def Let_def d d [symmetric])

lemma rotate_B_children_result:
  assumes d: "A \<noteq> B" "A \<noteq> X" "A \<noteq> Y" "B \<noteq> X" "B \<noteq> Y" "X \<noteq> Y" "C \<noteq> A" "C \<noteq> B" "C \<noteq> Y"
  shows "(\<forall>j. node (rotate_B_children s A B C X Y) j =
        (if j = B then (node s B)\<lparr>child2 := X,
              aabb := combine (combine (aabb (node s C)) (aabb (node s Y))) (aabb (node s X)),
              height := 1 + max (1 + max (height (node s C)) (height (node s Y))) (height (node s X))\<rparr>
         else if j = A then (node s A)\<lparr>child1 := Y,
              aabb := combine (aabb (node s C)) (aabb (node s Y)),
              height := 1 + max (height (node s C)) (height (node s Y))\<rparr>
         else if j = Y then (node s Y)\<lparr>parent := A\<rparr>
         else node s j)) \<and>
     m_root (rotate_B_children s A B C X Y) = m_root s \<and>
     m_nodeCapacity (rotate_B_children s A B C X Y) = m_nodeCapacity s \<and>
     m_freeList (rotate_B_children s A B C X Y) = m_freeList s \<and>
     m_nodeCount (rotate_B_children s A B C X Y) = m_nodeCount s \<and>
     m_insertionCount (rotate_B_children s A B C X Y) = m_insertionCount s"
  by (simp add: rotate_B_children_def Let_def d d [symmetric])

section \<open>Reading the invariant\<close>

lemma links_invD:
  assumes "links_inv s D" "attached s D i"
  shows "i \<noteq> m_root s \<Longrightarrow> attached s D (parent (node s i))"
    "i \<noteq> m_root s \<Longrightarrow> child1 (node s (parent (node s i))) = i \<or> child2 (node s (parent (node s i))) = i"
    "child1 (node s i) = b2_nullNode \<Longrightarrow> child2 (node s i) = b2_nullNode"
    "child1 (node s i) = b2_nullNode \<Longrightarrow> height (node s i) = 0"
    "child1 (node s i) \<noteq> b2_nullNode \<Longrightarrow> attached s D (child1 (node s i))"
    "child1 (node s i) \<noteq> b2_nullNode \<Longrightarrow> attached s D (child2 (node s i))"
    "child1 (node s i) \<noteq> b2_nullNode \<Longrightarrow> child1 (node s i) \<noteq> child2 (node s i)"
    "child1 (node s i) \<noteq> b2_nullNode \<Longrightarrow> parent (node s (child1 (node s i))) = i"
    "child1 (node s i) \<noteq> b2_nullNode \<Longrightarrow> parent (node s (child2 (node s i))) = i"
  using assms unfolding links_inv_def by blast+

lemma rank_invD:
  assumes "rank_inv s D r" "attached s D i" "child1 (node s i) \<noteq> b2_nullNode"
  shows "r (child1 (node s i)) < r i" "r (child2 (node s i)) < r i"
  using assms unfolding rank_inv_def by blast+

lemma root_invD:
  assumes "root_inv s D"
  shows "attached s D i \<Longrightarrow> m_root s \<noteq> b2_nullNode"
    "m_root s \<noteq> b2_nullNode \<Longrightarrow> attached s D (m_root s)"
    "m_root s \<noteq> b2_nullNode \<Longrightarrow> parent (node s (m_root s)) = b2_nullNode"
  using assms unfolding root_inv_def by blast+

lemma parent_null_root:
  assumes "links_inv s D" "root_inv s D" "attached s D i"
  shows "parent (node s i) = b2_nullNode \<longleftrightarrow> i = m_root s"
proof
  assume "parent (node s i) = b2_nullNode"
  then have "\<not> attached s D (parent (node s i))" by (simp add: attached_def allocated_def)
  with links_invD(1) [OF assms(1,3)] show "i = m_root s" by blast
next
  assume "i = m_root s"
  with root_invD(1,3) [OF assms(2)] assms(3) show "parent (node s i) = b2_nullNode" by blast
qed

lemma parent_rank:
  assumes "links_inv s D" "rank_inv s D r" "attached s D i" "i \<noteq> m_root s"
  shows "r i < r (parent (node s i))"
proof -
  let ?p = "parent (node s i)"
  have p: "attached s D ?p" and c: "child1 (node s ?p) = i \<or> child2 (node s ?p) = i"
    using links_invD(1,2) [OF assms(1,3,4)] by auto
  have i: "i \<noteq> b2_nullNode" using assms(3) by (rule attached_not_null)
  have "child1 (node s ?p) \<noteq> b2_nullNode"
    using c i links_invD(3) [OF assms(1) p] by auto
  from rank_invD [OF assms(2) p this] c show ?thesis by auto
qed

section \<open>A rotation keeps the shape\<close>

lemma combine_commute: "combine a b = combine b a"
  by (simp add: combine_def min.commute max.commute)

lemma rotation_tinv:
  fixes r :: "int \<Rightarrow> real"
  assumes t: "tinv s D P r"
    and A: "attached s D A" "child1 (node s A) \<noteq> b2_nullNode"
    and AU: "(child1 (node s A) = S \<and> child2 (node s A) = U) \<or>
             (child1 (node s A) = U \<and> child2 (node s A) = S)"
    and Uint: "child1 (node s U) \<noteq> b2_nullNode"
    and XY: "(child1 (node s U) = X \<and> child2 (node s U) = Y) \<or>
             (child1 (node s U) = Y \<and> child2 (node s U) = X)"
    and p: "p = parent (node s A)" "p = b2_nullNode \<or> p \<in> P"
    and a12: "(a1 = S \<and> a2 = Y) \<or> (a1 = Y \<and> a2 = S)"
    and P1: "\<And>j. parent (node s1 j) =
        (if j = U then p else if j = A then U else if j = Y then A else parent (node s j))"
    and C1: "\<And>j. child1 (node s1 j) =
        (if j = U then A else if j = A then a1
         else if j = p \<and> p \<noteq> b2_nullNode \<and> child1 (node s p) = A then U
         else child1 (node s j))"
    and C2: "\<And>j. child2 (node s1 j) =
        (if j = U then X else if j = A then a2
         else if j = p \<and> p \<noteq> b2_nullNode \<and> child1 (node s p) \<noteq> A then U
         else child2 (node s j))"
    and H1: "\<And>j. height (node s1 j) =
        (if j = U then 1 + max (1 + max (height (node s S)) (height (node s Y))) (height (node s X))
         else if j = A then 1 + max (height (node s S)) (height (node s Y))
         else height (node s j))"
    and B1: "\<And>j. aabb (node s1 j) =
        (if j = U then combine (combine (aabb (node s S)) (aabb (node s Y))) (aabb (node s X))
         else if j = A then combine (aabb (node s S)) (aabb (node s Y))
         else aabb (node s j))"
    and F1: "m_nodeCapacity s1 = m_nodeCapacity s" "m_freeList s1 = m_freeList s"
      "m_nodeCount s1 = m_nodeCount s"
      "m_root s1 = (if p = b2_nullNode then U else m_root s)"
  shows "tinv s1 D (insert U (P - {A})) (r(U := r A, A := (max (r S) (r U) + r A) / 2))"
proof -
  let ?r1 = "r(U := r A, A := (max (r S) (r U) + r A) / 2)"
  from t have pool: "pool_inv s" and l: "links_inv s D" and rk: "rank_inv s D r"
    and ex: "exact_inv s D P" and ro: "root_inv s D" and det: "detached_inv s D"
    by (auto simp: tinv_def)
  note LA = links_invD [OF l A(1)]
  have aS: "attached s D S" and aU: "attached s D U" and SU: "S \<noteq> U"
    and pS: "parent (node s S) = A" and pU: "parent (node s U) = A"
    using LA(5-9) [OF A(2)] AU by auto
  have rS: "r S < r A" and rU: "r U < r A"
    using rank_invD [OF rk A] AU by auto
  note LU = links_invD [OF l aU]
  have aX: "attached s D X" and aY: "attached s D Y" and XYd: "X \<noteq> Y"
    and pX: "parent (node s X) = U" and pY: "parent (node s Y) = U"
    using LU(5-9) [OF Uint] XY by auto
  have rX: "r X < r U" and rY: "r Y < r U"
    using rank_invD [OF rk aU Uint] XY by auto
  have Anull: "A \<noteq> b2_nullNode" "U \<noteq> b2_nullNode" "S \<noteq> b2_nullNode" "X \<noteq> b2_nullNode"
    "Y \<noteq> b2_nullNode"
    using A(1) aU aS aX aY by (auto dest: attached_not_null)
  have proot: "p = b2_nullNode \<longleftrightarrow> A = m_root s"
    unfolding p by (rule parent_null_root [OF l ro A(1)])
  have ap: "attached s D p" and cp: "child1 (node s p) = A \<or> child2 (node s p) = A"
    and rp: "r A < r p" if "p \<noteq> b2_nullNode"
    using that LA(1,2) proot parent_rank [OF l rk A(1)] p(1) by auto
  have cpi: "child1 (node s p) \<noteq> b2_nullNode" if "p \<noteq> b2_nullNode"
    using cp [OF that] links_invD(3) [OF l ap [OF that]] Anull by auto
  have cpd: "child1 (node s p) \<noteq> child2 (node s p)" if "p \<noteq> b2_nullNode"
    using links_invD(7) [OF l ap [OF that] cpi [OF that]] .
  have d1: "A \<noteq> U" "A \<noteq> S" "A \<noteq> X" "A \<noteq> Y" "U \<noteq> X" "U \<noteq> Y" "S \<noteq> X" "S \<noteq> Y"
    using rS rU rX rY pS pU pX pY by auto
  have d2: "p \<noteq> A" "p \<noteq> U" "p \<noteq> S" "p \<noteq> X" "p \<noteq> Y"
    using rS rU rX rY rp Anull by (cases "p = b2_nullNode"; force)+
  note dis = d1 d2 SU XYd d1 [symmetric] d2 [symmetric] SU [symmetric] XYd [symmetric]
  have hS: "0 \<le> height (node s S)" and hX: "0 \<le> height (node s X)"
    and hY: "0 \<le> height (node s Y)"
    using aS aX aY by (auto simp: attached_def allocated_def)
  have ir: "in_range s1 j = in_range s j" for j by (simp add: in_range_def F1)
  have att: "attached s1 D j \<longleftrightarrow> attached s D j" for j
    using A(1) aU hS hX hY by (auto simp: attached_def allocated_def ir H1)
  have pool1: "pool_inv s1"
  proof (rule pool_inv_frame [OF pool F1(1-3)])
    fix i assume i: "in_range s i"
    show "(height (node s i) = - 1 \<longrightarrow>
          height (node s1 i) = - 1 \<and> next (node s1 i) = next (node s i)) \<and>
         (0 \<le> height (node s i) \<longrightarrow> 0 \<le> height (node s1 i))"
      using A(1) aU aY hS hX hY by (auto simp: attached_def allocated_def H1 P1)
  qed
  have det1: "detached_inv s1 D"
    unfolding detached_inv_def
  proof
    fix i assume i: "i \<in> D"
    from det i have di: "allocated s i \<and> child1 (node s i) = b2_nullNode \<and>
        child2 (node s i) = b2_nullNode \<and> height (node s i) = 0"
      by (simp add: detached_inv_def)
    then have "i \<noteq> b2_nullNode" by (auto dest: allocated_not_null)
    with i have n: "i \<noteq> A" "i \<noteq> U" "i \<noteq> Y" "i \<noteq> p"
      using A(1) aU aY ap by (auto simp: attached_def)
    from di show "allocated s1 i \<and> child1 (node s1 i) = b2_nullNode \<and>
        child2 (node s1 i) = b2_nullNode \<and> height (node s1 i) = 0"
      by (simp add: allocated_def ir H1 C1 C2 n)
  qed
  have root1: "root_inv s1 D"
  proof (cases "p = b2_nullNode")
    case True
    then show ?thesis using aU Anull by (auto simp: root_inv_def att F1 P1)
  next
    case False
    then have "m_root s \<noteq> A" using proot by simp
    moreover have "m_root s \<noteq> U" "m_root s \<noteq> Y"
      using pU pY root_invD(3) [OF ro] root_invD(1) [OF ro A(1)] Anull by auto
    ultimately show ?thesis using ro False by (auto simp: root_inv_def att F1 P1)
  qed
  have rootY: "m_root s \<noteq> U" "m_root s \<noteq> Y" "m_root s \<noteq> S" "m_root s \<noteq> X"
    using pU pY pS pX root_invD(3) [OF ro] root_invD(1) [OF ro A(1)] Anull by auto
  have rootA: "m_root s \<noteq> A" if "p \<noteq> b2_nullNode" using that proot by simp
  have a12S: "attached s D a1" "attached s D a2" "a1 \<noteq> a2" "a1 = Y \<or> a2 = Y" "a1 = S \<or> a2 = S"
    "a1 \<noteq> b2_nullNode" "a1 \<noteq> U" "a1 \<noteq> A" "a2 \<noteq> U" "a2 \<noteq> A"
    "parent (node s1 a1) = A" "parent (node s1 a2) = A"
    "(a1 = S \<and> a2 = Y) \<or> (a1 = Y \<and> a2 = S)"
    using a12 aS aY Anull by (auto simp: dis P1 pS)
  have links1: "links_inv s1 D"
    unfolding links_inv_def
  proof (intro allI impI)
    fix i assume "attached s1 D i"
    then have a: "attached s D i" by (simp add: att)
    note Li = links_invD [OF l a]
    let ?goal = "(i \<noteq> m_root s1 \<longrightarrow>
           attached s1 D (parent (node s1 i)) \<and>
           (child1 (node s1 (parent (node s1 i))) = i \<or> child2 (node s1 (parent (node s1 i))) = i)) \<and>
        (child1 (node s1 i) = b2_nullNode \<longrightarrow>
           child2 (node s1 i) = b2_nullNode \<and> height (node s1 i) = 0) \<and>
        (child1 (node s1 i) \<noteq> b2_nullNode \<longrightarrow>
           attached s1 D (child1 (node s1 i)) \<and> attached s1 D (child2 (node s1 i)) \<and>
           child1 (node s1 i) \<noteq> child2 (node s1 i) \<and>
           parent (node s1 (child1 (node s1 i))) = i \<and>
           parent (node s1 (child2 (node s1 i))) = i)"
    consider "i = U" | "i = A" | "i = Y" | "i = p" "p \<noteq> b2_nullNode"
      | "i \<noteq> U" "i \<noteq> A" "i \<noteq> Y" "i \<noteq> p"
      using attached_not_null [OF a] by blast
    then show ?goal
    proof cases
      case 1
      show ?thesis
      proof (cases "p = b2_nullNode")
        case True
        then show ?thesis using aX A(1) by (simp add: 1 P1 C1 C2 F1 att dis Anull pX)
      next
        case False
        from ap [OF False] cp [OF False] cpd [OF False] False aX A(1)
        show ?thesis by (auto simp: 1 P1 C1 C2 F1 att dis Anull pX)
      qed
    next
      case 2
      show ?thesis
        using aU a12S by (simp add: 2 P1 C1 C2 F1 att dis Anull)
    next
      case 3
      have nr: "Y \<noteq> m_root s1" using rootY by (simp add: F1 dis)
      have up: "attached s1 D (parent (node s1 Y)) \<and>
           (child1 (node s1 (parent (node s1 Y))) = Y \<or> child2 (node s1 (parent (node s1 Y))) = Y)"
        using A(1) a12S(4) by (simp add: P1 C1 C2 att dis)
      have down: "child1 (node s1 Y) = child1 (node s Y)" "child2 (node s1 Y) = child2 (node s Y)"
        "height (node s1 Y) = height (node s Y)"
        by (simp_all add: C1 C2 H1 dis)
      note LY = links_invD [OF l aY]
      have ch: "attached s1 D (child1 (node s Y)) \<and> attached s1 D (child2 (node s Y)) \<and>
           child1 (node s Y) \<noteq> child2 (node s Y) \<and>
           parent (node s1 (child1 (node s Y))) = Y \<and>
           parent (node s1 (child2 (node s Y))) = Y" if int: "child1 (node s Y) \<noteq> b2_nullNode"
      proof -
        from rank_invD [OF rk aY int] rY rU
        have "child1 (node s Y) \<noteq> U" "child1 (node s Y) \<noteq> A" "child1 (node s Y) \<noteq> Y"
          "child2 (node s Y) \<noteq> U" "child2 (node s Y) \<noteq> A" "child2 (node s Y) \<noteq> Y"
          by auto
        with LY(5-9) [OF int] show ?thesis by (simp add: P1 att)
      qed
      show ?thesis unfolding 3 down using nr up LY(3,4) ch by blast
    next
      case 4
      note Lp = links_invD [OF l ap [OF 4(2)]]
      have pp: "attached s1 D (parent (node s1 p)) \<and>
           (child1 (node s1 (parent (node s1 p))) = p \<or> child2 (node s1 (parent (node s1 p))) = p)"
        if "p \<noteq> m_root s1"
      proof -
        from that 4(2) have nr: "p \<noteq> m_root s" by (simp add: F1)
        let ?q = "parent (node s p)"
        from parent_rank [OF l rk ap [OF 4(2)] nr] rp [OF 4(2)] rU
        have "?q \<noteq> U" "?q \<noteq> A" "?q \<noteq> p" by auto
        with Lp(1,2) [OF nr] show ?thesis by (simp add: P1 C1 C2 att dis)
      qed
      have int: "child1 (node s1 p) \<noteq> b2_nullNode"
        using cpi [OF 4(2)] Anull by (simp add: C1 dis)
      have ch: "attached s1 D (child1 (node s1 p)) \<and> attached s1 D (child2 (node s1 p)) \<and>
           child1 (node s1 p) \<noteq> child2 (node s1 p) \<and>
           parent (node s1 (child1 (node s1 p))) = p \<and>
           parent (node s1 (child2 (node s1 p))) = p"
      proof (cases "child1 (node s p) = A")
        case True
        let ?o = "child2 (node s p)"
        from Lp(6,9) [OF cpi [OF 4(2)]] cpd [OF 4(2)] True pU pY d2
        have "attached s D ?o" "parent (node s ?o) = p" "?o \<noteq> A" "?o \<noteq> U" "?o \<noteq> Y" by auto
        then show ?thesis using True aU 4(2) by (simp add: P1 C1 C2 att dis)
      next
        case False
        let ?o = "child1 (node s p)"
        from False cp [OF 4(2)] have c2: "child2 (node s p) = A" by simp
        from Lp(5,8) [OF cpi [OF 4(2)]] False pU pY d2
        have "attached s D ?o" "parent (node s ?o) = p" "?o \<noteq> A" "?o \<noteq> U" "?o \<noteq> Y" by auto
        then show ?thesis using False aU 4(2) by (simp add: P1 C1 C2 att dis)
      qed
      show ?thesis unfolding 4(1) using pp int ch by blast
    next
      case 5
      have f: "parent (node s1 i) = parent (node s i)" "child1 (node s1 i) = child1 (node s i)"
        "child2 (node s1 i) = child2 (node s i)" "height (node s1 i) = height (node s i)"
        using 5 by (simp_all add: P1 C1 C2 H1)
      have up: "attached s1 D (parent (node s i)) \<and>
           (child1 (node s1 (parent (node s i))) = i \<or> child2 (node s1 (parent (node s i))) = i)"
        if nr1: "i \<noteq> m_root s1"
      proof -
        have nr: "i \<noteq> m_root s" using nr1 proot 5 by (auto simp: F1 split: if_splits)
        let ?q = "parent (node s i)"
        note q = Li(1,2) [OF nr]
        consider "?q = U" | "?q = A" | "?q = p" "p \<noteq> b2_nullNode" | "?q \<noteq> U" "?q \<noteq> A" "?q \<noteq> p"
          using attached_not_null [OF q(1)] by blast
        then show ?thesis
        proof cases
          case 1
          with q(2) XY 5 have "i = X" by auto
          then show ?thesis using 1 q(1) by (simp add: C2 att)
        next
          case 2
          with q(2) AU 5 have "i = S" by auto
          then show ?thesis using 2 q(1) a12S(5) by (simp add: C1 C2 att dis)
        next
          case 3
          with q(2) cp [OF 3(2)] 5 cpd [OF 3(2)] show ?thesis
            using q(1) by (auto simp: C1 C2 att dis)
        next
          case 4
          with q show ?thesis by (simp add: C1 C2 att)
        qed
      qed
      have ch: "attached s1 D (child1 (node s i)) \<and> attached s1 D (child2 (node s i)) \<and>
           child1 (node s i) \<noteq> child2 (node s i) \<and>
           parent (node s1 (child1 (node s i))) = i \<and>
           parent (node s1 (child2 (node s i))) = i" if int: "child1 (node s i) \<noteq> b2_nullNode"
      proof -
        from Li(8,9) [OF int] pU pY p(1) 5
        have "child1 (node s i) \<noteq> U" "child1 (node s i) \<noteq> A" "child1 (node s i) \<noteq> Y"
          "child2 (node s i) \<noteq> U" "child2 (node s i) \<noteq> A" "child2 (node s i) \<noteq> Y"
          by auto
        with Li(5-9) [OF int] show ?thesis by (simp add: P1 att)
      qed
      show ?thesis unfolding f using up Li(3,4) ch by blast
    qed
  qed
  have childU: "c \<noteq> U \<and> c \<noteq> A \<and> c \<noteq> Y"
    if "attached s D i" "child1 (node s i) \<noteq> b2_nullNode" "i \<noteq> U" "i \<noteq> A" "i \<noteq> p"
      "c = child1 (node s i) \<or> c = child2 (node s i)" for i c
    using links_invD(8,9) [OF l that(1,2)] that(3-6) pU pY p(1) by auto
  have rank1: "rank_inv s1 D ?r1"
    unfolding rank_inv_def
  proof (intro allI impI)
    fix i assume "attached s1 D i \<and> child1 (node s1 i) \<noteq> b2_nullNode"
    then have a: "attached s D i" and int1: "child1 (node s1 i) \<noteq> b2_nullNode"
      by (simp_all add: att)
    let ?goal = "?r1 (child1 (node s1 i)) < ?r1 i \<and> ?r1 (child2 (node s1 i)) < ?r1 i"
    consider "i = U" | "i = A" | "i = p" "p \<noteq> b2_nullNode"
      | "i \<noteq> U" "i \<noteq> A" "i \<noteq> p"
      using attached_not_null [OF a] by blast
    then show ?goal
    proof cases
      case 1
      then show ?thesis using rS rU rX by (simp add: C1 C2 dis)
    next
      case 2
      then show ?thesis using a12S(13) rS rU rX rY by (auto simp: C1 C2 dis)
    next
      case 3
      note Lp = links_invD [OF l ap [OF 3(2)]]
      note Rp = rank_invD [OF rk ap [OF 3(2)] cpi [OF 3(2)]]
      show ?thesis
      proof (cases "child1 (node s p) = A")
        case True
        let ?o = "child2 (node s p)"
        from Lp(9) [OF cpi [OF 3(2)]] cpd [OF 3(2)] True d2
        have o: "?o \<noteq> A" "?o \<noteq> U" using pU by auto
        show ?thesis unfolding 3(1) using True 3(2) o Rp(2) rp [OF 3(2)]
          by (simp add: C1 C2 dis)
      next
        case False
        let ?o = "child1 (node s p)"
        from Lp(8) [OF cpi [OF 3(2)]] False d2
        have o: "?o \<noteq> A" "?o \<noteq> U" using pU by auto
        show ?thesis unfolding 3(1) using False 3(2) o Rp(1) rp [OF 3(2)]
          by (simp add: C1 C2 dis)
      qed
    next
      case 4
      then have f: "child1 (node s1 i) = child1 (node s i)" "child2 (node s1 i) = child2 (node s i)"
        by (simp_all add: C1 C2)
      from int1 have int: "child1 (node s i) \<noteq> b2_nullNode" by (simp add: f)
      from childU [OF a int 4, of "child1 (node s i)"] childU [OF a int 4, of "child2 (node s i)"]
        rank_invD [OF rk a int] 4
      show ?thesis unfolding f by simp
    qed
  qed
  have exact1: "exact_inv s1 D (insert U (P - {A}))"
    unfolding exact_inv_def
  proof (intro allI impI)
    fix i assume "attached s1 D i \<and> i \<notin> insert U (P - {A}) \<and> child1 (node s1 i) \<noteq> b2_nullNode"
    then have a: "attached s D i" and int1: "child1 (node s1 i) \<noteq> b2_nullNode"
      and iU: "i \<noteq> U" and iP: "i = A \<or> i \<notin> P"
      by (auto simp: att)
    let ?goal = "height (node s1 i) =
          1 + max (height (node s1 (child1 (node s1 i)))) (height (node s1 (child2 (node s1 i)))) \<and>
        aabb (node s1 i) =
          combine (aabb (node s1 (child1 (node s1 i)))) (aabb (node s1 (child2 (node s1 i))))"
    show ?goal
    proof (cases "i = A")
      case True
      from a12S(13) show ?thesis
      proof
        assume "a1 = S \<and> a2 = Y"
        then show ?thesis by (simp add: True C1 C2 H1 B1 dis)
      next
        assume "a1 = Y \<and> a2 = S"
        then show ?thesis by (simp add: True C1 C2 H1 B1 dis combine_commute max.commute)
      qed
    next
      case False
      with iP have nP: "i \<notin> P" by simp
      with p(2) attached_not_null [OF a] have ip: "i \<noteq> p" by auto
      have f: "child1 (node s1 i) = child1 (node s i)" "child2 (node s1 i) = child2 (node s i)"
        "height (node s1 i) = height (node s i)" "aabb (node s1 i) = aabb (node s i)"
        using iU False ip by (simp_all add: C1 C2 H1 B1)
      from int1 have int: "child1 (node s i) \<noteq> b2_nullNode" by (simp add: f)
      from ex a nP int have e: "height (node s i) =
          1 + max (height (node s (child1 (node s i)))) (height (node s (child2 (node s i)))) \<and>
        aabb (node s i) =
          combine (aabb (node s (child1 (node s i)))) (aabb (node s (child2 (node s i))))"
        by (simp add: exact_inv_def)
      from childU [OF a int iU False ip, of "child1 (node s i)"]
        childU [OF a int iU False ip, of "child2 (node s i)"] e
      show ?thesis unfolding f by (simp add: H1 B1)
    qed
  qed
  show ?thesis using pool1 links1 rank1 exact1 root1 det1 by (simp add: tinv_def)
qed

section \<open>Balancing keeps the shape\<close>

lemma tinv_mono_P: "tinv s D P r \<Longrightarrow> P \<subseteq> P1 \<Longrightarrow> tinv s D P1 r"
  unfolding tinv_def exact_inv_def by blast

lemma leaf_height0: "links_inv s D \<Longrightarrow> attached s D i \<Longrightarrow> 0 < height (node s i) \<Longrightarrow>
    child1 (node s i) \<noteq> b2_nullNode"
  using links_invD(4) by fastforce

lemma Balance_tinv:
  fixes r :: "int \<Rightarrow> real"
  assumes t: "tinv s D P r" and A: "attached s D A"
    and pP: "parent (node s A) = b2_nullNode \<or> parent (node s A) \<in> P"
  shows "\<exists>s1 i1 r1. Balance s A = Inr (s1, i1) \<and> tinv s1 D (insert i1 (P - {A})) r1 \<and>
     attached s1 D i1 \<and> parent (node s1 i1) = parent (node s A) \<and>
     (child1 (node s A) \<noteq> b2_nullNode \<longrightarrow> child1 (node s1 i1) \<noteq> b2_nullNode) \<and>
     (\<forall>j. r A < r j \<longrightarrow> parent (node s1 j) = parent (node s j)) \<and>
     m_insertionCount s1 = m_insertionCount s"
proof -
  from t have pool: "pool_inv s" and l: "links_inv s D" and rk: "rank_inv s D r"
    and ex: "exact_inv s D P" and ro: "root_inv s D" and det: "detached_inv s D"
    by (auto simp: tinv_def)
  have Ar: "in_range s A" "A \<noteq> b2_nullNode"
    using A by (auto simp: attached_def allocated_def)
  have same: ?thesis if "Balance s A = Inr (s, A)"
  proof -
    have "tinv s D (insert A (P - {A})) r" by (rule tinv_mono_P [OF t]) auto
    with that A show ?thesis by (intro exI [of _ s] exI [of _ A] exI [of _ r]) simp
  qed
  show ?thesis
  proof (cases "IsLeaf (node s A) \<or> height (node s A) < 2")
    case True
    then have "Balance s A = Inr (s, A)" using Ar by (auto simp: Balance_def)
    then show ?thesis by (rule same)
  next
    case False
    then have int: "child1 (node s A) \<noteq> b2_nullNode" by (simp add: IsLeaf_def)
    define B where "B = child1 (node s A)"
    define C where "C = child2 (node s A)"
    define p where "p = parent (node s A)"
    note LA = links_invD [OF l A]
    have aB: "attached s D B" and aC: "attached s D C" and BC: "B \<noteq> C"
      and pB: "parent (node s B) = A" and pC: "parent (node s C) = A"
      using LA(5-9) [OF int] by (simp_all add: B_def C_def)
    have rB: "r B < r A" and rC: "r C < r A"
      using rank_invD [OF rk A int] by (simp_all add: B_def C_def)
    have Br: "in_range s B" "in_range s C" "0 \<le> height (node s B)" "0 \<le> height (node s C)"
      using aB aC by (auto simp: attached_def allocated_def)
    have proot: "p = b2_nullNode \<longleftrightarrow> A = m_root s"
      unfolding p_def by (rule parent_null_root [OF l ro A])
    have ap: "attached s D p" and cp: "child1 (node s p) = A \<or> child2 (node s p) = A"
      and rp: "r A < r p" if "p \<noteq> b2_nullNode"
      using that LA(1,2) proot parent_rank [OF l rk A] by (auto simp: p_def)
    have pr: "p \<noteq> b2_nullNode \<longrightarrow> in_range s p"
      using ap by (auto simp: attached_def allocated_def)
    have cpp: "p \<noteq> b2_nullNode \<longrightarrow> child1 (node s p) = A \<or> child2 (node s p) = A"
      using cp by simp
    have dp: "p \<noteq> A" "p \<noteq> B" "p \<noteq> C"
      using rB rC rp Ar aB aC by (cases "p = b2_nullNode"; force dest: attached_not_null)+
    have dA: "A \<noteq> B" "A \<noteq> C" using rB rC by auto
    have B0: "Balance s A =
        (if height (node s C) - height (node s B) > 1 then rotate_C_up s A B C
         else if height (node s C) - height (node s B) < -1 then rotate_B_up s A B C
         else Inr (s, A))"
      using False Ar Br by (simp add: Balance_def Let_def B_def C_def)
    consider (C) "height (node s C) - height (node s B) > 1"
      | (B) "height (node s C) - height (node s B) < -1"
      | (N) "\<not> height (node s C) - height (node s B) > 1"
            "\<not> height (node s C) - height (node s B) < -1"
      by linarith
    then show ?thesis
    proof cases
      case N
      then have "Balance s A = Inr (s, A)" by (simp add: B0)
      then show ?thesis by (rule same)
    next
      case C
      then have "0 < height (node s C)" using Br by simp
      from leaf_height0 [OF l aC this] have Cint: "child1 (node s C) \<noteq> b2_nullNode" .
      define F where "F = child1 (node s C)"
      define G where "G = child2 (node s C)"
      define X where "X = (if height (node s F) > height (node s G) then F else G)"
      define Y where "Y = (if height (node s F) > height (node s G) then G else F)"
      note LC = links_invD [OF l aC]
      have aF: "attached s D F" and aG: "attached s D G" and FG: "F \<noteq> G"
        and pF: "parent (node s F) = C" and pG: "parent (node s G) = C"
        using LC(5-9) [OF Cint] by (simp_all add: F_def G_def)
      have rF: "r F < r C" and rG: "r G < r C"
        using rank_invD [OF rk aC Cint] by (simp_all add: F_def G_def)
      have Fr: "in_range s F" "in_range s G"
        using aF aG by (auto simp: attached_def allocated_def)
      have XY: "(child1 (node s C) = X \<and> child2 (node s C) = Y) \<or>
             (child1 (node s C) = Y \<and> child2 (node s C) = X)"
        by (auto simp: X_def Y_def F_def G_def)
      have XYFG: "(X = F \<and> Y = G) \<or> (X = G \<and> Y = F)" by (auto simp: X_def Y_def)
      have dF: "A \<noteq> F" "A \<noteq> G" "C \<noteq> F" "C \<noteq> G" "B \<noteq> F" "B \<noteq> G" "p \<noteq> F" "p \<noteq> G"
        using rB rC rF rG rp pB pF pG aF aG by (cases "p = b2_nullNode"; force dest: attached_not_null)+
      have dX: "A \<noteq> X" "A \<noteq> Y" "C \<noteq> X" "C \<noteq> Y" "B \<noteq> X" "B \<noteq> Y" "p \<noteq> X" "p \<noteq> Y" "X \<noteq> Y"
        using XYFG dF FG by auto
      note dis = dp dA BC dX dp [symmetric] dA [symmetric] BC [symmetric] dX [symmetric]
      from swap_up_result [OF dA(2) dp(1) dp(3) pr p_def [symmetric] cpp]
      obtain s4 where s4: "swap_up s A C = Inr s4"
        and n4: "\<And>j. node s4 j =
        (if j = C then (node s C)\<lparr>child1 := A, parent := p\<rparr>
         else if j = A then (node s A)\<lparr>parent := C\<rparr>
         else if j = p \<and> p \<noteq> b2_nullNode then
              (if child1 (node s p) = A then (node s p)\<lparr>child1 := C\<rparr> else (node s p)\<lparr>child2 := C\<rparr>)
         else node s j)"
        and f4: "m_root s4 = (if p = b2_nullNode then C else m_root s)"
          "m_nodeCapacity s4 = m_nodeCapacity s" "m_freeList s4 = m_freeList s"
          "m_nodeCount s4 = m_nodeCount s" "m_insertionCount s4 = m_insertionCount s"
        by blast
      define s1 where "s1 = rotate_C_children s4 A B C X Y"
      from rotate_C_children_result [OF dA(2) dX(1,2,3,4,9) dA(1) [symmetric] BC dX(6), of s4]
      have n1: "\<And>j. node s1 j =
        (if j = C then (node s4 C)\<lparr>child2 := X,
              aabb := combine (combine (aabb (node s4 B)) (aabb (node s4 Y))) (aabb (node s4 X)),
              height := 1 + max (1 + max (height (node s4 B)) (height (node s4 Y))) (height (node s4 X))\<rparr>
         else if j = A then (node s4 A)\<lparr>child2 := Y,
              aabb := combine (aabb (node s4 B)) (aabb (node s4 Y)),
              height := 1 + max (height (node s4 B)) (height (node s4 Y))\<rparr>
         else if j = Y then (node s4 Y)\<lparr>parent := A\<rparr>
         else node s4 j)"
        and f1: "m_root s1 = m_root s4" "m_nodeCapacity s1 = m_nodeCapacity s4"
          "m_freeList s1 = m_freeList s4" "m_nodeCount s1 = m_nodeCount s4"
          "m_insertionCount s1 = m_insertionCount s4"
        unfolding s1_def by blast+
      have R: "rotate_C_up s A B C = Inr (s1, C)"
      proof -
        have h4: "height (node s4 F) = height (node s F)" "height (node s4 G) = height (node s G)"
          by (simp_all add: n4 dF [symmetric])
        show ?thesis
          using Fr XYFG
          by (auto simp: rotate_C_up_def Let_def F_def [symmetric] G_def [symmetric] s4 h4 s1_def
              X_def Y_def)
      qed
      have T: "tinv s1 D (insert C (P - {A})) (r(C := r A, A := (max (r B) (r C) + r A) / 2))"
      proof (rule rotation_tinv [OF t A int _ Cint XY p_def _ , where ?a1.0 = B and ?a2.0 = Y])
        show "(child1 (node s A) = B \<and> child2 (node s A) = C) \<or>
             (child1 (node s A) = C \<and> child2 (node s A) = B)"
          by (simp add: B_def C_def)
        show "p = b2_nullNode \<or> p \<in> P" using pP by (simp add: p_def)
        show "(B = B \<and> Y = Y) \<or> (B = Y \<and> Y = B)" by simp
        show "parent (node s1 j) =
           (if j = C then p else if j = A then C else if j = Y then A else parent (node s j))" for j
          by (simp add: n1 n4 dis)
        show "child1 (node s1 j) =
           (if j = C then A else if j = A then B
            else if j = p \<and> p \<noteq> b2_nullNode \<and> child1 (node s p) = A then C
            else child1 (node s j))" for j
          by (simp add: n1 n4 dis B_def [symmetric])
        show "child2 (node s1 j) =
           (if j = C then X else if j = A then Y
            else if j = p \<and> p \<noteq> b2_nullNode \<and> child1 (node s p) \<noteq> A then C
            else child2 (node s j))" for j
          by (simp add: n1 n4 dis)
        show "height (node s1 j) =
           (if j = C then 1 + max (1 + max (height (node s B)) (height (node s Y))) (height (node s X))
            else if j = A then 1 + max (height (node s B)) (height (node s Y))
            else height (node s j))" for j
          by (simp add: n1 n4 dis)
        show "aabb (node s1 j) =
           (if j = C then combine (combine (aabb (node s B)) (aabb (node s Y))) (aabb (node s X))
            else if j = A then combine (aabb (node s B)) (aabb (node s Y))
            else aabb (node s j))" for j
          by (simp add: n1 n4 dis)
      qed (simp_all add: f1 f4)
      have "Balance s A = Inr (s1, C)" using C R by (simp add: B0)
      moreover have "attached s1 D C"
      proof -
        have "0 \<le> height (node s1 C)"
          using Br(3) by (simp add: n1 n4 dis max_def)
        with aC show ?thesis by (simp add: attached_def allocated_def in_range_def f1 f4)
      qed
      moreover have "parent (node s1 C) = parent (node s A)" by (simp add: n1 n4 dis p_def)
      moreover have "child1 (node s1 C) \<noteq> b2_nullNode" using Ar by (simp add: n1 n4 dis)
      moreover have "\<forall>j. r A < r j \<longrightarrow> parent (node s1 j) = parent (node s j)"
      proof (intro allI impI)
        fix j assume "r A < r j"
        with rC rF rG XYFG have "j \<noteq> A" "j \<noteq> C" "j \<noteq> Y" by auto
        then show "parent (node s1 j) = parent (node s j)" by (auto simp: n1 n4)
      qed
      ultimately show ?thesis using T
        by (intro exI [of _ s1] exI [of _ C]
            exI [of _ "r(C := r A, A := (max (r B) (r C) + r A) / 2)"]) (simp add: f1 f4)
    next
      case B
      then have "0 < height (node s B)" using Br by simp
      from leaf_height0 [OF l aB this] have Bint: "child1 (node s B) \<noteq> b2_nullNode" .
      define F where "F = child1 (node s B)"
      define G where "G = child2 (node s B)"
      define X where "X = (if height (node s F) > height (node s G) then F else G)"
      define Y where "Y = (if height (node s F) > height (node s G) then G else F)"
      note LB = links_invD [OF l aB]
      have aF: "attached s D F" and aG: "attached s D G" and FG: "F \<noteq> G"
        and pF: "parent (node s F) = B" and pG: "parent (node s G) = B"
        using LB(5-9) [OF Bint] by (simp_all add: F_def G_def)
      have rF: "r F < r B" and rG: "r G < r B"
        using rank_invD [OF rk aB Bint] by (simp_all add: F_def G_def)
      have Fr: "in_range s F" "in_range s G"
        using aF aG by (auto simp: attached_def allocated_def)
      have XY: "(child1 (node s B) = X \<and> child2 (node s B) = Y) \<or>
             (child1 (node s B) = Y \<and> child2 (node s B) = X)"
        by (auto simp: X_def Y_def F_def G_def)
      have XYFG: "(X = F \<and> Y = G) \<or> (X = G \<and> Y = F)" by (auto simp: X_def Y_def)
      have dF: "A \<noteq> F" "A \<noteq> G" "B \<noteq> F" "B \<noteq> G" "C \<noteq> F" "C \<noteq> G" "p \<noteq> F" "p \<noteq> G"
        using rB rC rF rG rp pC pF pG aF aG by (cases "p = b2_nullNode"; force dest: attached_not_null)+
      have dX: "A \<noteq> X" "A \<noteq> Y" "B \<noteq> X" "B \<noteq> Y" "C \<noteq> X" "C \<noteq> Y" "p \<noteq> X" "p \<noteq> Y" "X \<noteq> Y"
        using XYFG dF FG by auto
      note dis = dp dA BC dX dp [symmetric] dA [symmetric] BC [symmetric] dX [symmetric]
      from swap_up_result [OF dA(1) dp(1) dp(2) pr p_def [symmetric] cpp]
      obtain s4 where s4: "swap_up s A B = Inr s4"
        and n4: "\<And>j. node s4 j =
        (if j = B then (node s B)\<lparr>child1 := A, parent := p\<rparr>
         else if j = A then (node s A)\<lparr>parent := B\<rparr>
         else if j = p \<and> p \<noteq> b2_nullNode then
              (if child1 (node s p) = A then (node s p)\<lparr>child1 := B\<rparr> else (node s p)\<lparr>child2 := B\<rparr>)
         else node s j)"
        and f4: "m_root s4 = (if p = b2_nullNode then B else m_root s)"
          "m_nodeCapacity s4 = m_nodeCapacity s" "m_freeList s4 = m_freeList s"
          "m_nodeCount s4 = m_nodeCount s" "m_insertionCount s4 = m_insertionCount s"
        by blast
      define s1 where "s1 = rotate_B_children s4 A B C X Y"
      from rotate_B_children_result [OF dA(1) dX(1,2,3,4,9) dA(2) [symmetric] BC [symmetric] dX(6), of s4]
      have n1: "\<And>j. node s1 j =
        (if j = B then (node s4 B)\<lparr>child2 := X,
              aabb := combine (combine (aabb (node s4 C)) (aabb (node s4 Y))) (aabb (node s4 X)),
              height := 1 + max (1 + max (height (node s4 C)) (height (node s4 Y))) (height (node s4 X))\<rparr>
         else if j = A then (node s4 A)\<lparr>child1 := Y,
              aabb := combine (aabb (node s4 C)) (aabb (node s4 Y)),
              height := 1 + max (height (node s4 C)) (height (node s4 Y))\<rparr>
         else if j = Y then (node s4 Y)\<lparr>parent := A\<rparr>
         else node s4 j)"
        and f1: "m_root s1 = m_root s4" "m_nodeCapacity s1 = m_nodeCapacity s4"
          "m_freeList s1 = m_freeList s4" "m_nodeCount s1 = m_nodeCount s4"
          "m_insertionCount s1 = m_insertionCount s4"
        unfolding s1_def by blast+
      have R: "rotate_B_up s A B C = Inr (s1, B)"
      proof -
        have h4: "height (node s4 F) = height (node s F)" "height (node s4 G) = height (node s G)"
          by (simp_all add: n4 dF [symmetric])
        show ?thesis
          using Fr XYFG
          by (auto simp: rotate_B_up_def Let_def F_def [symmetric] G_def [symmetric] s4 h4 s1_def
              X_def Y_def)
      qed
      have T: "tinv s1 D (insert B (P - {A})) (r(B := r A, A := (max (r C) (r B) + r A) / 2))"
      proof (rule rotation_tinv [OF t A int _ Bint XY p_def _ , where ?a1.0 = Y and ?a2.0 = C])
        show "(child1 (node s A) = C \<and> child2 (node s A) = B) \<or>
             (child1 (node s A) = B \<and> child2 (node s A) = C)"
          by (simp add: B_def C_def)
        show "p = b2_nullNode \<or> p \<in> P" using pP by (simp add: p_def)
        show "(Y = C \<and> C = Y) \<or> (Y = Y \<and> C = C)" by simp
        show "parent (node s1 j) =
           (if j = B then p else if j = A then B else if j = Y then A else parent (node s j))" for j
          by (simp add: n1 n4 dis)
        show "child1 (node s1 j) =
           (if j = B then A else if j = A then Y
            else if j = p \<and> p \<noteq> b2_nullNode \<and> child1 (node s p) = A then B
            else child1 (node s j))" for j
          by (simp add: n1 n4 dis)
        show "child2 (node s1 j) =
           (if j = B then X else if j = A then C
            else if j = p \<and> p \<noteq> b2_nullNode \<and> child1 (node s p) \<noteq> A then B
            else child2 (node s j))" for j
          by (simp add: n1 n4 dis C_def [symmetric])
        show "height (node s1 j) =
           (if j = B then 1 + max (1 + max (height (node s C)) (height (node s Y))) (height (node s X))
            else if j = A then 1 + max (height (node s C)) (height (node s Y))
            else height (node s j))" for j
          by (simp add: n1 n4 dis)
        show "aabb (node s1 j) =
           (if j = B then combine (combine (aabb (node s C)) (aabb (node s Y))) (aabb (node s X))
            else if j = A then combine (aabb (node s C)) (aabb (node s Y))
            else aabb (node s j))" for j
          by (simp add: n1 n4 dis)
      qed (simp_all add: f1 f4)
      have "Balance s A = Inr (s1, B)" using B R by (simp add: B0)
      moreover have "attached s1 D B"
      proof -
        have "0 \<le> height (node s1 B)"
          using Br(4) by (simp add: n1 n4 dis max_def)
        with aB show ?thesis by (simp add: attached_def allocated_def in_range_def f1 f4)
      qed
      moreover have "parent (node s1 B) = parent (node s A)" by (simp add: n1 n4 dis p_def)
      moreover have "child1 (node s1 B) \<noteq> b2_nullNode" using Ar by (simp add: n1 n4 dis)
      moreover have "\<forall>j. r A < r j \<longrightarrow> parent (node s1 j) = parent (node s j)"
      proof (intro allI impI)
        fix j assume "r A < r j"
        with rB rF rG XYFG have "j \<noteq> A" "j \<noteq> B" "j \<noteq> Y" by auto
        then show "parent (node s1 j) = parent (node s j)" by (auto simp: n1 n4)
      qed
      ultimately show ?thesis using T
        by (intro exI [of _ s1] exI [of _ B]
            exI [of _ "r(B := r A, A := (max (r C) (r B) + r A) / 2)"]) (simp add: f1 f4)
    qed
  qed
qed

section \<open>One step of the walk\<close>

lemma fix_tinv:
  fixes r :: "int \<Rightarrow> real"
  assumes t: "tinv s1 D P r" and a: "attached s1 D i"
    and int: "child1 (node s1 i) \<noteq> b2_nullNode"
    and pP: "parent (node s1 i) = b2_nullNode \<or> parent (node s1 i) \<in> P"
    and P3: "\<And>j. parent (node s3 j) = parent (node s1 j)"
    and C31: "\<And>j. child1 (node s3 j) = child1 (node s1 j)"
    and C32: "\<And>j. child2 (node s3 j) = child2 (node s1 j)"
    and H3: "\<And>j. height (node s3 j) =
        (if j = i then 1 + max (height (node s1 (child1 (node s1 i))))
                              (height (node s1 (child2 (node s1 i))))
         else height (node s1 j))"
    and B3: "\<And>j. aabb (node s3 j) =
        (if j = i then combine (aabb (node s1 (child1 (node s1 i))))
                              (aabb (node s1 (child2 (node s1 i))))
         else aabb (node s1 j))"
    and F3: "m_nodeCapacity s3 = m_nodeCapacity s1" "m_freeList s3 = m_freeList s1"
      "m_nodeCount s3 = m_nodeCount s1" "m_root s3 = m_root s1"
  shows "tinv s3 D (P - {i}) r"
proof -
  from t have pool: "pool_inv s1" and l: "links_inv s1 D" and rk: "rank_inv s1 D r"
    and ex: "exact_inv s1 D P" and ro: "root_inv s1 D" and det: "detached_inv s1 D"
    by (auto simp: tinv_def)
  note Li = links_invD [OF l a]
  let ?c1 = "child1 (node s1 i)" and ?c2 = "child2 (node s1 i)"
  have a1: "attached s1 D ?c1" and a2: "attached s1 D ?c2"
    and p1: "parent (node s1 ?c1) = i" and p2: "parent (node s1 ?c2) = i"
    using Li(5,6,8,9) [OF int] by auto
  have r1: "r ?c1 < r i" and r2: "r ?c2 < r i" using rank_invD [OF rk a int] by auto
  have ci: "?c1 \<noteq> i" "?c2 \<noteq> i" using r1 r2 by auto
  have h1: "0 \<le> height (node s1 ?c1)" and h2: "0 \<le> height (node s1 ?c2)"
    using a1 a2 by (auto simp: attached_def allocated_def)
  have ir: "in_range s3 j = in_range s1 j" for j by (simp add: in_range_def F3)
  have att: "attached s3 D j \<longleftrightarrow> attached s1 D j" for j
    using a h1 h2 by (auto simp: attached_def allocated_def ir H3)
  have pool3: "pool_inv s3"
  proof (rule pool_inv_frame [OF pool F3(1-3)])
    fix j assume "in_range s1 j"
    show "(height (node s1 j) = - 1 \<longrightarrow>
          height (node s3 j) = - 1 \<and> next (node s3 j) = next (node s1 j)) \<and>
         (0 \<le> height (node s1 j) \<longrightarrow> 0 \<le> height (node s3 j))"
      using a h1 h2 by (auto simp: attached_def allocated_def H3 P3)
  qed
  have det3: "detached_inv s3 D"
    unfolding detached_inv_def
  proof
    fix j assume j: "j \<in> D"
    with a have "j \<noteq> i" by (auto simp: attached_def)
    with det j show "allocated s3 j \<and> child1 (node s3 j) = b2_nullNode \<and>
        child2 (node s3 j) = b2_nullNode \<and> height (node s3 j) = 0"
      by (simp add: detached_inv_def allocated_def ir H3 C31 C32)
  qed
  have root3: "root_inv s3 D"
    using ro by (simp add: root_inv_def att F3 P3)
  have links3: "links_inv s3 D"
    unfolding links_inv_def
  proof (intro allI impI)
    fix j assume "attached s3 D j"
    then have aj: "attached s1 D j" by (simp add: att)
    note Lj = links_invD [OF l aj]
    have "child1 (node s1 j) = b2_nullNode \<Longrightarrow> j \<noteq> i" using int by auto
    then show "(j \<noteq> m_root s3 \<longrightarrow>
           attached s3 D (parent (node s3 j)) \<and>
           (child1 (node s3 (parent (node s3 j))) = j \<or> child2 (node s3 (parent (node s3 j))) = j)) \<and>
        (child1 (node s3 j) = b2_nullNode \<longrightarrow>
           child2 (node s3 j) = b2_nullNode \<and> height (node s3 j) = 0) \<and>
        (child1 (node s3 j) \<noteq> b2_nullNode \<longrightarrow>
           attached s3 D (child1 (node s3 j)) \<and> attached s3 D (child2 (node s3 j)) \<and>
           child1 (node s3 j) \<noteq> child2 (node s3 j) \<and>
           parent (node s3 (child1 (node s3 j))) = j \<and>
           parent (node s3 (child2 (node s3 j))) = j)"
      using Lj by (simp add: att F3 P3 C31 C32 H3)
  qed
  have rank3: "rank_inv s3 D r"
    using rk by (simp add: rank_inv_def att C31 C32)
  have exact3: "exact_inv s3 D (P - {i})"
    unfolding exact_inv_def
  proof (intro allI impI)
    fix j assume "attached s3 D j \<and> j \<notin> P - {i} \<and> child1 (node s3 j) \<noteq> b2_nullNode"
    then have aj: "attached s1 D j" and jP: "j = i \<or> j \<notin> P"
      and cj: "child1 (node s1 j) \<noteq> b2_nullNode"
      by (auto simp: att C31)
    show "height (node s3 j) =
          1 + max (height (node s3 (child1 (node s3 j)))) (height (node s3 (child2 (node s3 j)))) \<and>
        aabb (node s3 j) =
          combine (aabb (node s3 (child1 (node s3 j)))) (aabb (node s3 (child2 (node s3 j))))"
    proof (cases "j = i")
      case True
      then show ?thesis by (simp add: H3 B3 C31 C32 ci)
    next
      case False
      with jP have jnP: "j \<notin> P" by simp
      note Lj = links_invD [OF l aj]
      have "parent (node s1 (child1 (node s1 j))) = j" "parent (node s1 (child2 (node s1 j))) = j"
        using Lj(8,9) [OF cj] by auto
      moreover have "parent (node s1 i) \<noteq> j"
        using pP jnP aj by (auto dest: attached_not_null)
      ultimately have "child1 (node s1 j) \<noteq> i" "child2 (node s1 j) \<noteq> i" by auto
      moreover from ex aj jnP cj have "height (node s1 j) =
          1 + max (height (node s1 (child1 (node s1 j)))) (height (node s1 (child2 (node s1 j)))) \<and>
        aabb (node s1 j) =
          combine (aabb (node s1 (child1 (node s1 j)))) (aabb (node s1 (child2 (node s1 j))))"
        unfolding exact_inv_def by blast
      ultimately show ?thesis using False by (simp add: H3 B3 C31 C32)
    qed
  qed
  show ?thesis
    unfolding tinv_def using pool3 links3 rank3 exact3 root3 det3 by simp
qed

lemma fix_step:
  fixes r :: "int \<Rightarrow> real"
  assumes t: "tinv s D P r" and A: "attached s D A"
    and int: "child1 (node s A) \<noteq> b2_nullNode"
    and pP: "parent (node s A) = b2_nullNode \<or> parent (node s A) \<in> P"
  shows "\<exists>s1 i1 r1. Balance s A = Inr (s1, i1) \<and> in_range s1 i1 \<and>
     child1 (node s1 i1) \<noteq> b2_nullNode \<and> child2 (node s1 i1) \<noteq> b2_nullNode \<and>
     in_range s1 (child1 (node s1 i1)) \<and> in_range s1 (child2 (node s1 i1)) \<and>
     child1 (node s1 i1) \<noteq> i1 \<and> child2 (node s1 i1) \<noteq> i1 \<and>
     parent (node s1 i1) = parent (node s A) \<and>
     (\<forall>j. r A < r j \<longrightarrow> parent (node s1 j) = parent (node s j)) \<and>
     m_insertionCount s1 = m_insertionCount s \<and>
     (parent (node s A) \<noteq> b2_nullNode \<longrightarrow>
        attached s1 D (parent (node s A)) \<and> child1 (node s1 (parent (node s A))) \<noteq> b2_nullNode) \<and>
     (\<forall>s3. (\<forall>j. parent (node s3 j) = parent (node s1 j)) \<longrightarrow>
           (\<forall>j. child1 (node s3 j) = child1 (node s1 j)) \<longrightarrow>
           (\<forall>j. child2 (node s3 j) = child2 (node s1 j)) \<longrightarrow>
           (\<forall>j. height (node s3 j) =
              (if j = i1 then 1 + max (height (node s1 (child1 (node s1 i1))))
                              (height (node s1 (child2 (node s1 i1))))
               else height (node s1 j))) \<longrightarrow>
           (\<forall>j. aabb (node s3 j) =
              (if j = i1 then combine (aabb (node s1 (child1 (node s1 i1))))
                              (aabb (node s1 (child2 (node s1 i1))))
               else aabb (node s1 j))) \<longrightarrow>
           m_nodeCapacity s3 = m_nodeCapacity s1 \<longrightarrow> m_freeList s3 = m_freeList s1 \<longrightarrow>
           m_nodeCount s3 = m_nodeCount s1 \<longrightarrow> m_root s3 = m_root s1 \<longrightarrow>
           tinv s3 D (P - {A}) r1 \<and>
           (parent (node s A) \<noteq> b2_nullNode \<longrightarrow> attached s3 D (parent (node s A))))"
proof -
  let ?p = "parent (node s A)"
  from t have l: "links_inv s D" and rk: "rank_inv s D r" and ro: "root_inv s D"
    by (auto simp: tinv_def)
  have pA: "?p \<noteq> A"
  proof (cases "?p = b2_nullNode")
    case True
    with A show ?thesis by (auto dest: attached_not_null)
  next
    case False
    then have "A \<noteq> m_root s" using parent_null_root [OF l ro A] by simp
    from parent_rank [OF l rk A this] show ?thesis by auto
  qed
  from Balance_tinv [OF t A pP] obtain s1 i1 r1 where
    B: "Balance s A = Inr (s1, i1)" and t1: "tinv s1 D (insert i1 (P - {A})) r1"
    and a1: "attached s1 D i1" and p1: "parent (node s1 i1) = ?p"
    and c1: "child1 (node s1 i1) \<noteq> b2_nullNode"
    and par: "\<forall>j. r A < r j \<longrightarrow> parent (node s1 j) = parent (node s j)"
    and ic: "m_insertionCount s1 = m_insertionCount s"
    using int by blast
  from t1 have l1: "links_inv s1 D" and rk1: "rank_inv s1 D r1" and ro1: "root_inv s1 D"
    by (auto simp: tinv_def)
  note L1 = links_invD [OF l1 a1]
  have ch: "attached s1 D (child1 (node s1 i1))" "attached s1 D (child2 (node s1 i1))"
    using L1(5,6) [OF c1] by auto
  have rr: "r1 (child1 (node s1 i1)) < r1 i1" "r1 (child2 (node s1 i1)) < r1 i1"
    using rank_invD [OF rk1 a1 c1] by auto
  have i1n: "i1 \<noteq> b2_nullNode" using a1 by (rule attached_not_null)
  have pp: "attached s1 D ?p \<and> child1 (node s1 ?p) \<noteq> b2_nullNode" if "?p \<noteq> b2_nullNode"
  proof -
    from that p1 have nr: "i1 \<noteq> m_root s1" using parent_null_root [OF l1 ro1 a1] by simp
    from L1(1,2) [OF nr] p1 have ap: "attached s1 D ?p"
      and c: "child1 (node s1 ?p) = i1 \<or> child2 (node s1 ?p) = i1" by auto
    from c i1n links_invD(3) [OF l1 ap] have "child1 (node s1 ?p) \<noteq> b2_nullNode" by auto
    with ap show ?thesis by simp
  qed
  have fin: "tinv s3 D (P - {A}) r1 \<and> (?p \<noteq> b2_nullNode \<longrightarrow> attached s3 D ?p)"
    if P3: "\<And>j. parent (node s3 j) = parent (node s1 j)"
    and C31: "\<And>j. child1 (node s3 j) = child1 (node s1 j)"
    and C32: "\<And>j. child2 (node s3 j) = child2 (node s1 j)"
    and H3: "\<And>j. height (node s3 j) =
        (if j = i1 then 1 + max (height (node s1 (child1 (node s1 i1))))
                              (height (node s1 (child2 (node s1 i1))))
         else height (node s1 j))"
    and B3: "\<And>j. aabb (node s3 j) =
        (if j = i1 then combine (aabb (node s1 (child1 (node s1 i1))))
                              (aabb (node s1 (child2 (node s1 i1))))
         else aabb (node s1 j))"
    and F3: "m_nodeCapacity s3 = m_nodeCapacity s1" "m_freeList s3 = m_freeList s1"
      "m_nodeCount s3 = m_nodeCount s1" "m_root s3 = m_root s1"
    for s3
  proof -
    have "parent (node s1 i1) = b2_nullNode \<or> parent (node s1 i1) \<in> insert i1 (P - {A})"
      using pP pA p1 by auto
    from fix_tinv [OF t1 a1 c1 this P3 C31 C32 H3 B3 F3]
    have "tinv s3 D (insert i1 (P - {A}) - {i1}) r1" .
    then have T: "tinv s3 D (P - {A}) r1" by (rule tinv_mono_P) auto
    have "attached s3 D ?p" if "?p \<noteq> b2_nullNode"
    proof -
      from pp [OF that] have ap: "attached s1 D ?p" by simp
      have "0 \<le> height (node s3 ?p)"
        using ap ch by (auto simp: H3 attached_def allocated_def)
      with ap show ?thesis by (simp add: attached_def allocated_def in_range_def F3)
    qed
    with T show ?thesis by simp
  qed
  show ?thesis
    apply (intro exI [of _ s1] exI [of _ i1] exI [of _ r1] conjI)
    subgoal by (rule B)
    subgoal using a1 by (rule tinv_attached_in_range)
    subgoal by (rule c1)
    subgoal using ch(2) by (rule attached_not_null)
    subgoal using ch(1) by (rule tinv_attached_in_range)
    subgoal using ch(2) by (rule tinv_attached_in_range)
    subgoal using rr by auto
    subgoal using rr by auto
    subgoal by (rule p1)
    subgoal by (rule par)
    subgoal by (rule ic)
    subgoal using pp by simp
    subgoal using fin by blast
    done
qed

lemma insert_fix_tinv:
  fixes r :: "int \<Rightarrow> real"
  assumes t: "tinv s D P r" and A: "attached s D A"
    and int: "child1 (node s A) \<noteq> b2_nullNode"
    and pP: "parent (node s A) = b2_nullNode \<or> parent (node s A) \<in> P"
  shows "\<exists>s3 r1. insert_fix s A = Inr (s3, parent (node s A)) \<and> tinv s3 D (P - {A}) r1 \<and>
     (\<forall>j. r A < r j \<longrightarrow> parent (node s3 j) = parent (node s j)) \<and>
     m_insertionCount s3 = m_insertionCount s \<and>
     (parent (node s A) \<noteq> b2_nullNode \<longrightarrow>
        attached s3 D (parent (node s A)) \<and> child1 (node s3 (parent (node s A))) \<noteq> b2_nullNode)"
proof -
  from fix_step [OF t A int pP] obtain s1 i1 r1 where
    B: "Balance s A = Inr (s1, i1)" and ir: "in_range s1 i1"
    and c: "child1 (node s1 i1) \<noteq> b2_nullNode" "child2 (node s1 i1) \<noteq> b2_nullNode"
      "in_range s1 (child1 (node s1 i1))" "in_range s1 (child2 (node s1 i1))"
    and d: "child1 (node s1 i1) \<noteq> i1" "child2 (node s1 i1) \<noteq> i1"
    and p1: "parent (node s1 i1) = parent (node s A)"
    and par: "\<forall>j. r A < r j \<longrightarrow> parent (node s1 j) = parent (node s j)"
    and ic: "m_insertionCount s1 = m_insertionCount s"
    and pp: "parent (node s A) \<noteq> b2_nullNode \<longrightarrow>
        attached s1 D (parent (node s A)) \<and> child1 (node s1 (parent (node s A))) \<noteq> b2_nullNode"
    and fin: "\<And>s3. (\<forall>j. parent (node s3 j) = parent (node s1 j)) \<Longrightarrow>
           (\<forall>j. child1 (node s3 j) = child1 (node s1 j)) \<Longrightarrow>
           (\<forall>j. child2 (node s3 j) = child2 (node s1 j)) \<Longrightarrow>
           (\<forall>j. height (node s3 j) =
              (if j = i1 then 1 + max (height (node s1 (child1 (node s1 i1))))
                              (height (node s1 (child2 (node s1 i1))))
               else height (node s1 j))) \<Longrightarrow>
           (\<forall>j. aabb (node s3 j) =
              (if j = i1 then combine (aabb (node s1 (child1 (node s1 i1))))
                              (aabb (node s1 (child2 (node s1 i1))))
               else aabb (node s1 j))) \<Longrightarrow>
           m_nodeCapacity s3 = m_nodeCapacity s1 \<Longrightarrow> m_freeList s3 = m_freeList s1 \<Longrightarrow>
           m_nodeCount s3 = m_nodeCount s1 \<Longrightarrow> m_root s3 = m_root s1 \<Longrightarrow>
           tinv s3 D (P - {A}) r1 \<and>
           (parent (node s A) \<noteq> b2_nullNode \<longrightarrow> attached s3 D (parent (node s A)))"
    by blast
  define s3 where "s3 = upd (upd s1 i1
      (\<lambda>n. n\<lparr>height := 1 + max (height (node s1 (child1 (node s1 i1))))
                               (height (node s1 (child2 (node s1 i1))))\<rparr>)) i1
      (\<lambda>n. n\<lparr>aabb := combine (aabb (node s1 (child1 (node s1 i1))))
                               (aabb (node s1 (child2 (node s1 i1))))\<rparr>)"
  have E: "insert_fix s A = Inr (s3, parent (node s A))"
    using ir c d by (simp add: insert_fix_def B Let_def s3_def p1)
  have T: "tinv s3 D (P - {A}) r1 \<and>
           (parent (node s A) \<noteq> b2_nullNode \<longrightarrow> attached s3 D (parent (node s A)))"
    by (rule fin) (simp_all add: s3_def)
  have "\<forall>j. r A < r j \<longrightarrow> parent (node s3 j) = parent (node s j)"
    using par by (simp add: s3_def)
  moreover have "m_insertionCount s3 = m_insertionCount s" using ic by (simp add: s3_def)
  moreover have "parent (node s A) \<noteq> b2_nullNode \<longrightarrow>
        child1 (node s3 (parent (node s A))) \<noteq> b2_nullNode"
    using pp c(1) by (simp add: s3_def)
  ultimately show ?thesis using E T by blast
qed

lemma remove_fix_tinv:
  fixes r :: "int \<Rightarrow> real"
  assumes t: "tinv s D P r" and A: "attached s D A"
    and int: "child1 (node s A) \<noteq> b2_nullNode"
    and pP: "parent (node s A) = b2_nullNode \<or> parent (node s A) \<in> P"
  shows "\<exists>s3 r1. remove_fix s A = Inr (s3, parent (node s A)) \<and> tinv s3 D (P - {A}) r1 \<and>
     (\<forall>j. r A < r j \<longrightarrow> parent (node s3 j) = parent (node s j)) \<and>
     m_insertionCount s3 = m_insertionCount s \<and>
     (parent (node s A) \<noteq> b2_nullNode \<longrightarrow>
        attached s3 D (parent (node s A)) \<and> child1 (node s3 (parent (node s A))) \<noteq> b2_nullNode)"
proof -
  from fix_step [OF t A int pP] obtain s1 i1 r1 where
    B: "Balance s A = Inr (s1, i1)" and ir: "in_range s1 i1"
    and c: "child1 (node s1 i1) \<noteq> b2_nullNode" "child2 (node s1 i1) \<noteq> b2_nullNode"
      "in_range s1 (child1 (node s1 i1))" "in_range s1 (child2 (node s1 i1))"
    and d: "child1 (node s1 i1) \<noteq> i1" "child2 (node s1 i1) \<noteq> i1"
    and p1: "parent (node s1 i1) = parent (node s A)"
    and par: "\<forall>j. r A < r j \<longrightarrow> parent (node s1 j) = parent (node s j)"
    and ic: "m_insertionCount s1 = m_insertionCount s"
    and pp: "parent (node s A) \<noteq> b2_nullNode \<longrightarrow>
        attached s1 D (parent (node s A)) \<and> child1 (node s1 (parent (node s A))) \<noteq> b2_nullNode"
    and fin: "\<And>s3. (\<forall>j. parent (node s3 j) = parent (node s1 j)) \<Longrightarrow>
           (\<forall>j. child1 (node s3 j) = child1 (node s1 j)) \<Longrightarrow>
           (\<forall>j. child2 (node s3 j) = child2 (node s1 j)) \<Longrightarrow>
           (\<forall>j. height (node s3 j) =
              (if j = i1 then 1 + max (height (node s1 (child1 (node s1 i1))))
                              (height (node s1 (child2 (node s1 i1))))
               else height (node s1 j))) \<Longrightarrow>
           (\<forall>j. aabb (node s3 j) =
              (if j = i1 then combine (aabb (node s1 (child1 (node s1 i1))))
                              (aabb (node s1 (child2 (node s1 i1))))
               else aabb (node s1 j))) \<Longrightarrow>
           m_nodeCapacity s3 = m_nodeCapacity s1 \<Longrightarrow> m_freeList s3 = m_freeList s1 \<Longrightarrow>
           m_nodeCount s3 = m_nodeCount s1 \<Longrightarrow> m_root s3 = m_root s1 \<Longrightarrow>
           tinv s3 D (P - {A}) r1 \<and>
           (parent (node s A) \<noteq> b2_nullNode \<longrightarrow> attached s3 D (parent (node s A)))"
    by blast
  define s3 where "s3 = upd (upd s1 i1
      (\<lambda>n. n\<lparr>aabb := combine (aabb (node s1 (child1 (node s1 i1))))
                               (aabb (node s1 (child2 (node s1 i1))))\<rparr>)) i1
      (\<lambda>n. n\<lparr>height := 1 + max (height (node s1 (child1 (node s1 i1))))
                               (height (node s1 (child2 (node s1 i1))))\<rparr>)"
  have E: "remove_fix s A = Inr (s3, parent (node s A))"
    using ir c d by (simp add: remove_fix_def B Let_def s3_def p1)
  have T: "tinv s3 D (P - {A}) r1 \<and>
           (parent (node s A) \<noteq> b2_nullNode \<longrightarrow> attached s3 D (parent (node s A)))"
    by (rule fin) (simp_all add: s3_def)
  have "\<forall>j. r A < r j \<longrightarrow> parent (node s3 j) = parent (node s j)"
    using par by (simp add: s3_def)
  moreover have "m_insertionCount s3 = m_insertionCount s" using ic by (simp add: s3_def)
  moreover have "parent (node s A) \<noteq> b2_nullNode \<longrightarrow>
        child1 (node s3 (parent (node s A))) \<noteq> b2_nullNode"
    using pp c(1) by (simp add: s3_def)
  ultimately show ?thesis using E T by blast
qed

section \<open>The walk to the root\<close>

lemma anc_chain_exists:
  fixes r :: "int \<Rightarrow> real"
  assumes l: "links_inv s D" and rk: "rank_inv s D r" and ro: "root_inv s D"
  shows "attached s D i \<Longrightarrow> \<exists>xs. anc_chain s i xs"
proof (induction "card {j. attached s D j \<and> r i < r j}" arbitrary: i rule: less_induct)
  case less
  have fin: "finite {j. attached s D j \<and> r k < r j}" for k
  proof (rule finite_subset)
    show "{j. attached s D j \<and> r k < r j} \<subseteq> {0..<m_nodeCapacity s}"
      by (auto simp: attached_def allocated_def in_range_def)
  qed simp
  show ?case
  proof (cases "i = m_root s")
    case True
    then have "parent (node s i) = b2_nullNode"
      using parent_null_root [OF l ro less.prems] by simp
    then have "anc_chain s i [i]" using less.prems by (auto dest: attached_not_null)
    then show ?thesis ..
  next
    case False
    let ?p = "parent (node s i)"
    have ap: "attached s D ?p" using links_invD(1) [OF l less.prems False] .
    have rp: "r i < r ?p" using parent_rank [OF l rk less.prems False] .
    have "{j. attached s D j \<and> r ?p < r j} \<subset> {j. attached s D j \<and> r i < r j}"
      using ap rp by auto
    then have "card {j. attached s D j \<and> r ?p < r j} < card {j. attached s D j \<and> r i < r j}"
      by (rule psubset_card_mono [OF fin])
    from less.hyps [OF this ap] obtain xs where "anc_chain s ?p xs" ..
    then have "anc_chain s i (i # xs)" using less.prems by (auto dest: attached_not_null)
    then show ?thesis ..
  qed
qed

lemma anc_chain_rank:
  fixes r :: "int \<Rightarrow> real"
  assumes l: "links_inv s D" and rk: "rank_inv s D r" and ro: "root_inv s D"
  shows "anc_chain s i xs \<Longrightarrow> attached s D i \<Longrightarrow> x \<in> set (tl xs) \<Longrightarrow> r i < r x \<and> attached s D x"
proof (induction xs arbitrary: i)
  case Nil
  then show ?case by simp
next
  case (Cons y ys)
  then have i: "i = y" and c: "anc_chain s (parent (node s i)) ys" and x: "x \<in> set ys" by auto
  from x obtain z zs where ys: "ys = z # zs" by (cases ys) auto
  with c have z: "z = parent (node s i)" "parent (node s i) \<noteq> b2_nullNode" by auto
  then have nr: "i \<noteq> m_root s" using parent_null_root [OF l ro Cons.prems(2)] by simp
  have ap: "attached s D (parent (node s i))" using links_invD(1) [OF l Cons.prems(2) nr] .
  have rp: "r i < r (parent (node s i))" using parent_rank [OF l rk Cons.prems(2) nr] .
  show ?case
  proof (cases "x = z")
    case True
    with ap rp z show ?thesis by simp
  next
    case False
    with x ys have "x \<in> set (tl ys)" by simp
    from Cons.IH [OF c ap this] rp show ?thesis by simp
  qed
qed

lemma anc_chain_same:
  "anc_chain s i xs \<Longrightarrow> (\<And>x. x \<in> set xs \<Longrightarrow> parent (node s1 x) = parent (node s x)) \<Longrightarrow>
     anc_chain s1 i xs"
  by (induction xs arbitrary: i) auto

lemma walk_up_tinv:
  fixes r :: "int \<Rightarrow> real"
  assumes body: "\<And>s P (r :: int \<Rightarrow> real) A. tinv s D P r \<Longrightarrow> attached s D A \<Longrightarrow>
      child1 (node s A) \<noteq> b2_nullNode \<Longrightarrow>
      parent (node s A) = b2_nullNode \<or> parent (node s A) \<in> P \<Longrightarrow>
      \<exists>s3 r1. body s A = Inr (s3, parent (node s A)) \<and> tinv s3 D (P - {A}) r1 \<and>
       (\<forall>j. r A < r j \<longrightarrow> parent (node s3 j) = parent (node s j)) \<and>
       m_insertionCount s3 = m_insertionCount s \<and>
       (parent (node s A) \<noteq> b2_nullNode \<longrightarrow>
          attached s3 D (parent (node s A)) \<and> child1 (node s3 (parent (node s A))) \<noteq> b2_nullNode)"
  shows "anc_chain s A xs \<Longrightarrow> tinv s D (set xs) r \<Longrightarrow>
     (A \<noteq> b2_nullNode \<longrightarrow> attached s D A \<and> child1 (node s A) \<noteq> b2_nullNode) \<Longrightarrow>
     \<exists>s1 r1. walk_up body s A = Some (Inr s1) \<and> tinv s1 D {} r1 \<and>
        m_insertionCount s1 = m_insertionCount s"
proof (induction xs arbitrary: s A r)
  case Nil
  then have "A = b2_nullNode" by simp
  then have "walk_up body s A = Some (Inr s)" by (subst walk_up.simps) simp
  with Nil(2) show ?case by auto
next
  case (Cons x xs)
  let ?p = "parent (node s A)"
  from Cons.prems(1) have A: "A = x" "A \<noteq> b2_nullNode" and c: "anc_chain s ?p xs" by auto
  with Cons.prems(3) have a: "attached s D A" and int: "child1 (node s A) \<noteq> b2_nullNode"
    by auto
  from Cons.prems(2) have l: "links_inv s D" and rk: "rank_inv s D r" and ro: "root_inv s D"
    by (auto simp: tinv_def)
  have pP: "?p = b2_nullNode \<or> ?p \<in> set (x # xs)"
    using c by (cases xs) auto
  from body [OF Cons.prems(2) a int pP] obtain s3 r1 where
    B: "body s A = Inr (s3, ?p)" and t3: "tinv s3 D (set (x # xs) - {A}) r1"
    and par: "\<forall>j. r A < r j \<longrightarrow> parent (node s3 j) = parent (node s j)"
    and ic: "m_insertionCount s3 = m_insertionCount s"
    and pp: "?p \<noteq> b2_nullNode \<longrightarrow> attached s3 D ?p \<and> child1 (node s3 ?p) \<noteq> b2_nullNode"
    by blast
  have "set (x # xs) - {A} \<subseteq> set xs" using A(1) by auto
  with t3 have t3': "tinv s3 D (set xs) r1" by (rule tinv_mono_P)
  have c3: "anc_chain s3 ?p xs"
  proof (rule anc_chain_same [OF c])
    fix y assume "y \<in> set xs"
    then have "y \<in> set (tl (x # xs))" by simp
    from anc_chain_rank [OF l rk ro Cons.prems(1) a this] par
    show "parent (node s3 y) = parent (node s y)" by simp
  qed
  from Cons.IH [OF c3 t3' pp] obtain s1 r2 where
    W: "walk_up body s3 ?p = Some (Inr s1)" and t1: "tinv s1 D {} r2"
    and ic1: "m_insertionCount s1 = m_insertionCount s3"
    by blast
  have "walk_up body s A = Some (Inr s1)"
    using A(2) by (subst walk_up.simps) (simp add: B W)
  with t1 ic1 ic show ?case by auto
qed

lemma walk_up_insert_fix:
  fixes r :: "int \<Rightarrow> real"
  assumes t: "tinv s D P r" and A: "attached s D A" "child1 (node s A) \<noteq> b2_nullNode"
    and P: "\<And>xs. anc_chain s A xs \<Longrightarrow> P \<subseteq> set xs"
  shows "\<exists>s1 r1. walk_up insert_fix s A = Some (Inr s1) \<and> tinv s1 D {} r1 \<and>
        m_insertionCount s1 = m_insertionCount s"
proof -
  from t have l: "links_inv s D" and rk: "rank_inv s D r" and ro: "root_inv s D"
    by (auto simp: tinv_def)
  from anc_chain_exists [OF l rk ro A(1)] obtain xs where xs: "anc_chain s A xs" ..
  have t': "tinv s D (set xs) r" using t P [OF xs] by (rule tinv_mono_P)
  show ?thesis
    by (rule walk_up_tinv [OF _ xs t']) (use A in \<open>blast intro: insert_fix_tinv\<close>)+
qed

lemma walk_up_remove_fix:
  fixes r :: "int \<Rightarrow> real"
  assumes t: "tinv s D P r" and A: "attached s D A" "child1 (node s A) \<noteq> b2_nullNode"
    and P: "\<And>xs. anc_chain s A xs \<Longrightarrow> P \<subseteq> set xs"
  shows "\<exists>s1 r1. walk_up remove_fix s A = Some (Inr s1) \<and> tinv s1 D {} r1 \<and>
        m_insertionCount s1 = m_insertionCount s"
proof -
  from t have l: "links_inv s D" and rk: "rank_inv s D r" and ro: "root_inv s D"
    by (auto simp: tinv_def)
  from anc_chain_exists [OF l rk ro A(1)] obtain xs where xs: "anc_chain s A xs" ..
  have t': "tinv s D (set xs) r" using t P [OF xs] by (rule tinv_mono_P)
  show ?thesis
    by (rule walk_up_tinv [OF _ xs t']) (use A in \<open>blast intro: remove_fix_tinv\<close>)+
qed

section \<open>The sibling search ends\<close>

lemma descend_step_child:
  "descend_step s box i = Descend c \<Longrightarrow> c = child1 (node s i) \<or> c = child2 (node s i)"
  by (simp add: descend_step_def Let_def split: if_splits)

lemma exact_invD:
  assumes "exact_inv s D P" "attached s D i" "i \<notin> P" "child1 (node s i) \<noteq> b2_nullNode"
  shows "height (node s i) =
          1 + max (height (node s (child1 (node s i)))) (height (node s (child2 (node s i))))"
    "aabb (node s i) =
          combine (aabb (node s (child1 (node s i)))) (aabb (node s (child2 (node s i))))"
  using assms unfolding exact_inv_def by blast+

lemma find_sibling_tinv:
  fixes r :: "int \<Rightarrow> real"
  assumes t: "tinv s D {} r"
  shows "attached s D i \<Longrightarrow> \<exists>sib. find_sibling s box i = Some (Inr sib) \<and> attached s D sib"
proof (induction "nat (height (node s i))" arbitrary: i rule: less_induct)
  case less
  from t have l: "links_inv s D" and ex: "exact_inv s D {}" by (auto simp: tinv_def)
  have ir: "in_range s i" using less.prems by (rule tinv_attached_in_range)
  show ?case
  proof (cases "child1 (node s i) = b2_nullNode")
    case True
    then have "find_sibling s box i = Some (Inr i)"
      using ir by (subst find_sibling.simps) (simp add: IsLeaf_def)
    with less.prems show ?thesis by simp
  next
    case False
    note L = links_invD [OF l less.prems]
    have a1: "attached s D (child1 (node s i))" and a2: "attached s D (child2 (node s i))"
      using L(5,6) [OF False] by auto
    have h: "height (node s i) =
          1 + max (height (node s (child1 (node s i)))) (height (node s (child2 (node s i))))"
      using exact_invD(1) [OF ex less.prems _ False] by simp
    have h1: "0 \<le> height (node s (child1 (node s i)))" and h2: "0 \<le> height (node s (child2 (node s i)))"
      using a1 a2 by (auto simp: attached_def allocated_def)
    show ?thesis
    proof (cases "descend_step s box i")
      case Stop
      then have "find_sibling s box i = Some (Inr i)"
        using ir a1 a2 False
        by (subst find_sibling.simps) (simp add: IsLeaf_def tinv_attached_in_range)
      with less.prems show ?thesis by simp
    next
      case (Descend c)
      from descend_step_child [OF this] have c: "c = child1 (node s i) \<or> c = child2 (node s i)" .
      then have ac: "attached s D c" using a1 a2 by auto
      have "nat (height (node s c)) < nat (height (node s i))"
        using c h h1 h2 by auto
      from less.hyps [OF this ac] obtain sib where
        "find_sibling s box c = Some (Inr sib)" "attached s D sib" by blast
      moreover have "find_sibling s box i = find_sibling s box c"
        using ir a1 a2 False Descend
        by (subst find_sibling.simps) (simp add: IsLeaf_def tinv_attached_in_range)
      ultimately show ?thesis by simp
    qed
  qed
qed

section \<open>Splicing a leaf in\<close>

lemma splice_tinv:
  fixes r :: "int \<Rightarrow> real"
  assumes t: "tinv s {n, leaf} {} r" and nl: "n \<noteq> leaf"
    and sib: "attached s {n, leaf} sib"
    and p: "p = parent (node s sib)"
    and P1: "\<And>j. parent (node s1 j) =
        (if j = n then p else if j = sib then n else if j = leaf then n else parent (node s j))"
    and C1: "\<And>j. child1 (node s1 j) =
        (if j = n then sib
         else if j = p \<and> p \<noteq> b2_nullNode \<and> child1 (node s p) = sib then n
         else child1 (node s j))"
    and C2: "\<And>j. child2 (node s1 j) =
        (if j = n then leaf
         else if j = p \<and> p \<noteq> b2_nullNode \<and> child1 (node s p) \<noteq> sib then n
         else child2 (node s j))"
    and H1: "\<And>j. height (node s1 j) =
        (if j = n then height (node s sib) + 1 else height (node s j))"
    and B1: "\<And>j. aabb (node s1 j) =
        (if j = n then combine (aabb (node s leaf)) (aabb (node s sib)) else aabb (node s j))"
    and F1: "m_nodeCapacity s1 = m_nodeCapacity s" "m_freeList s1 = m_freeList s"
      "m_nodeCount s1 = m_nodeCount s"
      "m_root s1 = (if p = b2_nullNode then n else m_root s)"
  shows "tinv s1 {} {j. j = p \<and> j \<noteq> b2_nullNode}
    (r(n := (if p = b2_nullNode then r sib + 1 else (r sib + r p) / 2), leaf := r sib - 1))"
proof -
  let ?D = "{n, leaf}"
  let ?m = "if p = b2_nullNode then r sib + 1 else (r sib + r p) / 2"
  let ?r1 = "r(n := ?m, leaf := r sib - 1)"
  from t have pool: "pool_inv s" and l: "links_inv s ?D" and rk: "rank_inv s ?D r"
    and ex: "exact_inv s ?D {}" and ro: "root_inv s ?D" and det: "detached_inv s ?D"
    by (auto simp: tinv_def)
  from det have dn: "allocated s n" "child1 (node s n) = b2_nullNode"
      "child2 (node s n) = b2_nullNode" "height (node s n) = 0"
    and dl: "allocated s leaf" "child1 (node s leaf) = b2_nullNode"
      "child2 (node s leaf) = b2_nullNode" "height (node s leaf) = 0"
    by (auto simp: detached_inv_def)
  have nn: "n \<noteq> b2_nullNode" "leaf \<noteq> b2_nullNode" "sib \<noteq> b2_nullNode"
    using dn(1) dl(1) sib by (auto dest: allocated_not_null attached_not_null)
  have sn: "sib \<noteq> n" "sib \<noteq> leaf" using sib by (auto simp: attached_def)
  have hs: "0 \<le> height (node s sib)" using sib by (auto simp: attached_def allocated_def)
  note Ls = links_invD [OF l sib]
  have proot: "p = b2_nullNode \<longleftrightarrow> sib = m_root s"
    unfolding p by (rule parent_null_root [OF l ro sib])
  have ap: "attached s ?D p" and cp: "child1 (node s p) = sib \<or> child2 (node s p) = sib"
    and rp: "r sib < r p" if "p \<noteq> b2_nullNode"
    using that Ls(1,2) proot parent_rank [OF l rk sib] p by auto
  have pn: "p \<noteq> n" "p \<noteq> leaf" "p \<noteq> sib"
    using ap rp nn by (cases "p = b2_nullNode"; force simp: attached_def)+
  have cpi: "child1 (node s p) \<noteq> b2_nullNode" if "p \<noteq> b2_nullNode"
    using cp [OF that] links_invD(3) [OF l ap [OF that]] nn by auto
  note dis = nl sn pn nl [symmetric] sn [symmetric] pn [symmetric]
  have ir: "in_range s1 j = in_range s j" for j by (simp add: in_range_def F1)
  have att: "attached s1 {} j \<longleftrightarrow> attached s ?D j \<or> j = n \<or> j = leaf" for j
    using dn(1) dl(1) hs by (auto simp: attached_def allocated_def ir H1)
  have natt: "\<not> attached s ?D n" "\<not> attached s ?D leaf" by (auto simp: attached_def)
  have pool1: "pool_inv s1"
  proof (rule pool_inv_frame [OF pool F1(1-3)])
    fix i assume i: "in_range s i"
    show "(height (node s i) = - 1 \<longrightarrow>
          height (node s1 i) = - 1 \<and> next (node s1 i) = next (node s i)) \<and>
         (0 \<le> height (node s i) \<longrightarrow> 0 \<le> height (node s1 i))"
      using dn(1) dl(1) sib hs by (auto simp: attached_def allocated_def H1 P1)
  qed
  have det1: "detached_inv s1 {}" by (simp add: detached_inv_def)
  have rootn: "m_root s \<noteq> n" "m_root s \<noteq> leaf"
    using root_invD(1,2) [OF ro] sib natt by auto
  have root1: "root_inv s1 {}"
  proof (cases "p = b2_nullNode")
    case True
    then show ?thesis by (simp add: root_inv_def att F1 P1 nn)
  next
    case False
    then have "m_root s \<noteq> sib" using proot by simp
    moreover have "m_root s \<noteq> b2_nullNode" using root_invD(1) [OF ro sib] .
    ultimately show ?thesis using ro False rootn by (auto simp: root_inv_def att F1 P1)
  qed
  have links1: "links_inv s1 {}"
    unfolding links_inv_def
  proof (intro allI impI)
    fix i assume a1: "attached s1 {} i"
    let ?goal = "(i \<noteq> m_root s1 \<longrightarrow>
           attached s1 {} (parent (node s1 i)) \<and>
           (child1 (node s1 (parent (node s1 i))) = i \<or> child2 (node s1 (parent (node s1 i))) = i)) \<and>
        (child1 (node s1 i) = b2_nullNode \<longrightarrow>
           child2 (node s1 i) = b2_nullNode \<and> height (node s1 i) = 0) \<and>
        (child1 (node s1 i) \<noteq> b2_nullNode \<longrightarrow>
           attached s1 {} (child1 (node s1 i)) \<and> attached s1 {} (child2 (node s1 i)) \<and>
           child1 (node s1 i) \<noteq> child2 (node s1 i) \<and>
           parent (node s1 (child1 (node s1 i))) = i \<and>
           parent (node s1 (child2 (node s1 i))) = i)"
    consider "i = n" | "i = leaf" | "i = sib" | "i = p" "p \<noteq> b2_nullNode"
      | "i \<noteq> n" "i \<noteq> leaf" "i \<noteq> sib" "i \<noteq> p" "attached s ?D i"
      using a1 att attached_not_null [OF a1] by blast
    then show ?goal
    proof cases
      case 1
      have "attached s1 {} p \<and> (child1 (node s1 p) = n \<or> child2 (node s1 p) = n)"
        if "p \<noteq> b2_nullNode"
        using that ap by (simp add: att C1 C2 dis)
      then show ?thesis using sib
        by (simp add: 1 att F1 P1 C1 C2 dis nn)
    next
      case 2
      then show ?thesis using dl rootn
        by (simp add: att F1 P1 C1 C2 H1 dis nn)
    next
      case 3
      have r3: "sib \<noteq> m_root s1"
        using proot by (cases "p = b2_nullNode") (simp_all add: F1 dis rootn rootn [symmetric])
      have ch: "child1 (node s1 sib) = child1 (node s sib)" "child2 (node s1 sib) = child2 (node s sib)"
        "height (node s1 sib) = height (node s sib)"
        by (simp_all add: C1 C2 H1 dis)
      have down: "attached s ?D (child1 (node s sib)) \<and> attached s ?D (child2 (node s sib)) \<and>
           child1 (node s sib) \<noteq> child2 (node s sib) \<and>
           parent (node s1 (child1 (node s sib))) = sib \<and>
           parent (node s1 (child2 (node s sib))) = sib"
        if c: "child1 (node s sib) \<noteq> b2_nullNode"
      proof -
        note L = Ls(5-9) [OF c]
        have rr: "r (child1 (node s sib)) < r sib" "r (child2 (node s sib)) < r sib"
          using rank_invD [OF rk sib c] by auto
        have "child1 (node s sib) \<noteq> n" "child1 (node s sib) \<noteq> leaf" "child1 (node s sib) \<noteq> sib"
          "child2 (node s sib) \<noteq> n" "child2 (node s sib) \<noteq> leaf" "child2 (node s sib) \<noteq> sib"
          using L(1,2) rr by (auto simp: attached_def)
        then show ?thesis using L by (simp add: P1)
      qed
      have par: "parent (node s1 sib) = n" "child1 (node s1 n) = sib" "attached s1 {} n"
        by (simp_all add: P1 C1 att dis)
      from this down show ?thesis using Ls(3,4) r3
        by (simp add: 3 ch att)
    next
      case 4
      note Lp = links_invD [OF l ap [OF 4(2)]]
      note Lc = Lp(5-9) [OF cpi [OF 4(2)]]
      have rt: "(p = m_root s1) = (p = m_root s)" using 4(2) by (simp add: F1)
      have par: "parent (node s1 p) = parent (node s p)" by (simp add: P1 dis)
      have up: "p \<noteq> m_root s \<Longrightarrow> attached s ?D (parent (node s p)) \<and>
         (child1 (node s1 (parent (node s p))) = p \<or> child2 (node s1 (parent (node s p))) = p)"
      proof -
        assume nr: "p \<noteq> m_root s"
        have "r p < r (parent (node s p))" using parent_rank [OF l rk ap [OF 4(2)] nr] .
        then have "parent (node s p) \<noteq> p" by auto
        moreover have "parent (node s p) \<noteq> n" using Lp(1) [OF nr] by (auto simp: attached_def)
        ultimately show ?thesis using Lp(1,2) [OF nr] by (simp add: C1 C2)
      qed
      have pn1: "parent (node s1 n) = p" "attached s1 {} n" by (simp_all add: P1 att)
      show ?thesis
      proof (cases "child1 (node s p) = sib")
        case True
        have c2: "child2 (node s p) \<noteq> sib" "child2 (node s p) \<noteq> n" "child2 (node s p) \<noteq> leaf"
          using Lc True by (auto simp: attached_def)
        have f: "child1 (node s1 p) = n" "child2 (node s1 p) = child2 (node s p)"
          "parent (node s1 (child2 (node s p))) = p"
          using True 4(2) c2 Lc(5) by (simp_all add: C1 C2 P1 dis)
        from f pn1 show ?thesis using up Lc(2) c2(2) nn(1)
          by (simp add: 4(1) rt par att)
      next
        case False
        with cp [OF 4(2)] have c2: "child2 (node s p) = sib" by simp
        have c1: "child1 (node s p) \<noteq> n" "child1 (node s p) \<noteq> leaf" "child1 (node s p) \<noteq> sib"
          using Lc False by (auto simp: attached_def)
        have f: "child1 (node s1 p) = child1 (node s p)" "child2 (node s1 p) = n"
          "parent (node s1 (child1 (node s p))) = p"
          using False 4(2) c1 Lc(4) by (simp_all add: C1 C2 P1 dis)
        from f pn1 show ?thesis using up Lc(1) c1(1) cpi [OF 4(2)]
          by (simp add: 4(1) rt par att)
      qed
    next
      case 5
      note Li = links_invD [OF l 5(5)]
      have f: "parent (node s1 i) = parent (node s i)" "child1 (node s1 i) = child1 (node s i)"
        "child2 (node s1 i) = child2 (node s i)" "height (node s1 i) = height (node s i)"
        using 5 by (simp_all add: P1 C1 C2 H1)
      have rt: "i \<noteq> m_root s1 \<Longrightarrow> i \<noteq> m_root s" using 5 proot by (auto simp: F1 split: if_splits)
      have up: "attached s ?D (parent (node s i)) \<and>
         (child1 (node s1 (parent (node s i))) = i \<or> child2 (node s1 (parent (node s i))) = i)"
        if nr: "i \<noteq> m_root s"
      proof -
        have "parent (node s i) \<noteq> n" using Li(1) [OF nr] by (auto simp: attached_def)
        then show ?thesis using Li(1,2) [OF nr] 5 cp by (auto simp: C1 C2)
      qed
      have dn: "attached s ?D (child1 (node s i)) \<and> attached s ?D (child2 (node s i)) \<and>
           child1 (node s i) \<noteq> child2 (node s i) \<and>
           parent (node s1 (child1 (node s i))) = i \<and>
           parent (node s1 (child2 (node s i))) = i"
        if c: "child1 (node s i) \<noteq> b2_nullNode"
      proof -
        note L = Li(5-9) [OF c]
        have "child1 (node s i) \<noteq> n" "child1 (node s i) \<noteq> leaf" "child1 (node s i) \<noteq> sib"
          "child2 (node s i) \<noteq> n" "child2 (node s i) \<noteq> leaf" "child2 (node s i) \<noteq> sib"
          using L 5(4) p by (auto simp: attached_def)
        then show ?thesis using L by (simp add: P1)
      qed
      show ?thesis using up dn rt Li(3,4)
        by (simp add: f att)
    qed
  qed
  have rank1: "rank_inv s1 {} ?r1"
    unfolding rank_inv_def
  proof (intro allI impI)
    fix i assume "attached s1 {} i \<and> child1 (node s1 i) \<noteq> b2_nullNode"
    then have a1: "attached s1 {} i" and c1: "child1 (node s1 i) \<noteq> b2_nullNode" by auto
    let ?goal = "?r1 (child1 (node s1 i)) < ?r1 i \<and> ?r1 (child2 (node s1 i)) < ?r1 i"
    consider "i = n" | "i = leaf" | "i = p" "p \<noteq> b2_nullNode"
      | "i \<noteq> n" "i \<noteq> leaf" "i \<noteq> p" "attached s ?D i"
      using a1 att attached_not_null [OF a1] by blast
    then show ?goal
    proof cases
      case 1
      then show ?thesis using rp by (auto simp: C1 C2 dis)
    next
      case 2
      then show ?thesis using c1 dl by (simp add: C1 dis)
    next
      case 3
      note Lp = links_invD [OF l ap [OF 3(2)]]
      note Lc = Lp(5-9) [OF cpi [OF 3(2)]]
      have rr: "r (child1 (node s p)) < r p" "r (child2 (node s p)) < r p"
        using rank_invD [OF rk ap [OF 3(2)] cpi [OF 3(2)]] by auto
      have cn: "child1 (node s p) \<noteq> n" "child1 (node s p) \<noteq> leaf"
          "child2 (node s p) \<noteq> n" "child2 (node s p) \<noteq> leaf"
        using Lc by (auto simp: attached_def)
      show ?thesis using rr rp [OF 3(2)] 3(2) cn
        by (simp add: 3(1) C1 C2 dis)
    next
      case 4
      have f: "child1 (node s1 i) = child1 (node s i)" "child2 (node s1 i) = child2 (node s i)"
        using 4 by (simp_all add: C1 C2)
      have c: "child1 (node s i) \<noteq> b2_nullNode" using c1 f by simp
      note Lc = links_invD(5-9) [OF l 4(4) c]
      have cn: "child1 (node s i) \<noteq> n" "child1 (node s i) \<noteq> leaf"
          "child2 (node s i) \<noteq> n" "child2 (node s i) \<noteq> leaf"
        using Lc by (auto simp: attached_def)
      show ?thesis using rank_invD [OF rk 4(4) c] 4 cn by (simp add: f)
    qed
  qed
  have exact1: "exact_inv s1 {} {j. j = p \<and> j \<noteq> b2_nullNode}"
    unfolding exact_inv_def
  proof (intro allI impI)
    fix i assume "attached s1 {} i \<and> i \<notin> {j. j = p \<and> j \<noteq> b2_nullNode} \<and>
      child1 (node s1 i) \<noteq> b2_nullNode"
    then have a1: "attached s1 {} i" and ip: "i \<noteq> p" and c1: "child1 (node s1 i) \<noteq> b2_nullNode"
      by (auto dest: attached_not_null)
    let ?goal = "height (node s1 i) =
          1 + max (height (node s1 (child1 (node s1 i)))) (height (node s1 (child2 (node s1 i)))) \<and>
        aabb (node s1 i) =
          combine (aabb (node s1 (child1 (node s1 i)))) (aabb (node s1 (child2 (node s1 i))))"
    consider "i = n" | "i = leaf" | "i \<noteq> n" "i \<noteq> leaf" "attached s ?D i"
      using a1 att by blast
    then show ?goal
    proof cases
      case 1
      then show ?thesis using hs dl(4)
        by (simp add: H1 B1 C1 C2 dis combine_commute)
    next
      case 2
      then show ?thesis using c1 dl by (simp add: C1 dis)
    next
      case 3
      have f: "child1 (node s1 i) = child1 (node s i)" "child2 (node s1 i) = child2 (node s i)"
        using 3 ip by (simp_all add: C1 C2)
      have c: "child1 (node s i) \<noteq> b2_nullNode" using c1 f by simp
      note Lc = links_invD(5-9) [OF l 3(3) c]
      have cn: "child1 (node s i) \<noteq> n" "child2 (node s i) \<noteq> n"
        using Lc by (auto simp: attached_def)
      show ?thesis using exact_invD [OF ex 3(3) _ c] 3 cn by (simp add: f H1 B1)
    qed
  qed
  show ?thesis
    unfolding tinv_def using pool1 links1 rank1 exact1 root1 det1 by simp
qed

lemma splice_leaf_result:
  assumes A: "AllocateNode s = Inr (s1, n)"
    and p: "parent (node s sib) = p"
    and d: "n \<noteq> leaf" "sib \<noteq> n" "sib \<noteq> leaf" "p \<noteq> n" "p \<noteq> leaf" "p \<noteq> sib"
    and ir: "in_range s1 sib" "in_range s1 leaf" "p \<noteq> b2_nullNode \<longrightarrow> in_range s1 p"
  shows "\<exists>s2. splice_leaf s box leaf sib = Inr s2 \<and>
     (\<forall>j. node s2 j =
        (if j = n then (node s1 n)\<lparr>parent := p, userData := 0,
              aabb := combine box (aabb (node s1 sib)), height := height (node s1 sib) + 1,
              child1 := sib, child2 := leaf\<rparr>
         else if j = sib then (node s1 sib)\<lparr>parent := n\<rparr>
         else if j = leaf then (node s1 leaf)\<lparr>parent := n\<rparr>
         else if j = p \<and> p \<noteq> b2_nullNode then
              (if child1 (node s1 p) = sib then (node s1 p)\<lparr>child1 := n\<rparr>
               else (node s1 p)\<lparr>child2 := n\<rparr>)
         else node s1 j)) \<and>
     m_root s2 = (if p = b2_nullNode then n else m_root s1) \<and>
     m_nodeCapacity s2 = m_nodeCapacity s1 \<and> m_freeList s2 = m_freeList s1 \<and>
     m_nodeCount s2 = m_nodeCount s1 \<and> m_insertionCount s2 = m_insertionCount s1"
proof (cases "p = b2_nullNode")
  case True
  then show ?thesis using ir
    by (simp add: splice_leaf_def Let_def A p d d [symmetric])
next
  case False
  show ?thesis
  proof (cases "child1 (node s1 p) = sib")
    case True
    then show ?thesis using ir False
      by (simp add: splice_leaf_def Let_def A p d d [symmetric])
  next
    case c1: False
    then show ?thesis using ir False
      by (simp add: splice_leaf_def Let_def A p d d [symmetric])
  qed
qed

lemma splice_leaf_tinv:
  fixes r :: "int \<Rightarrow> real"
  assumes t: "tinv s {leaf} {} r" and sib: "attached s {leaf} sib"
  shows "\<exists>s2 n r1. splice_leaf s (aabb (node s leaf)) leaf sib = Inr s2 \<and>
     parent (node s2 leaf) = n \<and> attached s2 {} n \<and> child1 (node s2 n) \<noteq> b2_nullNode \<and>
     tinv s2 {} {j. j = parent (node s2 n) \<and> j \<noteq> b2_nullNode} r1 \<and>
     m_insertionCount s2 = m_insertionCount s"
proof -
  define p where "p = parent (node s sib)"
  from t have l: "links_inv s {leaf}" and rk: "rank_inv s {leaf} r" and ro: "root_inv s {leaf}"
    and det: "detached_inv s {leaf}"
    by (auto simp: tinv_def)
  have al: "allocated s leaf" using det by (simp add: detached_inv_def)
  have as: "allocated s sib" and sl: "sib \<noteq> leaf" using sib by (auto simp: attached_def)
  from AllocateNode_tinv [OF t] obtain s1 n where
    A: "AllocateNode s = Inr (s1, n)" and nl: "n \<noteq> leaf" and nn: "\<not> allocated s n"
    and t1: "tinv s1 {n, leaf} {} r"
    and same: "\<And>j. allocated s j \<Longrightarrow> node s1 j = node s j"
    and all: "\<And>j. allocated s1 j \<longleftrightarrow> allocated s j \<or> j = n"
    and f: "m_root s1 = m_root s" "m_insertionCount s1 = m_insertionCount s"
    by auto
  have sn: "sib \<noteq> n" using as nn by auto
  have sib1: "attached s1 {n, leaf} sib" using as sl sn by (simp add: attached_def all)
  have proot: "p = b2_nullNode \<longleftrightarrow> sib = m_root s"
    unfolding p_def by (rule parent_null_root [OF l ro sib])
  have ap: "attached s {leaf} p" and rp: "r sib < r p" if "p \<noteq> b2_nullNode"
    using that links_invD(1) [OF l sib] proot parent_rank [OF l rk sib] p_def by auto
  have nnull: "n \<noteq> b2_nullNode" "leaf \<noteq> b2_nullNode" "sib \<noteq> b2_nullNode"
    using all [of n] al as by (auto dest: allocated_not_null)
  have pn: "p \<noteq> n" "p \<noteq> leaf" "p \<noteq> sib"
  proof -
    show "p \<noteq> n" using ap nn nnull by (cases "p = b2_nullNode") (auto simp: attached_def)
    show "p \<noteq> leaf" using ap nnull by (cases "p = b2_nullNode") (auto simp: attached_def)
    show "p \<noteq> sib" using rp nnull by (cases "p = b2_nullNode") auto
  qed
  have irp: "p \<noteq> b2_nullNode \<longrightarrow> in_range s1 p"
    using ap all by (auto simp: attached_def allocated_def)
  have ns: "node s1 sib = node s sib" "node s1 leaf = node s leaf"
    "p \<noteq> b2_nullNode \<Longrightarrow> node s1 p = node s p"
    using same as al ap by (auto simp: attached_def)
  have p1: "p = parent (node s1 sib)" by (simp add: ns p_def)
  from splice_leaf_result [OF A p_def [symmetric] nl sn sl pn _ _ irp, of "aabb (node s leaf)"]
  obtain s2 where S: "splice_leaf s (aabb (node s leaf)) leaf sib = Inr s2"
    and n2: "\<And>j. node s2 j =
        (if j = n then (node s1 n)\<lparr>parent := p, userData := 0,
              aabb := combine (aabb (node s leaf)) (aabb (node s1 sib)),
              height := height (node s1 sib) + 1,
              child1 := sib, child2 := leaf\<rparr>
         else if j = sib then (node s1 sib)\<lparr>parent := n\<rparr>
         else if j = leaf then (node s1 leaf)\<lparr>parent := n\<rparr>
         else if j = p \<and> p \<noteq> b2_nullNode then
              (if child1 (node s1 p) = sib then (node s1 p)\<lparr>child1 := n\<rparr>
               else (node s1 p)\<lparr>child2 := n\<rparr>)
         else node s1 j)"
    and f2: "m_root s2 = (if p = b2_nullNode then n else m_root s1)"
      "m_nodeCapacity s2 = m_nodeCapacity s1" "m_freeList s2 = m_freeList s1"
      "m_nodeCount s2 = m_nodeCount s1" "m_insertionCount s2 = m_insertionCount s1"
    using sib1 as al all by (auto simp: attached_def allocated_def)
  note dis = nl sn sl pn nl [symmetric] sn [symmetric] sl [symmetric] pn [symmetric]
  have T: "tinv s2 {} {j. j = p \<and> j \<noteq> b2_nullNode}
    (r(n := (if p = b2_nullNode then r sib + 1 else (r sib + r p) / 2), leaf := r sib - 1))"
  proof (rule splice_tinv [OF t1 nl sib1 p1])
    show "parent (node s2 j) =
        (if j = n then p else if j = sib then n else if j = leaf then n else parent (node s1 j))" for j
      by (simp add: n2 dis)
    show "child1 (node s2 j) =
        (if j = n then sib
         else if j = p \<and> p \<noteq> b2_nullNode \<and> child1 (node s1 p) = sib then n
         else child1 (node s1 j))" for j
      by (simp add: n2 dis)
    show "child2 (node s2 j) =
        (if j = n then leaf
         else if j = p \<and> p \<noteq> b2_nullNode \<and> child1 (node s1 p) \<noteq> sib then n
         else child2 (node s1 j))" for j
      by (simp add: n2 dis)
    show "height (node s2 j) =
        (if j = n then height (node s1 sib) + 1 else height (node s1 j))" for j
      by (simp add: n2 dis)
    show "aabb (node s2 j) =
        (if j = n then combine (aabb (node s1 leaf)) (aabb (node s1 sib)) else aabb (node s1 j))" for j
      by (simp add: n2 dis ns)
  qed (simp_all add: f2)
  have "parent (node s2 leaf) = n" by (simp add: n2 dis)
  moreover have "attached s2 {} n"
  proof -
    have "0 \<le> height (node s1 sib)" using sib1 by (simp add: attached_def allocated_def)
    moreover have "in_range s1 n" using all [of n] by (simp add: allocated_def)
    ultimately show ?thesis by (simp add: attached_def allocated_def n2 in_range_def f2)
  qed
  moreover have "child1 (node s2 n) \<noteq> b2_nullNode"
    using as by (auto simp: n2 dest: allocated_not_null)
  moreover have "parent (node s2 n) = p" by (simp add: n2)
  moreover have "m_insertionCount s2 = m_insertionCount s" by (simp add: f2 f)
  ultimately show ?thesis using S T by auto
qed

lemma tinv_insertionCount:
  fixes r :: "int \<Rightarrow> real"
  assumes t: "tinv s D P r"
  shows "tinv (s\<lparr>m_insertionCount := c\<rparr>) D P r"
proof -
  let ?s = "s\<lparr>m_insertionCount := c\<rparr>"
  have al: "allocated ?s j = allocated s j" for j by (simp add: allocated_def)
  show ?thesis
  proof (rule tinv_frame [OF t])
    show "pool_inv ?s"
      by (rule pool_inv_frame [of s]) (use t in \<open>auto simp: tinv_def\<close>)
    show "detached_inv ?s D" using t by (simp add: tinv_def detached_inv_def al)
  qed (simp_all add: attached_def al same_tree_fields_def)
qed

lemma InsertLeaf_empty:
  fixes r :: "int \<Rightarrow> real"
  assumes t: "tinv s {leaf} {} r" and e: "m_root s = b2_nullNode"
  shows "tinv (upd (s\<lparr>m_root := leaf\<rparr>) leaf (\<lambda>n. n\<lparr>parent := b2_nullNode\<rparr>)) {} {} r"
proof -
  let ?s = "upd (s\<lparr>m_root := leaf\<rparr>) leaf (\<lambda>n. n\<lparr>parent := b2_nullNode\<rparr>)"
  from t have pool: "pool_inv s" and ro: "root_inv s {leaf}" and det: "detached_inv s {leaf}"
    by (auto simp: tinv_def)
  from det have dl: "allocated s leaf" "child1 (node s leaf) = b2_nullNode"
      "child2 (node s leaf) = b2_nullNode" "height (node s leaf) = 0"
    by (auto simp: detached_inv_def)
  have none: "\<not> attached s {leaf} j" for j using ro e by (simp add: root_inv_def)
  have al: "allocated ?s j = allocated s j" for j by (simp add: allocated_def)
  have att: "attached ?s {} j \<longleftrightarrow> j = leaf" for j
    using none [of j] dl(1) by (auto simp: attached_def al)
  have ln: "leaf \<noteq> b2_nullNode" using dl(1) by (rule allocated_not_null)
  have "pool_inv ?s"
    by (rule pool_inv_frame [OF pool]) (use dl(1) in \<open>auto simp: allocated_def\<close>)
  moreover have "links_inv ?s {}" using dl by (simp add: links_inv_def att)
  moreover have "rank_inv ?s {} r" using dl by (simp add: rank_inv_def att)
  moreover have "exact_inv ?s {} {}" using dl by (simp add: exact_inv_def att)
  moreover have "root_inv ?s {}" using ln by (simp add: root_inv_def att)
  moreover have "detached_inv ?s {}" by (simp add: detached_inv_def)
  ultimately show ?thesis by (simp add: tinv_def)
qed

lemma InsertLeaf_tinv:
  fixes r :: "int \<Rightarrow> real"
  assumes t: "tinv s0 {leaf} {} r"
  shows "\<exists>s1 r1. InsertLeaf s0 leaf = Some (Inr s1) \<and> tinv s1 {} {} r1"
proof -
  define s where "s = s0\<lparr>m_insertionCount := m_insertionCount s0 + 1\<rparr>"
  have ts: "tinv s {leaf} {} r" unfolding s_def using t by (rule tinv_insertionCount)
  from ts have ro: "root_inv s {leaf}" and det: "detached_inv s {leaf}" by (auto simp: tinv_def)
  have il: "in_range s leaf" using det by (simp add: detached_inv_def allocated_def)
  show ?thesis
  proof (cases "m_root s = b2_nullNode")
    case True
    then have "InsertLeaf s0 leaf =
        Some (Inr (upd (s\<lparr>m_root := leaf\<rparr>) leaf (\<lambda>n. n\<lparr>parent := b2_nullNode\<rparr>)))"
      using il by (simp add: InsertLeaf_def Let_def s_def [symmetric])
    with InsertLeaf_empty [OF ts True] show ?thesis by blast
  next
    case False
    from root_invD(2) [OF ro False] have ar: "attached s {leaf} (m_root s)" .
    from find_sibling_tinv [OF ts ar] obtain sib where
      F: "find_sibling s (aabb (node s leaf)) (m_root s) = Some (Inr sib)"
      and sib: "attached s {leaf} sib" by blast
    from splice_leaf_tinv [OF ts sib] obtain s2 n r1 where
      S: "splice_leaf s (aabb (node s leaf)) leaf sib = Inr s2"
      and pl: "parent (node s2 leaf) = n" and an: "attached s2 {} n"
      and cn: "child1 (node s2 n) \<noteq> b2_nullNode"
      and t2: "tinv s2 {} {j. j = parent (node s2 n) \<and> j \<noteq> b2_nullNode} r1"
      by blast
    have "\<exists>s1 r2. walk_up insert_fix s2 n = Some (Inr s1) \<and> tinv s1 {} {} r2 \<and>
        m_insertionCount s1 = m_insertionCount s2"
    proof (rule walk_up_insert_fix [OF t2 an cn])
      fix xs assume "anc_chain s2 n xs"
      then obtain ys where "xs = n # ys" "anc_chain s2 (parent (node s2 n)) ys"
        using attached_not_null [OF an] by (cases xs) auto
      then show "{j. j = parent (node s2 n) \<and> j \<noteq> b2_nullNode} \<subseteq> set xs"
        by (cases ys) auto
    qed
    then obtain s1 r2 where W: "walk_up insert_fix s2 n = Some (Inr s1)"
      and t1: "tinv s1 {} {} r2" by blast
    have "InsertLeaf s0 leaf = Some (Inr s1)"
      using False il by (simp add: InsertLeaf_def Let_def s_def [symmetric] F S pl W)
    with t1 show ?thesis by blast
  qed
qed

section \<open>Taking a leaf out\<close>

lemma root_internal:
  assumes l: "links_inv s D"
  shows "anc_chain s i xs \<Longrightarrow> attached s D i \<Longrightarrow> i \<noteq> m_root s \<Longrightarrow>
     child1 (node s (m_root s)) \<noteq> b2_nullNode"
proof (induction xs arbitrary: i)
  case Nil
  then show ?case by (auto dest: attached_not_null)
next
  case (Cons x xs)
  let ?p = "parent (node s i)"
  from Cons.prems(1) have c: "anc_chain s ?p xs" by auto
  from links_invD(1,2) [OF l Cons.prems(2,3)] have ap: "attached s D ?p"
    and ch: "child1 (node s ?p) = i \<or> child2 (node s ?p) = i" by auto
  have ci: "child1 (node s ?p) \<noteq> b2_nullNode"
    using ch links_invD(3) [OF l ap] attached_not_null [OF Cons.prems(2)] by auto
  show ?case
  proof (cases "?p = m_root s")
    case True
    with ci show ?thesis by simp
  next
    case False
    from Cons.IH [OF c ap False] show ?thesis .
  qed
qed

lemma root_leaf_only:
  fixes r :: "int \<Rightarrow> real"
  assumes t: "tinv s D P r" and lf: "child1 (node s (m_root s)) = b2_nullNode"
    and a: "attached s D i"
  shows "i = m_root s"
proof (rule ccontr)
  assume n: "i \<noteq> m_root s"
  from t have l: "links_inv s D" and rk: "rank_inv s D r" and ro: "root_inv s D"
    by (auto simp: tinv_def)
  from anc_chain_exists [OF l rk ro a] obtain xs where "anc_chain s i xs" ..
  from root_internal [OF l this a n] lf show False by simp
qed

lemma FreeNode_tinv:
  fixes r :: "int \<Rightarrow> real"
  assumes t: "tinv s {leaf} P r"
  shows "\<exists>s1. FreeNode s leaf = Inr s1 \<and> tinv s1 {} P r \<and> m_freeList s1 = leaf \<and>
     m_root s1 = m_root s"
proof -
  from t have pool: "pool_inv s" and det: "detached_inv s {leaf}" by (auto simp: tinv_def)
  have al: "allocated s leaf" using det by (simp add: detached_inv_def)
  from FreeNode_ok [OF pool al] obtain s1 where F: "FreeNode s leaf = Inr s1"
    and p1: "pool_inv s1" and fl: "m_freeList s1 = leaf"
    and n1: "\<And>j. node s1 j =
       (if j = leaf then (node s leaf)\<lparr>parent := m_freeList s, height := -1\<rparr> else node s j)"
    and f1: "m_nodeCapacity s1 = m_nodeCapacity s" "m_root s1 = m_root s"
    by blast
  have "tinv s1 {} P r"
  proof (rule tinv_frame [OF t p1 f1(2)])
    show "attached s1 {} j \<longleftrightarrow> attached s {leaf} j" for j
      by (auto simp: attached_def allocated_def in_range_def f1 n1)
    show "same_tree_fields (node s1 j) (node s j)" if "attached s {leaf} j" for j
      using that by (auto simp: attached_def same_tree_fields_def n1)
    show "detached_inv s1 {}" by (simp add: detached_inv_def)
  qed
  with F fl f1 show ?thesis by blast
qed

lemma remove_tinv:
  fixes r :: "int \<Rightarrow> real"
  assumes t: "tinv s {} {} r" and a: "attached s {} leaf"
    and lf: "child1 (node s leaf) = b2_nullNode" and nr: "leaf \<noteq> m_root s"
    and ip: "ip = parent (node s leaf)" and gp: "gp = parent (node s ip)"
    and sib: "sib = (if child1 (node s ip) = leaf then child2 (node s ip) else child1 (node s ip))"
    and P3: "\<And>j. j \<noteq> ip \<Longrightarrow> parent (node s3 j) = (if j = sib then gp else parent (node s j))"
    and C31: "\<And>j. j \<noteq> ip \<Longrightarrow> child1 (node s3 j) =
        (if j = gp \<and> gp \<noteq> b2_nullNode \<and> child1 (node s gp) = ip then sib else child1 (node s j))"
    and C32: "\<And>j. j \<noteq> ip \<Longrightarrow> child2 (node s3 j) =
        (if j = gp \<and> gp \<noteq> b2_nullNode \<and> child1 (node s gp) \<noteq> ip then sib else child2 (node s j))"
    and H3: "\<And>j. height (node s3 j) = (if j = ip then -1 else height (node s j))"
    and B3: "\<And>j. j \<noteq> ip \<Longrightarrow> aabb (node s3 j) = aabb (node s j)"
    and F3: "m_nodeCapacity s3 = m_nodeCapacity s"
      "m_root s3 = (if gp = b2_nullNode then sib else m_root s)"
    and pool3: "pool_inv s3"
  shows "tinv s3 {leaf} {j. j = gp \<and> j \<noteq> b2_nullNode} r \<and>
     (gp \<noteq> b2_nullNode \<longrightarrow> attached s3 {leaf} gp \<and> child1 (node s3 gp) \<noteq> b2_nullNode)"
proof -
  from t have l: "links_inv s {}" and rk: "rank_inv s {} r"
    and ex: "exact_inv s {} {}" and ro: "root_inv s {}"
    by (auto simp: tinv_def)
  note Ll = links_invD [OF l a]
  have aip: "attached s {} ip" and cip: "child1 (node s ip) = leaf \<or> child2 (node s ip) = leaf"
    using Ll(1,2) [OF nr] ip by auto
  have pl: "parent (node s leaf) = ip" using ip by simp
  have pip: "parent (node s ip) = gp" using gp by simp
  have ln: "leaf \<noteq> b2_nullNode" using a by (rule attached_not_null)
  have ipn: "ip \<noteq> b2_nullNode" using aip by (rule attached_not_null)
  have iint: "child1 (node s ip) \<noteq> b2_nullNode"
    using cip links_invD(3) [OF l aip] ln by auto
  note Lip = links_invD [OF l aip]
  note Lc = Lip(5-9) [OF iint]
  have asib: "attached s {} sib" and psib: "parent (node s sib) = ip" and sl: "sib \<noteq> leaf"
    and ch: "(child1 (node s ip) = leaf \<and> child2 (node s ip) = sib) \<or>
             (child1 (node s ip) = sib \<and> child2 (node s ip) = leaf)"
    using Lc cip by (auto simp: sib)
  have sn: "sib \<noteq> b2_nullNode" using asib by (rule attached_not_null)
  have rl: "r leaf < r ip" and rs: "r sib < r ip"
    using rank_invD [OF rk aip iint] ch by auto
  have groot: "gp = b2_nullNode \<longleftrightarrow> ip = m_root s"
    unfolding gp by (rule parent_null_root [OF l ro aip])
  have agp: "attached s {} gp" and cgp: "child1 (node s gp) = ip \<or> child2 (node s gp) = ip"
    and rg: "r ip < r gp" if "gp \<noteq> b2_nullNode"
    using that Lip(1,2) groot parent_rank [OF l rk aip] gp by auto
  have gint: "child1 (node s gp) \<noteq> b2_nullNode" if "gp \<noteq> b2_nullNode"
    using cgp [OF that] links_invD(3) [OF l agp [OF that]] ipn by auto
  have d1: "leaf \<noteq> ip" "sib \<noteq> ip" "sib \<noteq> leaf" using rl rs sl by auto
  have d2: "gp \<noteq> leaf" "gp \<noteq> ip" "gp \<noteq> sib"
    using rl rs rg ln ipn sn by (cases "gp = b2_nullNode"; force)+
  note dis = d1 d2 d1 [symmetric] d2 [symmetric]
  have ir: "in_range s3 j = in_range s j" for j by (simp add: in_range_def F3)
  have att: "attached s3 {leaf} j \<longleftrightarrow> attached s {} j \<and> j \<noteq> leaf \<and> j \<noteq> ip" for j
    by (auto simp: attached_def allocated_def ir H3)
  have rootl: "m_root s \<noteq> leaf" "m_root s \<noteq> sib"
    using nr psib ipn root_invD(3) [OF ro] root_invD(1) [OF ro a] by auto
  have rooti: "m_root s \<noteq> ip" if "gp \<noteq> b2_nullNode" using that groot by simp
  have det3: "detached_inv s3 {leaf}"
    using a Ll(3,4) [OF lf] lf
    by (simp add: detached_inv_def attached_def allocated_def ir H3 C31 C32 dis)
  have root3: "root_inv s3 {leaf}"
  proof (cases "gp = b2_nullNode")
    case True
    then show ?thesis using asib sn by (simp add: root_inv_def att F3 P3 dis)
  next
    case False
    then show ?thesis using root_invD [OF ro] a rootl rooti
      by (simp add: root_inv_def att F3 P3 dis)
  qed
  have links3: "links_inv s3 {leaf}"
    unfolding links_inv_def
  proof (intro allI impI)
    fix i assume a3: "attached s3 {leaf} i"
    then have ai: "attached s {} i" and il: "i \<noteq> leaf" and ii: "i \<noteq> ip" by (auto simp: att)
    note Li = links_invD [OF l ai]
    let ?goal = "(i \<noteq> m_root s3 \<longrightarrow>
           attached s3 {leaf} (parent (node s3 i)) \<and>
           (child1 (node s3 (parent (node s3 i))) = i \<or> child2 (node s3 (parent (node s3 i))) = i)) \<and>
        (child1 (node s3 i) = b2_nullNode \<longrightarrow>
           child2 (node s3 i) = b2_nullNode \<and> height (node s3 i) = 0) \<and>
        (child1 (node s3 i) \<noteq> b2_nullNode \<longrightarrow>
           attached s3 {leaf} (child1 (node s3 i)) \<and> attached s3 {leaf} (child2 (node s3 i)) \<and>
           child1 (node s3 i) \<noteq> child2 (node s3 i) \<and>
           parent (node s3 (child1 (node s3 i))) = i \<and>
           parent (node s3 (child2 (node s3 i))) = i)"
    have down: "attached s3 {leaf} (child1 (node s i)) \<and> attached s3 {leaf} (child2 (node s i)) \<and>
           child1 (node s i) \<noteq> child2 (node s i) \<and>
           parent (node s3 (child1 (node s i))) = i \<and>
           parent (node s3 (child2 (node s i))) = i"
      if c: "child1 (node s i) \<noteq> b2_nullNode" and ig: "i \<noteq> gp"
    proof -
      note L = Li(5-9) [OF c]
      have "child1 (node s i) \<noteq> leaf" "child1 (node s i) \<noteq> ip" "child1 (node s i) \<noteq> sib"
          "child2 (node s i) \<noteq> leaf" "child2 (node s i) \<noteq> ip" "child2 (node s i) \<noteq> sib"
        using L(4,5) pl pip psib ii ig by auto
      then show ?thesis using L by (simp add: att P3)
    qed
    consider "i = sib" | "i = gp" "gp \<noteq> b2_nullNode" | "i \<noteq> sib" "i \<noteq> gp"
      using attached_not_null [OF ai] by blast
    then show ?goal
    proof cases
      case 1
      have f: "child1 (node s3 sib) = child1 (node s sib)" "child2 (node s3 sib) = child2 (node s sib)"
        "height (node s3 sib) = height (node s sib)" "parent (node s3 sib) = gp"
        by (simp_all add: C31 C32 H3 P3 dis)
      have up: "attached s3 {leaf} gp \<and> (child1 (node s3 gp) = sib \<or> child2 (node s3 gp) = sib)"
        if "gp \<noteq> b2_nullNode"
        using that agp cgp by (auto simp: att C31 C32 dis)
      have rt: "sib \<noteq> m_root s3 \<Longrightarrow> gp \<noteq> b2_nullNode" by (auto simp: F3)
      from f up rt down show ?thesis using Li(3,4)
        by (simp add: 1 dis)
    next
      case 2
      note Lg = links_invD [OF l agp [OF 2(2)]]
      note Lgc = Lg(5-9) [OF gint [OF 2(2)]]
      have par: "parent (node s3 gp) = parent (node s gp)" "(gp = m_root s3) = (gp = m_root s)"
        using 2(2) by (simp_all add: P3 F3 dis)
      have up: "attached s3 {leaf} (parent (node s gp)) \<and>
         (child1 (node s3 (parent (node s gp))) = gp \<or> child2 (node s3 (parent (node s gp))) = gp)"
        if nr: "gp \<noteq> m_root s"
      proof -
        have rr: "r gp < r (parent (node s gp))" using parent_rank [OF l rk agp [OF 2(2)] nr] .
        then have "parent (node s gp) \<noteq> gp" "parent (node s gp) \<noteq> ip" "parent (node s gp) \<noteq> leaf"
          using rg [OF 2(2)] rl by auto
        then show ?thesis using Lg(1,2) [OF nr] by (simp add: att C31 C32)
      qed
      have psib3: "parent (node s3 sib) = gp" "attached s3 {leaf} sib"
        using asib by (simp_all add: P3 att dis)
      show ?thesis
      proof (cases "child1 (node s gp) = ip")
        case True
        have c2: "child2 (node s gp) \<noteq> sib" "child2 (node s gp) \<noteq> ip" "child2 (node s gp) \<noteq> leaf"
          using Lgc(3,5) True psib pl d2(2) by auto
        have f: "child1 (node s3 gp) = sib" "child2 (node s3 gp) = child2 (node s gp)"
          "parent (node s3 (child2 (node s gp))) = gp"
          "attached s3 {leaf} (child2 (node s gp))"
          using True 2(2) c2 Lgc by (simp_all add: C31 C32 P3 att dis)
        from f psib3 par show ?thesis using up sn c2(1)
          by (simp add: 2(1))
      next
        case False
        with cgp [OF 2(2)] have c2: "child2 (node s gp) = ip" by simp
        have c1: "child1 (node s gp) \<noteq> sib" "child1 (node s gp) \<noteq> ip" "child1 (node s gp) \<noteq> leaf"
          using Lgc(4) False psib pl d2(2) by auto
        have f: "child1 (node s3 gp) = child1 (node s gp)" "child2 (node s3 gp) = sib"
          "parent (node s3 (child1 (node s gp))) = gp"
          "attached s3 {leaf} (child1 (node s gp))"
          using False 2(2) c1 Lgc by (simp_all add: C31 C32 P3 att dis)
        from f psib3 par show ?thesis using up c1(1) gint [OF 2(2)]
          by (simp add: 2(1))
      qed
    next
      case 3
      have f: "parent (node s3 i) = parent (node s i)" "child1 (node s3 i) = child1 (node s i)"
        "child2 (node s3 i) = child2 (node s i)" "height (node s3 i) = height (node s i)"
        using 3 ii by (simp_all add: P3 C31 C32 H3)
      have rt: "i \<noteq> m_root s3 \<Longrightarrow> i \<noteq> m_root s" using 3 ii groot by (auto simp: F3 split: if_splits)
      have up: "attached s3 {leaf} (parent (node s i)) \<and>
         (child1 (node s3 (parent (node s i))) = i \<or> child2 (node s3 (parent (node s i))) = i)"
        if nr: "i \<noteq> m_root s"
      proof -
        note L = Li(1,2) [OF nr]
        have q: "parent (node s i) \<noteq> leaf" "parent (node s i) \<noteq> ip"
          using L(2) lf Ll(3) [OF lf] attached_not_null [OF ai] ch 3(1) il by auto
        then show ?thesis using L 3 ii cgp by (auto simp: att C31 C32)
      qed
      from f show ?thesis using up down 3(2) rt Li(3,4)
        by simp
    qed
  qed
  have rank3: "rank_inv s3 {leaf} r"
    unfolding rank_inv_def
  proof (intro allI impI)
    fix i assume "attached s3 {leaf} i \<and> child1 (node s3 i) \<noteq> b2_nullNode"
    then have ai: "attached s {} i" and il: "i \<noteq> leaf" and ii: "i \<noteq> ip"
      and c3: "child1 (node s3 i) \<noteq> b2_nullNode" by (auto simp: att)
    show "r (child1 (node s3 i)) < r i \<and> r (child2 (node s3 i)) < r i"
    proof (cases "i = gp \<and> gp \<noteq> b2_nullNode")
      case True
      then have g: "i = gp" "gp \<noteq> b2_nullNode" by auto
      have rr: "r (child1 (node s gp)) < r gp" "r (child2 (node s gp)) < r gp"
        using rank_invD [OF rk agp [OF g(2)] gint [OF g(2)]] by auto
      show ?thesis using rr rs rg [OF g(2)] g(2)
        by (simp add: g(1) C31 C32 dis)
    next
      case False
      then have f: "child1 (node s3 i) = child1 (node s i)" "child2 (node s3 i) = child2 (node s i)"
        using ii by (auto simp: C31 C32)
      with c3 rank_invD [OF rk ai] show ?thesis by simp
    qed
  qed
  have exact3: "exact_inv s3 {leaf} {j. j = gp \<and> j \<noteq> b2_nullNode}"
    unfolding exact_inv_def
  proof (intro allI impI)
    fix i assume "attached s3 {leaf} i \<and> i \<notin> {j. j = gp \<and> j \<noteq> b2_nullNode} \<and>
      child1 (node s3 i) \<noteq> b2_nullNode"
    then have ai: "attached s {} i" and il: "i \<noteq> leaf" and ii: "i \<noteq> ip" and ig: "i \<noteq> gp"
      and c3: "child1 (node s3 i) \<noteq> b2_nullNode" by (auto simp: att dest: attached_not_null)
    have f: "child1 (node s3 i) = child1 (node s i)" "child2 (node s3 i) = child2 (node s i)"
      using ii ig by (simp_all add: C31 C32)
    have c: "child1 (node s i) \<noteq> b2_nullNode" using c3 f by simp
    note L = links_invD(5-9) [OF l ai c]
    have cn: "child1 (node s i) \<noteq> ip" "child2 (node s i) \<noteq> ip"
      using L(4,5) pip ig by auto
    show "height (node s3 i) =
          1 + max (height (node s3 (child1 (node s3 i)))) (height (node s3 (child2 (node s3 i)))) \<and>
        aabb (node s3 i) =
          combine (aabb (node s3 (child1 (node s3 i)))) (aabb (node s3 (child2 (node s3 i))))"
      using exact_invD [OF ex ai _ c] ii cn by (simp add: f H3 B3)
  qed
  have "gp \<noteq> b2_nullNode \<longrightarrow> attached s3 {leaf} gp \<and> child1 (node s3 gp) \<noteq> b2_nullNode"
    using agp gint sn by (auto simp: att C31 dis)
  then show ?thesis
    unfolding tinv_def using pool3 links3 rank3 exact3 root3 det3 by simp
qed

lemma RemoveLeaf_root:
  fixes r :: "int \<Rightarrow> real"
  assumes t: "tinv s {} {} r" and a: "attached s {} leaf"
    and lf: "child1 (node s leaf) = b2_nullNode" and rt: "leaf = m_root s"
  shows "tinv (s\<lparr>m_root := b2_nullNode\<rparr>) {leaf} {} r"
proof -
  let ?s = "s\<lparr>m_root := b2_nullNode\<rparr>"
  from t have pool: "pool_inv s" and l: "links_inv s {}" by (auto simp: tinv_def)
  have al: "allocated ?s j = allocated s j" for j by (simp add: allocated_def)
  have only: "attached s {} j \<Longrightarrow> j = leaf" for j
    using root_leaf_only [OF t _ ] lf rt by simp
  have att: "\<not> attached ?s {leaf} j" for j
    using only [of j] by (auto simp: attached_def al)
  have "pool_inv ?s" by (rule pool_inv_frame [OF pool]) auto
  moreover have "links_inv ?s {leaf}" by (simp add: links_inv_def att)
  moreover have "rank_inv ?s {leaf} r" by (simp add: rank_inv_def att)
  moreover have "exact_inv ?s {leaf} {}" by (simp add: exact_inv_def att)
  moreover have "root_inv ?s {leaf}" by (simp add: root_inv_def att)
  moreover have "detached_inv ?s {leaf}"
    using a links_invD(3,4) [OF l a lf] lf by (simp add: detached_inv_def al attached_def)
  ultimately show ?thesis by (simp add: tinv_def)
qed

lemma RemoveLeaf_tinv:
  fixes r :: "int \<Rightarrow> real"
  assumes t: "tinv s {} {} r" and a: "attached s {} leaf"
    and lf: "child1 (node s leaf) = b2_nullNode"
  shows "\<exists>s1 r1. RemoveLeaf s leaf = Some (Inr s1) \<and> tinv s1 {leaf} {} r1"
proof (cases "leaf = m_root s")
  case True
  then have "RemoveLeaf s leaf = Some (Inr (s\<lparr>m_root := b2_nullNode\<rparr>))"
    by (simp add: RemoveLeaf_def)
  with RemoveLeaf_root [OF t a lf True] show ?thesis by blast
next
  case nr: False
  define ip where "ip = parent (node s leaf)"
  define gp where "gp = parent (node s ip)"
  define sib where
    "sib = (if child1 (node s ip) = leaf then child2 (node s ip) else child1 (node s ip))"
  from t have pool: "pool_inv s" and l: "links_inv s {}" and rk: "rank_inv s {} r"
    and ro: "root_inv s {}"
    by (auto simp: tinv_def)
  note Ll = links_invD [OF l a]
  have aip: "attached s {} ip" and cip: "child1 (node s ip) = leaf \<or> child2 (node s ip) = leaf"
    using Ll(1,2) [OF nr] by (auto simp: ip_def)
  have ln: "leaf \<noteq> b2_nullNode" using a by (rule attached_not_null)
  have ipn: "ip \<noteq> b2_nullNode" using aip by (rule attached_not_null)
  have iint: "child1 (node s ip) \<noteq> b2_nullNode"
    using cip links_invD(3) [OF l aip] ln by auto
  note Lip = links_invD [OF l aip]
  note Lc = Lip(5-9) [OF iint]
  have asib: "attached s {} sib" and psib: "parent (node s sib) = ip" and sl: "sib \<noteq> leaf"
    using Lc cip by (auto simp: sib_def)
  have ch: "(child1 (node s ip) = leaf \<and> child2 (node s ip) = sib) \<or>
             (child1 (node s ip) = sib \<and> child2 (node s ip) = leaf)"
    using cip by (auto simp: sib_def)
  have sn: "sib \<noteq> b2_nullNode" using asib by (rule attached_not_null)
  have rl: "r leaf < r ip" and rs: "r sib < r ip"
    using rank_invD [OF rk aip iint] ch by auto
  have groot: "gp = b2_nullNode \<longleftrightarrow> ip = m_root s"
    unfolding gp_def by (rule parent_null_root [OF l ro aip])
  have agp: "attached s {} gp" and rg: "r ip < r gp" if "gp \<noteq> b2_nullNode"
    using that Lip(1) groot parent_rank [OF l rk aip] by (auto simp: gp_def)
  have d1: "leaf \<noteq> ip" "sib \<noteq> ip" "sib \<noteq> leaf" using rl rs sl by auto
  have d2: "gp \<noteq> leaf" "gp \<noteq> ip" "gp \<noteq> sib"
    using rl rs rg ln ipn sn by (cases "gp = b2_nullNode"; force)+
  note dis = d1 d2 d1 [symmetric] d2 [symmetric]
  have irs: "in_range s leaf" "in_range s ip" "in_range s sib"
    using a aip asib by (auto intro: tinv_attached_in_range)
  define s2 where "s2 = (if gp \<noteq> b2_nullNode then
       upd (if child1 (node s gp) = ip then upd s gp (\<lambda>n. n\<lparr>child1 := sib\<rparr>)
            else upd s gp (\<lambda>n. n\<lparr>child2 := sib\<rparr>)) sib (\<lambda>n. n\<lparr>parent := gp\<rparr>)
     else upd (s\<lparr>m_root := sib\<rparr>) sib (\<lambda>n. n\<lparr>parent := b2_nullNode\<rparr>))"
  have h2: "height (node s2 j) = height (node s j)" for j by (simp add: s2_def)
  have f2: "m_nodeCapacity s2 = m_nodeCapacity s" "m_freeList s2 = m_freeList s"
    "m_nodeCount s2 = m_nodeCount s" "m_root s2 = (if gp = b2_nullNode then sib else m_root s)"
    by (simp_all add: s2_def)
  have pool2: "pool_inv s2"
  proof (rule pool_inv_frame [OF pool f2(1-3)])
    fix i assume i: "in_range s i"
    have "parent (node s2 i) = parent (node s i)" if "height (node s i) = -1"
      using that asib agp by (auto simp: s2_def attached_def allocated_def)
    then show "(height (node s i) = - 1 \<longrightarrow>
          height (node s2 i) = - 1 \<and> next (node s2 i) = next (node s i)) \<and>
         (0 \<le> height (node s i) \<longrightarrow> 0 \<le> height (node s2 i))"
      by (simp add: h2)
  qed
  have al2: "allocated s2 ip" using aip by (simp add: attached_def allocated_def in_range_def f2 h2)
  from FreeNode_ok [OF pool2 al2] obtain s3 where F: "FreeNode s2 ip = Inr s3"
    and pool3: "pool_inv s3"
    and n3: "\<And>j. node s3 j =
       (if j = ip then (node s2 ip)\<lparr>parent := m_freeList s2, height := -1\<rparr> else node s2 j)"
    and f3: "m_nodeCapacity s3 = m_nodeCapacity s2" "m_root s3 = m_root s2"
    by blast
  have T: "tinv s3 {leaf} {j. j = gp \<and> j \<noteq> b2_nullNode} r \<and>
     (gp \<noteq> b2_nullNode \<longrightarrow> attached s3 {leaf} gp \<and> child1 (node s3 gp) \<noteq> b2_nullNode)"
  proof (rule remove_tinv [OF t a lf nr ip_def gp_def sib_def _ _ _ _ _ _ _ pool3])
    show "parent (node s3 j) = (if j = sib then gp else parent (node s j))" if "j \<noteq> ip" for j
      using that by (simp add: n3 s2_def dis)
    show "child1 (node s3 j) =
        (if j = gp \<and> gp \<noteq> b2_nullNode \<and> child1 (node s gp) = ip then sib else child1 (node s j))"
      if "j \<noteq> ip" for j
      using that by (simp add: n3 s2_def dis)
    show "child2 (node s3 j) =
        (if j = gp \<and> gp \<noteq> b2_nullNode \<and> child1 (node s gp) \<noteq> ip then sib else child2 (node s j))"
      if "j \<noteq> ip" for j
      using that by (simp add: n3 s2_def dis)
    show "height (node s3 j) = (if j = ip then -1 else height (node s j))" for j
      by (simp add: n3 h2)
    show "aabb (node s3 j) = aabb (node s j)" if "j \<noteq> ip" for j
      using that by (simp add: n3 s2_def dis)
    show "m_nodeCapacity s3 = m_nodeCapacity s" by (simp add: f3 f2)
    show "m_root s3 = (if gp = b2_nullNode then sib else m_root s)" by (simp add: f3 f2)
  qed
  show ?thesis
  proof (cases "gp = b2_nullNode")
    case True
    then have "RemoveLeaf s leaf = Some (Inr s3)"
      using nr irs F
      by (simp add: RemoveLeaf_def Let_def ip_def [symmetric] gp_def [symmetric]
          sib_def [symmetric] s2_def)
    moreover have "{j. j = gp \<and> j \<noteq> b2_nullNode} = {}" using True by auto
    ultimately show ?thesis using T by auto
  next
    case False
    then have R: "RemoveLeaf s leaf = walk_up remove_fix s3 gp"
      using nr irs F agp [THEN tinv_attached_in_range]
      by (simp add: RemoveLeaf_def Let_def ip_def [symmetric] gp_def [symmetric]
          sib_def [symmetric] s2_def)
    from T False have t3: "tinv s3 {leaf} {j. j = gp \<and> j \<noteq> b2_nullNode} r"
      and ag: "attached s3 {leaf} gp" and cg: "child1 (node s3 gp) \<noteq> b2_nullNode"
      by auto
    have "\<exists>s1 r1. walk_up remove_fix s3 gp = Some (Inr s1) \<and> tinv s1 {leaf} {} r1 \<and>
        m_insertionCount s1 = m_insertionCount s3"
    proof (rule walk_up_remove_fix [OF t3 ag cg])
      fix xs assume "anc_chain s3 gp xs"
      then show "{j. j = gp \<and> j \<noteq> b2_nullNode} \<subseteq> set xs"
        using False by (cases xs) auto
    qed
    with R show ?thesis by auto
  qed
qed

section \<open>Rebuilding: collecting the leaves\<close>

lemma collect_step_Inl [simp]: "collect_step sz i (Inl e) = Inl e"
  by (simp add: collect_step_def)

lemma fold_collect_Inl [simp]: "fold (collect_step sz) xs (Inl e) = Inl e"
  by (induction xs) simp_all

lemma collect_step_inv:
  fixes r :: "int \<Rightarrow> real"
  assumes t: "tinv s0 {} {} r" and c: "collect_inv s0 k s ns" and k: "in_range s0 k"
    and st: "collect_step sz k (Inr (s, ns)) = Inr (s1, ns1)"
  shows "collect_inv s0 (k + 1) s1 ns1"
proof -
  from t have l: "links_inv s0 {}" by (simp add: tinv_def)
  from c have pool: "pool_inv s" and cap: "m_nodeCapacity s = m_nodeCapacity s0"
    and d: "distinct ns"
    and al: "\<And>j. in_range s0 j \<Longrightarrow> j < k \<Longrightarrow> allocated s j \<longleftrightarrow> j \<in> set ns"
    and ns: "\<And>j. j \<in> set ns \<Longrightarrow> j < k \<and> in_range s0 j \<and> child1 (node s j) = b2_nullNode \<and>
        child2 (node s j) = b2_nullNode \<and> height (node s j) = 0 \<and>
        parent (node s j) = b2_nullNode"
    and same: "\<And>j. k \<le> j \<Longrightarrow> in_range s0 j \<Longrightarrow> node s j = node s0 j"
    by (auto simp: collect_inv_def)
  have nk: "node s k = node s0 k" using same [of k] k by simp
  have kn: "k \<notin> set ns" using ns [of k] by auto
  have ir: "in_range s j = in_range s0 j" for j by (simp add: in_range_def cap)
  consider "height (node s0 k) < 0"
    | "0 \<le> height (node s0 k)" "child1 (node s0 k) = b2_nullNode"
    | "0 \<le> height (node s0 k)" "child1 (node s0 k) \<noteq> b2_nullNode"
    by linarith
  then show ?thesis
  proof cases
    case 1
    with st have e: "s1 = s" "ns1 = ns" by (simp_all add: collect_step_def nk)
    have "\<not> allocated s k" using 1 by (simp add: allocated_def nk)
    then have "allocated s j \<longleftrightarrow> j \<in> set ns" if "in_range s0 j" "j < k + 1" for j
      using that al [of j] kn by (cases "j = k") auto
    moreover have "j < k + 1 \<and> in_range s0 j \<and> child1 (node s j) = b2_nullNode \<and>
        child2 (node s j) = b2_nullNode \<and> height (node s j) = 0 \<and>
        parent (node s j) = b2_nullNode" if "j \<in> set ns" for j
      using ns [OF that] by simp
    moreover have "node s j = node s0 j" if "k + 1 \<le> j" "in_range s0 j" for j
      using that same [of j] by simp
    ultimately show ?thesis unfolding e collect_inv_def
      using pool cap d by blast
  next
    case 2
    have a0: "attached s0 {} k" using k 2(1) by (simp add: attached_def allocated_def)
    note L = links_invD(3,4) [OF l a0 2(2)]
    from st 2 have e: "s1 = upd s k (\<lambda>n. n\<lparr>parent := b2_nullNode\<rparr>)" "ns1 = ns @ [k]"
      by (auto simp: collect_step_def nk IsLeaf_def split: if_splits)
    have ak: "allocated s k" using k 2(1) by (simp add: allocated_def nk ir)
    have al1: "allocated s1 j = allocated s j" for j by (simp add: e allocated_def)
    have "pool_inv s1"
      unfolding e
    proof (rule pool_inv_frame [OF pool])
      fix i assume "in_range s i"
      show "(height (node s i) = - 1 \<longrightarrow>
          height (node (upd s k (\<lambda>n. n\<lparr>parent := b2_nullNode\<rparr>)) i) = - 1 \<and>
          next (node (upd s k (\<lambda>n. n\<lparr>parent := b2_nullNode\<rparr>)) i) = next (node s i)) \<and>
         (0 \<le> height (node s i) \<longrightarrow> 0 \<le> height (node (upd s k (\<lambda>n. n\<lparr>parent := b2_nullNode\<rparr>)) i))"
        using ak by (auto simp: allocated_def)
    qed simp_all
    moreover have "m_nodeCapacity s1 = m_nodeCapacity s0" by (simp add: e cap)
    moreover have "distinct ns1" using d kn by (simp add: e)
    moreover have "allocated s1 j \<longleftrightarrow> j \<in> set ns1" if "in_range s0 j" "j < k + 1" for j
      using that al [of j] ak by (cases "j = k") (auto simp: al1 e(2))
    moreover have "j < k + 1 \<and> in_range s0 j \<and> child1 (node s1 j) = b2_nullNode \<and>
        child2 (node s1 j) = b2_nullNode \<and> height (node s1 j) = 0 \<and>
        parent (node s1 j) = b2_nullNode" if "j \<in> set ns1" for j
    proof (cases "j = k")
      case True
      then show ?thesis using k 2(2) L by (simp add: e nk)
    next
      case False
      with that have "j \<in> set ns" by (simp add: e)
      from ns [OF this] False show ?thesis by (simp add: e)
    qed
    moreover have "node s1 j = node s0 j" if "k + 1 \<le> j" "in_range s0 j" for j
      using that same [of j] by (simp add: e)
    ultimately show ?thesis unfolding collect_inv_def by blast
  next
    case 3
    have ak: "allocated s k" using k 3(1) by (simp add: allocated_def nk ir)
    from st 3 have F: "FreeNode s k = Inr s1" and e: "ns1 = ns"
      by (auto simp: collect_step_def nk IsLeaf_def split: if_splits sum.splits)
    from FreeNode_ok [OF pool ak] F have p1: "pool_inv s1"
      and n1: "\<And>j. node s1 j =
        (if j = k then (node s k)\<lparr>parent := m_freeList s, height := -1\<rparr> else node s j)"
      and c1: "m_nodeCapacity s1 = m_nodeCapacity s"
      by auto
    have ir1: "in_range s1 j = in_range s0 j" for j by (simp add: in_range_def cap c1)
    have "allocated s1 j \<longleftrightarrow> j \<in> set ns1" if "in_range s0 j" "j < k + 1" for j
    proof (cases "j = k")
      case True
      then show ?thesis using kn by (simp add: allocated_def n1 e)
    next
      case False
      then have "allocated s1 j = allocated s j" by (simp add: allocated_def n1 ir ir1)
      with al [of j] that False show ?thesis by (simp add: e)
    qed
    moreover have "j < k + 1 \<and> in_range s0 j \<and> child1 (node s1 j) = b2_nullNode \<and>
        child2 (node s1 j) = b2_nullNode \<and> height (node s1 j) = 0 \<and>
        parent (node s1 j) = b2_nullNode" if "j \<in> set ns1" for j
    proof -
      from that have j: "j \<in> set ns" by (simp add: e)
      with kn have "j \<noteq> k" by auto
      with ns [OF j] show ?thesis by (simp add: n1)
    qed
    moreover have "node s1 j = node s0 j" if "k + 1 \<le> j" "in_range s0 j" for j
      using that same [of j] by (simp add: n1)
    ultimately show ?thesis unfolding collect_inv_def using p1 c1 cap d e by auto
  qed
qed

lemma collect_fold_inv:
  fixes r :: "int \<Rightarrow> real"
  assumes t: "tinv s0 {} {} r"
  shows "fold (collect_step sz) [lo..hi] (Inr (s, ns)) = Inr (s1, ns1) \<Longrightarrow>
     collect_inv s0 lo s ns \<Longrightarrow> 0 \<le> lo \<Longrightarrow> hi < m_nodeCapacity s0 \<Longrightarrow> lo \<le> hi + 1 \<Longrightarrow>
     collect_inv s0 (hi + 1) s1 ns1"
proof (induction lo hi arbitrary: s ns rule: upto.induct)
  case (1 i j)
  show ?case
  proof (cases "i \<le> j")
    case False
    with 1(6) have "i = j + 1" by simp
    with 1(2,3) False show ?thesis by simp
  next
    case True
    then have u: "[i..j] = i # [i + 1..j]" by (simp add: upto_rec1)
    have ir: "in_range s0 i" using True 1(4,5) by (simp add: in_range_def)
    obtain r1 where r1: "collect_step sz i (Inr (s, ns)) = r1" by simp
    show ?thesis
    proof (cases r1)
      case (Inl e)
      with 1(2) u r1 show ?thesis by simp
    next
      case (Inr p)
      obtain s2 ns2 where p: "p = (s2, ns2)" by (cases p)
      from collect_step_inv [OF t 1(3) ir, of sz s2 ns2] r1 Inr p
      have c2: "collect_inv s0 (i + 1) s2 ns2" by simp
      from 1(2) u r1 Inr p have f: "fold (collect_step sz) [i + 1..j] (Inr (s2, ns2)) = Inr (s1, ns1)"
        by simp
      from 1(1) [OF True f c2] 1(4,5) True show ?thesis by simp
    qed
  qed
qed

lemma collect_forest:
  assumes c: "collect_inv s0 (m_nodeCapacity s0) s ns"
  shows "forest_inv s (set ns)"
proof -
  from c have pool: "pool_inv s" and cap: "m_nodeCapacity s = m_nodeCapacity s0"
    and al: "\<And>j. in_range s0 j \<Longrightarrow> allocated s j \<longleftrightarrow> j \<in> set ns"
    and ns: "\<And>j. j \<in> set ns \<Longrightarrow> in_range s0 j \<and> child1 (node s j) = b2_nullNode \<and>
        child2 (node s j) = b2_nullNode \<and> height (node s j) = 0 \<and>
        parent (node s j) = b2_nullNode"
    by (auto simp: collect_inv_def in_range_def)
  have a: "allocated s j \<longleftrightarrow> j \<in> set ns" for j
    using al [of j] ns [of j] by (auto simp: allocated_def in_range_def cap)
  show ?thesis
    unfolding forest_inv_def using pool ns by (auto simp: a)
qed

section \<open>Rebuilding: joining two roots\<close>

lemma fold_invariant:
  "Q a \<Longrightarrow> (\<And>x a. x \<in> set xs \<Longrightarrow> Q a \<Longrightarrow> Q (f x a)) \<Longrightarrow> Q (fold f xs a)"
  by (induction xs arbitrary: a) simp_all

lemma min_pair_range:
  assumes "min_pair maxFloat s ns = (c, i, j)"
  shows "(i = - 1 \<and> j = - 1) \<or> (0 \<le> i \<and> i < j \<and> j < int (length ns))"
proof -
  let ?Q = "\<lambda>acc :: real \<times> int \<times> int. case acc of (c, i, j) \<Rightarrow>
      (i = - 1 \<and> j = - 1) \<or> (0 \<le> i \<and> i < j \<and> j < int (length ns))"
  have "?Q (min_pair maxFloat s ns)"
    unfolding min_pair_def
  proof (rule fold_invariant [where Q = ?Q])
    show "?Q (maxFloat, - 1, - 1)" by simp
  next
    fix x and a :: "real \<times> int \<times> int"
    assume x: "x \<in> set [0..int (length ns) - 1]" and a: "?Q a"
    show "?Q (fold (min_pair_step s ns x) [x + 1..int (length ns) - 1] a)"
    proof (rule fold_invariant [where Q = ?Q, OF a])
      fix y and b :: "real \<times> int \<times> int"
      assume y: "y \<in> set [x + 1..int (length ns) - 1]" and b: "?Q b"
      obtain c i j where bb: "b = (c, i, j)" by (cases b)
      from x y b show "?Q (min_pair_step s ns x y b)"
        by (auto simp: min_pair_step_def Let_def bb)
    qed
  qed
  with assms show ?thesis by simp
qed

lemma replace_pair:
  assumes d: "distinct xs" and ij: "i < j" "j < length xs" and n: "n \<notin> set xs"
  shows "set (butlast ((xs[j := last xs])[i := n])) = insert n (set xs - {xs ! i, xs ! j})"
    "distinct (butlast ((xs[j := last xs])[i := n]))"
proof -
  from ij have "xs \<noteq> []" by auto
  then obtain ys z where xs: "xs = ys @ [z]" by (cases xs rule: rev_cases) auto
  from d n have dy: "distinct ys" and z: "z \<notin> set ys" and ny: "n \<notin> set ys" and nz: "n \<noteq> z"
    by (auto simp: xs)
  from ij have i: "i < length ys" and j: "j \<le> length ys" by (auto simp: xs)
  have zi: "z \<noteq> ys ! i" using z i by auto
  have xi: "xs ! i = ys ! i" using i by (simp add: xs nth_append)
  have sx: "set xs = insert z (set ys)" by (simp add: xs)
  have lx: "last xs = z" by (simp add: xs)
  show "set (butlast ((xs[j := last xs])[i := n])) = insert n (set xs - {xs ! i, xs ! j})"
  proof (cases "j = length ys")
    case True
    have xj: "xs ! j = z" by (simp add: xs True)
    have "xs[j := z] = xs" by (simp add: xs True)
    then have e: "butlast ((xs[j := last xs])[i := n]) = ys[i := n]"
      using i by (simp add: lx) (simp add: xs list_update_append1)
    have s: "set (ys[i := n]) = insert n (set ys - {ys ! i})"
      using dy i by (rule set_update_distinct)
    show ?thesis unfolding e s xi xj sx using z by auto
  next
    case False
    with j have j': "j < length ys" by simp
    have jz: "z \<noteq> ys ! j" using z j' by auto
    have xj: "xs ! j = ys ! j" using j' by (simp add: xs nth_append)
    have "xs[j := z] = ys[j := z] @ [z]" using j' by (simp add: xs list_update_append1)
    then have e: "butlast ((xs[j := last xs])[i := n]) = (ys[j := z])[i := n]"
      using i by (simp add: lx list_update_append1)
    have dz: "distinct (ys[j := z])" using dy z by (intro distinct_list_update) auto
    have s1: "set (ys[j := z]) = insert z (set ys - {ys ! j})"
      using dy j' by (rule set_update_distinct)
    have yi: "(ys[j := z]) ! i = ys ! i" using ij by simp
    have s2: "set ((ys[j := z])[i := n]) = insert n (set (ys[j := z]) - {(ys[j := z]) ! i})"
      using dz i by (intro set_update_distinct) simp_all
    show ?thesis unfolding e s2 yi s1 xi xj sx using zi jz by auto
  qed
  show "distinct (butlast ((xs[j := last xs])[i := n]))"
  proof (cases "j = length ys")
    case True
    have "xs[j := z] = xs" by (simp add: xs True)
    then have e: "butlast ((xs[j := last xs])[i := n]) = ys[i := n]"
      using i by (simp add: lx) (simp add: xs list_update_append1)
    moreover have "distinct (ys[i := n])" using dy ny by (intro distinct_list_update) auto
    ultimately show ?thesis by simp
  next
    case False
    with j have j': "j < length ys" by simp
    have "xs[j := z] = ys[j := z] @ [z]" using j' by (simp add: xs list_update_append1)
    then have e: "butlast ((xs[j := last xs])[i := n]) = (ys[j := z])[i := n]"
      using i by (simp add: lx list_update_append1)
    have dz: "distinct (ys[j := z])" using dy z by (intro distinct_list_update) auto
    have "set (ys[j := z]) \<subseteq> insert z (set ys)" by (rule set_update_subset_insert)
    with ny nz have "n \<notin> set (ys[j := z])" by auto
    then have "n \<notin> set (ys[j := z]) - {(ys[j := z]) ! i}" by simp
    with dz have "distinct ((ys[j := z])[i := n])" by (rule distinct_list_update)
    with e show ?thesis by simp
  qed
qed

lemma join_forest:
  assumes f: "forest_inv s R" and ab: "a \<in> R" "b \<in> R" "a \<noteq> b"
    and A: "AllocateNode s = Inr (s1, n)"
    and P8: "\<And>j. parent (node s8 j) =
        (if j = n then b2_nullNode else if j = a \<or> j = b then n else parent (node s1 j))"
    and C81: "\<And>j. child1 (node s8 j) = (if j = n then a else child1 (node s1 j))"
    and C82: "\<And>j. child2 (node s8 j) = (if j = n then b else child2 (node s1 j))"
    and H8: "\<And>j. height (node s8 j) =
        (if j = n then 1 + max (height (node s1 a)) (height (node s1 b)) else height (node s1 j))"
    and B8: "\<And>j. aabb (node s8 j) =
        (if j = n then combine (aabb (node s1 a)) (aabb (node s1 b)) else aabb (node s1 j))"
    and F8: "m_nodeCapacity s8 = m_nodeCapacity s1" "m_freeList s8 = m_freeList s1"
      "m_nodeCount s8 = m_nodeCount s1"
  shows "forest_inv s8 (insert n (R - {a, b}))"
proof -
  from f have pool: "pool_inv s"
    and roots: "\<And>x. x \<in> R \<Longrightarrow> allocated s x \<and> parent (node s x) = b2_nullNode"
    and up: "\<And>i. allocated s i \<Longrightarrow> i \<notin> R \<Longrightarrow> allocated s (parent (node s i)) \<and>
           (child1 (node s (parent (node s i))) = i \<or> child2 (node s (parent (node s i))) = i)"
    and lf: "\<And>i. allocated s i \<Longrightarrow> child1 (node s i) = b2_nullNode \<Longrightarrow>
           child2 (node s i) = b2_nullNode \<and> height (node s i) = 0"
    and dn: "\<And>i. allocated s i \<Longrightarrow> child1 (node s i) \<noteq> b2_nullNode \<Longrightarrow>
           allocated s (child1 (node s i)) \<and> allocated s (child2 (node s i)) \<and>
           child1 (node s i) \<noteq> child2 (node s i) \<and>
           parent (node s (child1 (node s i))) = i \<and>
           parent (node s (child2 (node s i))) = i \<and>
           height (node s i) =
             1 + max (height (node s (child1 (node s i)))) (height (node s (child2 (node s i)))) \<and>
           aabb (node s i) =
             combine (aabb (node s (child1 (node s i)))) (aabb (node s (child2 (node s i))))"
    unfolding forest_inv_def by blast+
  from AllocateNode_ok [OF pool] A have irn: "in_range s1 n" and nn: "\<not> allocated s n"
    and h1: "height (node s1 n) = 0"
    and same: "\<And>j. allocated s j \<Longrightarrow> node s1 j = node s j"
    and all1: "\<And>j. allocated s1 j \<longleftrightarrow> allocated s j \<or> j = n"
    and pool1: "pool_inv s1"
    by auto
  have aa: "allocated s a" "allocated s b" and pa: "parent (node s a) = b2_nullNode"
    "parent (node s b) = b2_nullNode"
    using roots ab by auto
  have na: "n \<noteq> a" "n \<noteq> b" "a \<noteq> n" "b \<noteq> n" using aa nn by auto
  have anull: "a \<noteq> b2_nullNode" "b \<noteq> b2_nullNode" "n \<noteq> b2_nullNode"
    using aa irn by (auto dest: allocated_not_null)
  have ha: "0 \<le> height (node s a)" "0 \<le> height (node s b)"
    using aa by (auto simp: allocated_def)
  have ir8: "in_range s8 j = in_range s1 j" for j by (simp add: in_range_def F8)
  have all8: "allocated s8 j \<longleftrightarrow> allocated s j \<or> j = n" for j
    using all1 [of j] irn ha by (auto simp: allocated_def ir8 H8 same [OF aa(1)] same [OF aa(2)])
  have pool8: "pool_inv s8"
  proof (rule pool_inv_frame [OF pool1 F8])
    fix i assume i: "in_range s1 i"
    have "i \<noteq> a \<and> i \<noteq> b \<and> i \<noteq> n" if "height (node s1 i) = - 1"
      using that h1 ha same [OF aa(1)] same [OF aa(2)] by auto
    moreover have "0 \<le> height (node s8 i)" if "0 \<le> height (node s1 i)"
      using that ha same [OF aa(1)] same [OF aa(2)] by (simp add: H8)
    ultimately show "(height (node s1 i) = - 1 \<longrightarrow>
          height (node s8 i) = - 1 \<and> next (node s8 i) = next (node s1 i)) \<and>
         (0 \<le> height (node s1 i) \<longrightarrow> 0 \<le> height (node s8 i))"
      by (auto simp: H8 P8)
  qed
  have f8: "parent (node s8 j) = (if j = a \<or> j = b then n else parent (node s j))"
    "child1 (node s8 j) = child1 (node s j)" "child2 (node s8 j) = child2 (node s j)"
    "height (node s8 j) = height (node s j)" "aabb (node s8 j) = aabb (node s j)"
    if "allocated s j" for j
  proof -
    from that nn have "j \<noteq> n" by auto
    then show "parent (node s8 j) = (if j = a \<or> j = b then n else parent (node s j))"
      "child1 (node s8 j) = child1 (node s j)" "child2 (node s8 j) = child2 (node s j)"
      "height (node s8 j) = height (node s j)" "aabb (node s8 j) = aabb (node s j)"
      by (simp_all add: P8 C81 C82 H8 B8 same [OF that])
  qed
  have kids: "allocated s c \<and> c \<noteq> a \<and> c \<noteq> b \<and> c \<noteq> n"
    if "allocated s i" "child1 (node s i) \<noteq> b2_nullNode"
      "c = child1 (node s i) \<or> c = child2 (node s i)" for i c
  proof -
    from dn [OF that(1,2)] that(3) have "allocated s c" "parent (node s c) = i" by auto
    moreover have "i \<noteq> b2_nullNode" using that(1) by (rule allocated_not_null)
    ultimately show ?thesis using pa nn by auto
  qed
  show ?thesis
    unfolding forest_inv_def
  proof (intro conjI ballI allI impI)
    show "pool_inv s8" by (rule pool8)
  next
    fix x assume "x \<in> insert n (R - {a, b})"
    then consider "x = n" | "x \<in> R" "x \<noteq> a" "x \<noteq> b" by auto
    then have "allocated s8 x \<and> parent (node s8 x) = b2_nullNode"
    proof cases
      case 1
      then show ?thesis by (simp add: all8 P8)
    next
      case 2
      with roots [OF 2(1)] show ?thesis by (simp add: all8 f8)
    qed
    then show "allocated s8 x" "parent (node s8 x) = b2_nullNode" by simp_all
  next
    fix i assume i8: "allocated s8 i" and nr: "i \<notin> insert n (R - {a, b})"
    then have i: "allocated s i" and "i \<noteq> n" by (auto simp: all8)
    show "allocated s8 (parent (node s8 i))"
      "child1 (node s8 (parent (node s8 i))) = i \<or> child2 (node s8 (parent (node s8 i))) = i"
    proof -
      have "allocated s8 (parent (node s8 i)) \<and>
        (child1 (node s8 (parent (node s8 i))) = i \<or> child2 (node s8 (parent (node s8 i))) = i)"
      proof (cases "i = a \<or> i = b")
        case True
        then show ?thesis by (auto simp: f8 [OF i] all8 C81 C82)
      next
        case False
        with nr have "i \<notin> R" by auto
        from up [OF i this] False show ?thesis by (auto simp: f8 [OF i] f8 all8)
      qed
      then show "allocated s8 (parent (node s8 i))"
        "child1 (node s8 (parent (node s8 i))) = i \<or> child2 (node s8 (parent (node s8 i))) = i"
        by auto
    qed
  next
    fix i assume i8: "allocated s8 i" and c: "child1 (node s8 i) = b2_nullNode"
    then have i: "allocated s i" using anull by (auto simp: all8 C81)
    from lf [OF i] c show "child2 (node s8 i) = b2_nullNode" "height (node s8 i) = 0"
      by (simp_all add: f8 [OF i])
  next
    fix i assume i8: "allocated s8 i" and c: "child1 (node s8 i) \<noteq> b2_nullNode"
    have "allocated s8 (child1 (node s8 i)) \<and> allocated s8 (child2 (node s8 i)) \<and>
           child1 (node s8 i) \<noteq> child2 (node s8 i) \<and>
           parent (node s8 (child1 (node s8 i))) = i \<and>
           parent (node s8 (child2 (node s8 i))) = i \<and>
           height (node s8 i) =
             1 + max (height (node s8 (child1 (node s8 i)))) (height (node s8 (child2 (node s8 i)))) \<and>
           aabb (node s8 i) =
             combine (aabb (node s8 (child1 (node s8 i)))) (aabb (node s8 (child2 (node s8 i))))"
    proof (cases "i = n")
      case True
      show ?thesis using aa ab(3)
        by (simp add: True C81 C82 H8 B8 P8 all8 na same [OF aa(1)] same [OF aa(2)])
    next
      case False
      with i8 have i: "allocated s i" by (simp add: all8)
      from c have c0: "child1 (node s i) \<noteq> b2_nullNode" by (simp add: f8 [OF i])
      note K1 = kids [OF i c0, of "child1 (node s i)"]
      note K2 = kids [OF i c0, of "child2 (node s i)"]
      from K1 K2 have k: "allocated s (child1 (node s i))" "allocated s (child2 (node s i))"
        "child1 (node s i) \<noteq> a" "child1 (node s i) \<noteq> b"
        "child2 (node s i) \<noteq> a" "child2 (node s i) \<noteq> b"
        by auto
      from dn [OF i c0] show ?thesis
        by (simp add: f8 [OF i] f8 [OF k(1)] f8 [OF k(2)] k all8)
    qed
    then show "allocated s8 (child1 (node s8 i))" "allocated s8 (child2 (node s8 i))"
      "child1 (node s8 i) \<noteq> child2 (node s8 i)"
      "parent (node s8 (child1 (node s8 i))) = i"
      "parent (node s8 (child2 (node s8 i))) = i"
      "height (node s8 i) =
             1 + max (height (node s8 (child1 (node s8 i)))) (height (node s8 (child2 (node s8 i))))"
      "aabb (node s8 i) =
             combine (aabb (node s8 (child1 (node s8 i)))) (aabb (node s8 (child2 (node s8 i))))"
      by auto
  qed
qed

lemma join_pair_forest:
  assumes f: "forest_inv s (set ns)" and d: "distinct ns"
    and J: "join_pair maxFloat s ns = Inr (s8, ns1)"
  shows "forest_inv s8 (set ns1) \<and> distinct ns1"
proof -
  obtain c i j where mp: "min_pair maxFloat s ns = (c, i, j)" by (cases "min_pair maxFloat s ns")
  define a where "a = ns ! nat i"
  define b where "b = ns ! nat j"
  from J have ri: "0 \<le> i" "i < int (length ns)" and rj: "0 \<le> j" "j < int (length ns)"
    by (auto simp: join_pair_def mp Let_def split: if_splits)
  with J obtain s1 n where A: "AllocateNode s = Inr (s1, n)"
    and s8: "s8 = upd (upd (upd (upd (upd (upd (upd s1 n (\<lambda>n. n\<lparr>child1 := a\<rparr>)) n
        (\<lambda>n. n\<lparr>child2 := b\<rparr>)) n
        (\<lambda>m. m\<lparr>height := 1 + max (height (node (upd (upd s1 n (\<lambda>n. n\<lparr>child1 := a\<rparr>)) n
              (\<lambda>n. n\<lparr>child2 := b\<rparr>)) a))
            (height (node (upd (upd s1 n (\<lambda>n. n\<lparr>child1 := a\<rparr>)) n (\<lambda>n. n\<lparr>child2 := b\<rparr>)) b))\<rparr>)) n
        (\<lambda>m. m\<lparr>aabb := combine
            (aabb (node (upd (upd (upd s1 n (\<lambda>n. n\<lparr>child1 := a\<rparr>)) n (\<lambda>n. n\<lparr>child2 := b\<rparr>)) n
               (\<lambda>m. m\<lparr>height := 1 + max (height (node (upd (upd s1 n (\<lambda>n. n\<lparr>child1 := a\<rparr>)) n
              (\<lambda>n. n\<lparr>child2 := b\<rparr>)) a))
            (height (node (upd (upd s1 n (\<lambda>n. n\<lparr>child1 := a\<rparr>)) n (\<lambda>n. n\<lparr>child2 := b\<rparr>)) b))\<rparr>)) a))
            (aabb (node (upd (upd (upd s1 n (\<lambda>n. n\<lparr>child1 := a\<rparr>)) n (\<lambda>n. n\<lparr>child2 := b\<rparr>)) n
               (\<lambda>m. m\<lparr>height := 1 + max (height (node (upd (upd s1 n (\<lambda>n. n\<lparr>child1 := a\<rparr>)) n
              (\<lambda>n. n\<lparr>child2 := b\<rparr>)) a))
            (height (node (upd (upd s1 n (\<lambda>n. n\<lparr>child1 := a\<rparr>)) n (\<lambda>n. n\<lparr>child2 := b\<rparr>)) b))\<rparr>)) b))\<rparr>)) n
        (\<lambda>n. n\<lparr>parent := b2_nullNode\<rparr>)) a (\<lambda>m. m\<lparr>parent := n\<rparr>)) b (\<lambda>m. m\<lparr>parent := n\<rparr>)"
    and ns1: "ns1 = butlast ((ns[nat j := last ns])[nat i := n])"
    by (auto simp: join_pair_def mp Let_def a_def b_def split: if_splits sum.splits)
  from min_pair_range [OF mp] ri have ij: "i < j" by auto
  have nij: "nat i < nat j" "nat j < length ns" using ri rj ij by auto
  have ab: "a \<in> set ns" "b \<in> set ns" using nij by (auto simp: a_def b_def)
  have ab': "a \<noteq> b" using d nij by (auto simp: a_def b_def nth_eq_iff_index_eq)
  from f have pool: "pool_inv s" and al: "\<And>x. x \<in> set ns \<Longrightarrow> allocated s x"
    by (auto simp: forest_inv_def)
  from AllocateNode_ok [OF pool] A have nn: "\<not> allocated s n" by auto
  then have nns: "n \<notin> set ns" using al by auto
  have na: "n \<noteq> a" "n \<noteq> b" using nns ab by auto
  note dis = na ab' na [symmetric] ab' [symmetric]
  have "forest_inv s8 (insert n (set ns - {a, b}))"
  proof (rule join_forest [OF f ab ab' A])
    show "parent (node s8 j) =
        (if j = n then b2_nullNode else if j = a \<or> j = b then n else parent (node s1 j))" for j
      by (simp add: s8 dis)
    show "child1 (node s8 j) = (if j = n then a else child1 (node s1 j))" for j
      by (simp add: s8 dis)
    show "child2 (node s8 j) = (if j = n then b else child2 (node s1 j))" for j
      by (simp add: s8 dis)
    show "height (node s8 j) =
        (if j = n then 1 + max (height (node s1 a)) (height (node s1 b)) else height (node s1 j))" for j
      by (simp add: s8 dis)
    show "aabb (node s8 j) =
        (if j = n then combine (aabb (node s1 a)) (aabb (node s1 b)) else aabb (node s1 j))" for j
      by (simp add: s8 dis)
  qed (simp_all add: s8)
  moreover from replace_pair [OF d nij nns]
  have "set ns1 = insert n (set ns - {a, b})" "distinct ns1"
    by (simp_all add: ns1 a_def b_def)
  ultimately show ?thesis by simp
qed

lemma rebuild_loop_forest:
  "forest_inv s (set ns) \<Longrightarrow> distinct ns \<Longrightarrow> rebuild_loop maxFloat s ns = Inr (s1, ns1) \<Longrightarrow>
     forest_inv s1 (set ns1) \<and> distinct ns1 \<and> length ns1 \<le> 1"
proof (induction maxFloat s ns rule: rebuild_loop.induct)
  case (1 maxFloat s nodes)
  show ?case
  proof (cases "length nodes \<le> 1")
    case True
    with 1(4) have "s1 = s" "ns1 = nodes" by (simp_all add: rebuild_loop.simps)
    with 1(2,3) True show ?thesis by simp
  next
    case False
    show ?thesis
    proof (cases "join_pair maxFloat s nodes")
      case (Inl e)
      with 1(4) False show ?thesis by (simp add: rebuild_loop.simps)
    next
      case (Inr p)
      obtain s2 ns2 where p: "p = (s2, ns2)" by (cases p)
      from join_pair_forest [OF 1(2,3)] Inr p
      have f2: "forest_inv s2 (set ns2)" "distinct ns2" by simp_all
      from 1(4) False Inr p have r: "rebuild_loop maxFloat s2 ns2 = Inr (s1, ns1)"
        by (simp add: rebuild_loop.simps [of maxFloat s nodes])
      from 1(1) [OF False Inr p [symmetric] f2 r] show ?thesis .
    qed
  qed
qed

lemma forest_tree:
  assumes f: "forest_inv s {x}"
  shows "tree_inv (s\<lparr>m_root := x\<rparr>)"
proof -
  let ?s = "s\<lparr>m_root := x\<rparr>"
  from f have pool: "pool_inv s"
    and root: "allocated s x" "parent (node s x) = b2_nullNode"
    and up: "\<And>i. allocated s i \<Longrightarrow> i \<noteq> x \<Longrightarrow> allocated s (parent (node s i)) \<and>
           (child1 (node s (parent (node s i))) = i \<or> child2 (node s (parent (node s i))) = i)"
    and lf: "\<And>i. allocated s i \<Longrightarrow> child1 (node s i) = b2_nullNode \<Longrightarrow>
           child2 (node s i) = b2_nullNode \<and> height (node s i) = 0"
    and dn: "\<And>i. allocated s i \<Longrightarrow> child1 (node s i) \<noteq> b2_nullNode \<Longrightarrow>
           allocated s (child1 (node s i)) \<and> allocated s (child2 (node s i)) \<and>
           child1 (node s i) \<noteq> child2 (node s i) \<and>
           parent (node s (child1 (node s i))) = i \<and>
           parent (node s (child2 (node s i))) = i \<and>
           height (node s i) =
             1 + max (height (node s (child1 (node s i)))) (height (node s (child2 (node s i)))) \<and>
           aabb (node s i) =
             combine (aabb (node s (child1 (node s i)))) (aabb (node s (child2 (node s i))))"
    unfolding forest_inv_def by blast+
  have att: "attached ?s {} i \<longleftrightarrow> allocated s i" for i by (simp add: attached_def allocated_def)
  have "pool_inv ?s" by (rule pool_inv_frame [OF pool]) auto
  moreover have "links_inv ?s {}"
    unfolding links_inv_def using up lf dn by (simp add: att)
  moreover have "exact_inv ?s {} {}"
    unfolding exact_inv_def using dn by (simp add: att)
  moreover have "rank_inv ?s {} (hrank s)"
    unfolding rank_inv_def
  proof (intro allI impI)
    fix i assume "attached ?s {} i \<and> child1 (node ?s i) \<noteq> b2_nullNode"
    then have i: "allocated s i" "child1 (node s i) \<noteq> b2_nullNode" by (simp_all add: att)
    from dn [OF i] have "0 \<le> height (node s (child1 (node s i)))"
      "0 \<le> height (node s (child2 (node s i)))"
      "height (node s i) =
        1 + max (height (node s (child1 (node s i)))) (height (node s (child2 (node s i))))"
      by (simp_all add: allocated_def)
    then have "height (node s (child1 (node s i))) < height (node s i)"
      "height (node s (child2 (node s i))) < height (node s i)" by simp_all
    then show "hrank s (child1 (node ?s i)) < hrank s i \<and> hrank s (child2 (node ?s i)) < hrank s i"
      by (simp add: hrank_def)
  qed
  moreover have "root_inv ?s {}"
    using root allocated_not_null [OF root(1)] by (simp add: root_inv_def att)
  moreover have "detached_inv ?s {}" by (simp add: detached_inv_def)
  ultimately have "tinv ?s {} {} (hrank s)" by (simp add: tinv_def)
  moreover have "hrank ?s = hrank s" by (rule ext) (simp add: hrank_def)
  ultimately show ?thesis by (simp add: tree_inv_def)
qed

lemma RebuildBottomUp_tree_inv:
  assumes t: "tree_inv s" and R: "RebuildBottomUp maxFloat s = Inr s1"
  shows "tree_inv s1"
proof -
  from t have t': "tinv s {} {} (hrank s)" by (simp add: tree_inv_def)
  then have pool: "pool_inv s" by (simp add: tinv_def)
  from R obtain s2 ns2 s3 ns3 where
    c: "fold (collect_step (m_nodeCount s)) [0..m_nodeCapacity s - 1] (Inr (s, [])) = Inr (s2, ns2)"
    and l: "rebuild_loop maxFloat s2 ns2 = Inr (s3, ns3)"
    and n: "ns3 \<noteq> []" and s1: "s1 = s3\<lparr>m_root := ns3 ! 0\<rparr>"
    by (auto simp: RebuildBottomUp_def split: sum.splits if_splits)
  have c0: "collect_inv s 0 s []"
    using pool by (auto simp: collect_inv_def in_range_def)
  have cap: "0 < m_nodeCapacity s" using pool by (simp add: pool_inv_def)
  from collect_fold_inv [OF t' c c0] cap
  have ci: "collect_inv s (m_nodeCapacity s) s2 ns2" by simp
  then have f2: "forest_inv s2 (set ns2)" by (rule collect_forest)
  from ci have d2: "distinct ns2" by (simp add: collect_inv_def)
  from rebuild_loop_forest [OF f2 d2 l]
  have f3: "forest_inv s3 (set ns3)" and len: "length ns3 \<le> 1" by simp_all
  from n len obtain x where x: "ns3 = [x]" by (cases ns3) auto
  from f3 have "forest_inv s3 {x}" by (simp add: x)
  then have "tree_inv (s3\<lparr>m_root := x\<rparr>)" by (rule forest_tree)
  then show ?thesis by (simp add: s1 x)
qed

section \<open>The public operations keep the shape\<close>

lemma tree_invI:
  fixes r :: "int \<Rightarrow> real"
  assumes t: "tinv s {} {} r"
  shows "tree_inv s"
proof -
  from t have l: "links_inv s {}" and ex: "exact_inv s {} {}" by (auto simp: tinv_def)
  have "rank_inv s {} (hrank s)"
    unfolding rank_inv_def
  proof (intro allI impI)
    fix i assume "attached s {} i \<and> child1 (node s i) \<noteq> b2_nullNode"
    then have a: "attached s {} i" and c: "child1 (node s i) \<noteq> b2_nullNode" by auto
    have "0 \<le> height (node s (child1 (node s i)))" "0 \<le> height (node s (child2 (node s i)))"
      using links_invD(5,6) [OF l a c] by (auto simp: attached_def allocated_def)
    with exact_invD(1) [OF ex a _ c]
    have "height (node s (child1 (node s i))) < height (node s i)"
      "height (node s (child2 (node s i))) < height (node s i)" by simp_all
    then show "hrank s (child1 (node s i)) < hrank s i \<and> hrank s (child2 (node s i)) < hrank s i"
      by (simp add: hrank_def)
  qed
  with t show ?thesis by (simp add: tree_inv_def tinv_def)
qed

lemma tree_inv_new: "tree_inv (b2DynamicTree_new raw)"
proof -
  let ?s = "b2DynamicTree_new raw"
  have ir: "in_range ?s j \<longleftrightarrow> 0 \<le> j \<and> j < 16" for j by (simp add: in_range_def)
  have h: "in_range ?s j \<Longrightarrow> height (node ?s j) = -1" for j by (simp add: ir new_node)
  have na: "\<not> allocated ?s j" for j using h [of j] by (auto simp: allocated_def)
  have fc: "free_chain ?s 0 [0..15]"
    by (rule free_chain_upto) (simp_all add: ir new_node)
  have "set [0..15] = {i. in_range ?s i \<and> height (node ?s i) = -1}"
  proof (rule set_eqI)
    fix x show "x \<in> set [0..15] \<longleftrightarrow> x \<in> {i. in_range ?s i \<and> height (node ?s i) = -1}"
      using h [of x] by (auto simp: ir)
  qed
  moreover have "int (length [0..15]) = 16" by simp
  ultimately have "pool_inv ?s"
    unfolding pool_inv_def using fc h
    by (intro conjI exI [of _ "[0..15]"]) (simp_all del: length_upto)
  then have "tinv ?s {} {} (\<lambda>i. 0)"
    by (simp add: tinv_def links_inv_def rank_inv_def exact_inv_def root_inv_def
        detached_inv_def attached_def na)
  then show ?thesis by (rule tree_invI)
qed

lemma tinv_upd_frame:
  fixes r :: "int \<Rightarrow> real"
  assumes t: "tinv s D P r"
    and f: "\<And>n. parent (f n) = parent n" "\<And>n. child1 (f n) = child1 n"
      "\<And>n. child2 (f n) = child2 n" "\<And>n. height (f n) = height n"
    and d: "h \<in> D \<or> (\<forall>n. aabb (f n) = aabb n)"
  shows "tinv (upd s h f) D P r"
proof (rule tinv_frame [OF t])
  have al: "allocated (upd s h f) j = allocated s j" for j by (simp add: allocated_def f)
  show "pool_inv (upd s h f)"
    by (rule pool_inv_frame [of s]) (use t in \<open>auto simp: tinv_def f\<close>)
  show "detached_inv (upd s h f) D" using t by (simp add: tinv_def detached_inv_def al f)
  show "attached (upd s h f) D j = attached s D j" for j by (simp add: attached_def al)
  show "same_tree_fields (node (upd s h f) j) (node s j)" if "attached s D j" for j
    using that d by (auto simp: same_tree_fields_def f attached_def)
qed simp

lemma CreateProxy_tinv:
  assumes t: "tree_inv s"
  shows "\<exists>s1 h. CreateProxy ext s aabb0 userData0 = Some (Inr (s1, h)) \<and> tree_inv s1 \<and>
     (m_freeList s \<noteq> b2_nullNode \<longrightarrow> h = m_freeList s)"
proof -
  from t have t': "tinv s {} {} (hrank s)" by (simp add: tree_inv_def)
  from AllocateNode_tinv [OF t'] obtain s1 n where
    A: "AllocateNode s = Inr (s1, n)" and t1: "tinv s1 {n} {} (hrank s)"
    and fl: "m_freeList s \<noteq> b2_nullNode \<longrightarrow> n = m_freeList s"
    by auto
  define s5 where "s5 = upd (upd (upd (upd s1 n (\<lambda>n. n\<lparr>aabb := grown aabb0 ext\<rparr>)) n
      (\<lambda>n. n\<lparr>userData := userData0\<rparr>)) n (\<lambda>n. n\<lparr>height := 0\<rparr>)) n (\<lambda>n. n\<lparr>moved := True\<rparr>)"
  have h0: "height (node s1 n) = 0" using t1 by (simp add: tinv_def detached_inv_def)
  have e: "upd (upd (upd s1 n (\<lambda>n. n\<lparr>aabb := grown aabb0 ext\<rparr>)) n
      (\<lambda>n. n\<lparr>userData := userData0\<rparr>)) n (\<lambda>n. n\<lparr>height := 0\<rparr>) =
      upd (upd s1 n (\<lambda>n. n\<lparr>aabb := grown aabb0 ext\<rparr>)) n (\<lambda>n. n\<lparr>userData := userData0\<rparr>)"
    by (rule tree_eqI) (simp_all add: h0)
  have "tinv s5 {n} {} (hrank s)"
    unfolding s5_def e by (intro tinv_upd_frame t1) simp_all
  from InsertLeaf_tinv [OF this] obtain s6 r1 where
    I: "InsertLeaf s5 n = Some (Inr s6)" and t6: "tinv s6 {} {} r1" by blast
  have "CreateProxy ext s aabb0 userData0 = Some (Inr (s6, n))"
    by (simp add: CreateProxy_def A Let_def s5_def [symmetric] I)
  with tree_invI [OF t6] fl show ?thesis by blast
qed

lemma is_proxy_attached:
  assumes t: "tree_inv s" and p: "is_proxy s h"
  shows "attached s {} h" "child1 (node s h) = b2_nullNode"
proof -
  from t have "pool_inv s" by (simp add: tree_inv_def tinv_def)
  then have "-1 \<le> height (node s h)" using p by (auto simp: pool_inv_def is_proxy_def)
  with p show "attached s {} h" "child1 (node s h) = b2_nullNode"
    by (auto simp: attached_def allocated_def is_proxy_def IsLeaf_def)
qed

lemma DestroyProxy_tinv:
  assumes t: "tree_inv s" and p: "is_proxy s h"
  shows "\<exists>s1. DestroyProxy s h = Some (Inr s1) \<and> tree_inv s1 \<and> m_freeList s1 = h"
proof -
  from t have t': "tinv s {} {} (hrank s)" by (simp add: tree_inv_def)
  note a = is_proxy_attached [OF t p]
  from RemoveLeaf_tinv [OF t' a] obtain s1 r1 where
    R: "RemoveLeaf s h = Some (Inr s1)" and t1: "tinv s1 {h} {} r1" by blast
  from FreeNode_tinv [OF t1] obtain s2 where
    F: "FreeNode s1 h = Inr s2" and t2: "tinv s2 {} {} r1" and fl: "m_freeList s2 = h" by blast
  have "DestroyProxy s h = Some (Inr s2)"
    using p by (simp add: DestroyProxy_def is_proxy_def in_range_def R F)
  with tree_invI [OF t2] fl show ?thesis by blast
qed

lemma MoveProxy_tinv:
  assumes t: "tree_inv s" and p: "is_proxy s h"
  shows "\<exists>s1 b. MoveProxy ext mult s h aabb0 displacement = Some (Inr (s1, b)) \<and> tree_inv s1"
proof (cases "contains (aabb (node s h)) aabb0 \<and>
    contains (grown (predicted_fatAABB ext mult aabb0 displacement) (4 * ext)) (aabb (node s h))")
  case True
  then have "MoveProxy ext mult s h aabb0 displacement = Some (Inr (s, False))"
    using p by (simp add: MoveProxy_def is_proxy_def in_range_def Let_def)
  with t show ?thesis by blast
next
  case False
  from t have t': "tinv s {} {} (hrank s)" by (simp add: tree_inv_def)
  note a = is_proxy_attached [OF t p]
  from RemoveLeaf_tinv [OF t' a] obtain s1 r1 where
    R: "RemoveLeaf s h = Some (Inr s1)" and t1: "tinv s1 {h} {} r1" by blast
  let ?s2 = "upd s1 h (\<lambda>n. n\<lparr>aabb := predicted_fatAABB ext mult aabb0 displacement\<rparr>)"
  have "tinv ?s2 {h} {} r1" by (intro tinv_upd_frame t1) simp_all
  from InsertLeaf_tinv [OF this] obtain s3 r3 where
    I: "InsertLeaf ?s2 h = Some (Inr s3)" and t3: "tinv s3 {} {} r3" by blast
  have t4: "tinv (upd s3 h (\<lambda>n. n\<lparr>moved := True\<rparr>)) {} {} r3"
    by (intro tinv_upd_frame t3) simp_all
  have "MoveProxy ext mult s h aabb0 displacement =
      Some (Inr (upd s3 h (\<lambda>n. n\<lparr>moved := True\<rparr>), True))"
    using p False by (simp add: MoveProxy_def is_proxy_def in_range_def Let_def R I)
  with tree_invI [OF t4] show ?thesis by blast
qed

lemma ClearMoved_tinv:
  assumes t: "tree_inv s" and c: "ClearMoved s h = Inr s1"
  shows "tree_inv s1"
proof -
  from c have s1: "s1 = upd s h (\<lambda>n. n\<lparr>moved := False\<rparr>)"
    by (simp add: ClearMoved_def split: if_splits)
  from t have t': "tinv s {} {} (hrank s)" by (simp add: tree_inv_def)
  have "tinv s1 {} {} (hrank s)" unfolding s1 by (intro tinv_upd_frame t') simp_all
  then show ?thesis by (rule tree_invI)
qed

lemma ShiftOrigin_tinv:
  assumes t: "tree_inv s"
  shows "tree_inv (ShiftOrigin s v)"
proof -
  let ?s = "ShiftOrigin s v"
  from t have t': "tinv s {} {} (hrank s)" by (simp add: tree_inv_def)
  then have pool: "pool_inv s" and l: "links_inv s {}" and rk: "rank_inv s {} (hrank s)"
    and ex: "exact_inv s {} {}" and ro: "root_inv s {}"
    by (auto simp: tinv_def)
  have f: "parent (node ?s j) = parent (node s j)" "child1 (node ?s j) = child1 (node s j)"
    "child2 (node ?s j) = child2 (node s j)" "height (node ?s j) = height (node s j)" for j
    by (simp_all add: ShiftOrigin_node)
  have ir: "in_range ?s j = in_range s j" for j by (simp add: in_range_def)
  have att: "attached ?s {} j = attached s {} j" for j
    by (simp add: attached_def allocated_def ir f)
  have b: "aabb (node ?s j) = move (aabb (node s j)) (vneg v)" if "attached s {} j" for j
    using that by (simp add: ShiftOrigin_node attached_def allocated_def)
  have "pool_inv ?s" by (rule pool_inv_frame [OF pool]) (simp_all add: f)
  moreover have "links_inv ?s {}" using l by (simp add: links_inv_def att f)
  moreover have "rank_inv ?s {} (hrank s)" using rk by (simp add: rank_inv_def att f)
  moreover have "root_inv ?s {}" using ro by (simp add: root_inv_def att f)
  moreover have "detached_inv ?s {}" by (simp add: detached_inv_def)
  moreover have "exact_inv ?s {} {}"
    unfolding exact_inv_def
  proof (intro allI impI)
    fix i assume "attached ?s {} i \<and> i \<notin> {} \<and> child1 (node ?s i) \<noteq> b2_nullNode"
    then have a: "attached s {} i" and c: "child1 (node s i) \<noteq> b2_nullNode"
      by (simp_all add: att f)
    note L = links_invD(5,6) [OF l a c]
    show "height (node ?s i) =
          1 + max (height (node ?s (child1 (node ?s i)))) (height (node ?s (child2 (node ?s i)))) \<and>
        aabb (node ?s i) =
          combine (aabb (node ?s (child1 (node ?s i)))) (aabb (node ?s (child2 (node ?s i))))"
      using exact_invD [OF ex a _ c] by (simp add: f b [OF a] b [OF L(1)] b [OF L(2)] move_combine)
  qed
  ultimately have "tinv ?s {} {} (hrank s)" by (simp add: tinv_def)
  then show ?thesis by (rule tree_invI)
qed

lemma reachable_tree_inv: "reachable ext mult s \<Longrightarrow> tree_inv s"
proof (induction rule: reachable.induct)
  case (init raw)
  show ?case by (rule tree_inv_new)
next
  case (create s aabb0 userData0 s1 h)
  from CreateProxy_tinv [OF create.IH, of ext aabb0 userData0] create.hyps(2)
  show ?case by auto
next
  case (destroy s h s1)
  from DestroyProxy_tinv [OF destroy.IH destroy.hyps(2)] destroy.hyps(3)
  show ?case by auto
next
  case (move s h aabb0 displacement s1 b)
  from MoveProxy_tinv [OF move.IH move.hyps(2), of ext mult aabb0 displacement] move.hyps(3)
  show ?case by auto
next
  case (clear s h s1)
  then show ?case by (auto intro: ClearMoved_tinv)
next
  case (shift s newOrigin)
  then show ?case by (auto intro: ShiftOrigin_tinv)
next
  case (rebuild s maxFloat s1)
  then show ?case by (auto intro: RebuildBottomUp_tree_inv)
qed

section \<open>Rebuilding the example tree\<close>

lemma tie_tree_node:
  "node tie_tree j =
     (if j = 0 then \<lparr>aabb = rect (-1/10) (-1/10) (11/10) (11/10), userData = 0, parent = 2,
        child1 = -1, child2 = -1, height = 0, moved = True\<rparr>
      else if j = 1 then \<lparr>aabb = rect (19/10) (-1/10) (31/10) (11/10), userData = 0, parent = 2,
        child1 = -1, child2 = -1, height = 0, moved = True\<rparr>
      else if j = 2 then \<lparr>aabb = rect (-1/10) (-1/10) (31/10) (11/10), userData = 0, parent = -1,
        child1 = 0, child2 = 1, height = 1, moved = False\<rparr>
      else node tree0 j)"
  "m_nodeCount tie_tree = 3" "m_freeList tie_tree = 3"
  by (simp_all add: tie_tree_def created_def evals)

lemma upto_0_15: "[0..15::int] = [0,1,2,3,4,5,6,7,8,9,10,11,12,13,14,15]"
  by (simp add: upto.simps)

lemma upto_small: "[0..1::int] = [0,1]" "[1..1::int] = [1]" "[2..1::int] = []"
  by (simp_all add: upto.simps)

lemma tie_tree_cap: "m_nodeCapacity tie_tree = 16" by (simp add: tie_tree_facts)

lemma collect_tie:
  "fold (collect_step 3) [0..15] (Inr (tie_tree, [])) =
     Inr ((upd (upd (upd tie_tree 0 (\<lambda>n. n\<lparr>parent := -1\<rparr>)) 1 (\<lambda>n. n\<lparr>parent := -1\<rparr>)) 2
             (\<lambda>n. n\<lparr>parent := 3, height := -1\<rparr>))\<lparr>m_freeList := 2, m_nodeCount := 2\<rparr>, [0, 1])"
  by (simp add: upto_0_15 collect_step_def FreeNode_def tie_tree_node tree0_node zero_node_def
      IsLeaf_def b2_nullNode_def Let_def tie_tree_cap)
    (rule tree_eqI; simp add: tie_tree_node)

lemma RebuildBottomUp_tie_tree: "RebuildBottomUp 1000 tie_tree = Inr tie_tree"
proof -
  let ?s = "(upd (upd (upd tie_tree 0 (\<lambda>n. n\<lparr>parent := -1\<rparr>)) 1 (\<lambda>n. n\<lparr>parent := -1\<rparr>)) 2
             (\<lambda>n. n\<lparr>parent := 3, height := -1\<rparr>))\<lparr>m_freeList := 2, m_nodeCount := 2\<rparr>"
  have mp: "min_pair 1000 ?s [0, 1] = (44/5, 0, 1)"
    by (simp add: min_pair_def min_pair_step_def upto_small tie_tree_node combine_def
        get_perimeter_def rect_def Let_def)
  have "\<exists>s1. RebuildBottomUp 1000 tie_tree = Inr s1 \<and> s1 = tie_tree"
    apply (simp add: RebuildBottomUp_def collect_tie tie_tree_node tie_tree_cap
        rebuild_loop.simps [of _ _ "[0, 1]"] rebuild_loop.simps [of _ _ "[2]"] join_pair_def mp
        AllocateNode_def peel_node_def in_range_def b2_nullNode_def Let_def)
    apply (rule tree_eqI)
          apply (simp_all add: tie_tree_node tie_tree_facts tree0_node zero_node_def rect_def
        combine_def)
    done
  then show ?thesis by simp
qed

section \<open>The shape of reachable trees\<close>

lemma reachable_created:
  assumes "reachable (1/10) mult s"
  shows "reachable (1/10) mult (created s r)"
proof -
  from CreateProxy_tinv [OF reachable_tree_inv [OF assms], of "1/10" r 0]
  obtain s1 h where c: "CreateProxy (1/10) s r 0 = Some (Inr (s1, h))" by blast
  then have "created s r = s1" by (simp add: created_def)
  with reachable.create [OF assms c] show ?thesis by simp
qed

lemma reachable_tie_tree: "reachable (1/10) mult tie_tree"
  unfolding tie_tree_def tree0_def by (intro reachable_created reachable.init)

lemma reachable_rebuilt_tie_tree: "reachable (1/10) mult tie_tree"
  by (rule reachable.rebuild [OF reachable_tie_tree RebuildBottomUp_tie_tree])

text \<open>
  Claim C6. In every reachable state, that is after any sequence of public operations that
  have returned, \<^verbatim>\<open>RebuildBottomUp\<close> among them, for every allocated node: its height is \<open>0\<close> exactly
  when both children are the sentinel; and when it is not such a leaf, both children are
  allocated, its height is one more than the larger height of its children, and its box is
  the union of the boxes of its children.
\<close>

theorem node_shape:
  assumes "reachable ext mult s" and "allocated s n"
  shows "(height (node s n) = 0 \<longleftrightarrow>
           child1 (node s n) = b2_nullNode \<and> child2 (node s n) = b2_nullNode) \<and>
         (\<not> (child1 (node s n) = b2_nullNode \<and> child2 (node s n) = b2_nullNode) \<longrightarrow>
           allocated s (child1 (node s n)) \<and> allocated s (child2 (node s n)) \<and>
           height (node s n) =
             1 + max (height (node s (child1 (node s n)))) (height (node s (child2 (node s n)))) \<and>
           aabb (node s n) =
             combine (aabb (node s (child1 (node s n)))) (aabb (node s (child2 (node s n)))))"
proof -
  from reachable_tree_inv [OF assms(1)] have t: "tinv s {} {} (hrank s)"
    by (simp add: tree_inv_def)
  then have l: "links_inv s {}" and ex: "exact_inv s {} {}" by (auto simp: tinv_def)
  have a: "attached s {} n" using assms(2) by (simp add: attached_def)
  show ?thesis
  proof (cases "child1 (node s n) = b2_nullNode")
    case True
    with links_invD(3,4) [OF l a] show ?thesis by simp
  next
    case False
    note L = links_invD(5,6) [OF l a False]
    have c2: "child2 (node s n) \<noteq> b2_nullNode" using L(2) by (auto dest: attached_not_null)
    have h: "0 \<le> height (node s (child1 (node s n)))" "0 \<le> height (node s (child2 (node s n)))"
      using L by (auto simp: attached_def allocated_def)
    from exact_invD [OF ex a _ False] L h False show ?thesis
      by (simp add: attached_def)
  qed
qed

theorem node_shape_witness:
  "reachable (1/10) 4 tie_tree \<and> allocated tie_tree 2 \<and>
   height (node tie_tree 2) \<noteq> 0 \<and> child1 (node tie_tree 2) = 0 \<and> child2 (node tie_tree 2) = 1 \<and>
   allocated tie_tree 0 \<and> allocated tie_tree 1 \<and>
   height (node tie_tree 2) = 1 + max (height (node tie_tree 0)) (height (node tie_tree 1)) \<and>
   aabb (node tie_tree 2) = combine (aabb (node tie_tree 0)) (aabb (node tie_tree 1))"
  using node_shape [of "1/10" 4 tie_tree 2]
  by (simp add: reachable_rebuilt_tie_tree allocated_def in_range_def tie_tree_facts b2_nullNode_def)

text \<open>
  Claim C10. In every reachable state and for every live proxy \<open>h\<close>, \<^verbatim>\<open>DestroyProxy(h)\<close>
  returns, and in the state it leaves every \<^verbatim>\<open>CreateProxy\<close> returns, with the handle \<open>h\<close>
  again.
\<close>

theorem handle_reuse:
  assumes "reachable ext mult s" and "is_proxy s h"
  shows "\<exists>s1. DestroyProxy s h = Some (Inr s1) \<and>
     (\<forall>aabb0 userData0. \<exists>s2. CreateProxy ext s1 aabb0 userData0 = Some (Inr (s2, h)))"
proof -
  from DestroyProxy_tinv [OF reachable_tree_inv [OF assms(1)] assms(2)]
  obtain s1 where d: "DestroyProxy s h = Some (Inr s1)" and t: "tree_inv s1"
    and f: "m_freeList s1 = h" by blast
  have hn: "h \<noteq> b2_nullNode" using assms(2) by (auto simp: is_proxy_def)
  have "\<exists>s2. CreateProxy ext s1 aabb0 userData0 = Some (Inr (s2, h))" for aabb0 userData0
    using CreateProxy_tinv [OF t, of ext aabb0 userData0] f hn by auto
  with d show ?thesis by blast
qed

theorem handle_reuse_witness:
  "reachable (1/10) 4 tie_tree \<and> is_proxy tie_tree 1 \<and>
   (\<exists>s1. DestroyProxy tie_tree 1 = Some (Inr s1) \<and>
     (\<forall>aabb0 userData0. \<exists>s2. CreateProxy (1/10) s1 aabb0 userData0 = Some (Inr (s2, 1))))"
  using handle_reuse [of "1/10" 4 tie_tree 1]
  by (simp add: reachable_tie_tree is_proxy_def in_range_def IsLeaf_def tie_tree_facts b2_nullNode_def)

section \<open>What a query visits\<close>

lemma feed_simps [simp]:
  "feed cb c [] = c"
  "feed cb c (h # hs) = feed cb (snd (cb c h)) hs"
  "feed cb c (hs @ hs1) = feed cb (feed cb c hs) hs1"
  by (simp_all add: feed_def)

lemma Query_visit:
  fixes r :: "int \<Rightarrow> real"
  assumes t: "tinv s {} {} r" and cb: "\<And>c h. fst (cb c h)"
  shows "i = b2_nullNode \<or> attached s {} i \<and> height (node s i) < int n \<Longrightarrow>
     run_loop (Query_body cb s box) (st @ [i], c) =
     run_loop (Query_body cb s box) (st, feed cb c (hits s box n i))"
proof (induction n arbitrary: i st c)
  case 0
  then have "i = b2_nullNode" by (auto simp: attached_def allocated_def)
  then show ?case by (subst run_loop.simps) (simp add: Query_body_def)
next
  case (Suc n)
  from t have l: "links_inv s {}" and ex: "exact_inv s {} {}" by (auto simp: tinv_def)
  show ?case
  proof (cases "i = b2_nullNode")
    case True
    then show ?thesis by (subst run_loop.simps) (simp add: Query_body_def)
  next
    case False
    with Suc.prems have a: "attached s {} i" and h: "height (node s i) < int (Suc n)" by auto
    have ir: "in_range s i" using a by (rule tinv_attached_in_range)
    show ?thesis
    proof (cases "overlaps (aabb (node s i)) box")
      case no: False
      then show ?thesis using False ir
        by (subst run_loop.simps) (simp add: Query_body_def)
    next
      case True
      show ?thesis
      proof (cases "child1 (node s i) = b2_nullNode")
        case leaf: True
        obtain c1 where e: "cb c i = (True, c1)" using cb [of c i] by (cases "cb c i") simp
        show ?thesis using False ir True leaf
          by (subst run_loop.simps) (simp add: Query_body_def IsLeaf_def e)
      next
        case int: False
        let ?c1 = "child1 (node s i)" and ?c2 = "child2 (node s i)"
        note L = links_invD(5,6) [OF l a int]
        have hh: "height (node s i) = 1 + max (height (node s ?c1)) (height (node s ?c2))"
          using exact_invD(1) [OF ex a _ int] by simp
        have h1: "attached s {} ?c1 \<and> height (node s ?c1) < int n"
          and h2: "attached s {} ?c2 \<and> height (node s ?c2) < int n"
          using L hh h by auto
        have "run_loop (Query_body cb s box) (st @ [i], c) =
            run_loop (Query_body cb s box) ((st @ [?c1]) @ [?c2], c)"
          using False ir True int
          by (subst run_loop.simps) (simp add: Query_body_def IsLeaf_def)
        also have "\<dots> = run_loop (Query_body cb s box) (st @ [?c1], feed cb c (hits s box n ?c2))"
          by (rule Suc.IH) (simp add: h2)
        also have "\<dots> = run_loop (Query_body cb s box)
            (st, feed cb (feed cb c (hits s box n ?c2)) (hits s box n ?c1))"
          by (rule Suc.IH) (simp add: h1)
        finally show ?thesis using False True int by (simp add: IsLeaf_def)
      qed
    qed
  qed
qed

lemma Query_hits:
  fixes r :: "int \<Rightarrow> real"
  assumes t: "tinv s {} {} r" and cb: "\<And>c h. fst (cb c h)"
  shows "Query cb c s box =
     Some (Inr (feed cb c (hits s box (Suc (nat (height (node s (m_root s))))) (m_root s))))"
proof -
  from t have ro: "root_inv s {}" by (simp add: tinv_def)
  let ?n = "Suc (nat (height (node s (m_root s))))"
  have "m_root s = b2_nullNode \<or> attached s {} (m_root s) \<and> height (node s (m_root s)) < int ?n"
    using root_invD(2) [OF ro] by (auto simp: attached_def allocated_def)
  from Query_visit [OF t cb this, where st = "[]" and box = box and c = c]
  have "Query cb c s box = run_loop (Query_body cb s box) ([], feed cb c (hits s box ?n (m_root s)))"
    by (simp add: Query_def)
  also have "\<dots> = Some (Inr (feed cb c (hits s box ?n (m_root s))))"
    by (subst run_loop.simps) (simp add: Query_body_def)
  finally show ?thesis .
qed

lemma feed_traced:
  assumes cb: "\<And>c h. fst (cb c h)"
  shows "snd (feed (traced_query cb) (c, tr) hs) = tr @ map (\<lambda>h. (h, True)) hs"
proof (induction hs arbitrary: c tr)
  case Nil
  show ?case by simp
next
  case (Cons h hs)
  obtain c1 where e: "cb c h = (True, c1)" using cb [of c h] by (cases "cb c h") simp
  have "snd (traced_query cb (c, tr) h) = (c1, tr @ [(h, True)])"
    by (simp add: traced_query_def e)
  then show ?case by (simp add: Cons.IH)
qed

lemma traced_continues:
  assumes cb: "\<And>c h. fst (cb c h)"
  shows "fst (traced_query cb ct h)"
proof -
  obtain c1 where e: "cb (fst ct) h = (True, c1)"
    using cb [of "fst ct" h] by (cases "cb (fst ct) h") simp
  show ?thesis by (simp add: traced_query_def e)
qed

section \<open>Leaves below a node\<close>

lemma overlaps_combine:
  "overlaps a box \<Longrightarrow> overlaps (combine a b) box" "overlaps b box \<Longrightarrow> overlaps (combine a b) box"
  by (simp_all add: overlaps_def combine_def min_le_iff_disj le_max_iff_disj)

lemma below_leaf:
  assumes l: "links_inv s {}" and a: "attached s {} i" and lf: "child1 (node s i) = b2_nullNode"
  shows "below s i h \<Longrightarrow> h = i"
proof (induction rule: below.induct)
  case self
  show ?case ..
next
  case (up h)
  from up.IH have p: "parent (node s h) = i" .
  from links_invD(2) [OF l up.hyps(2,3)] p
  have "child1 (node s i) = h \<or> child2 (node s i) = h" by simp
  with lf links_invD(3) [OF l a lf] attached_not_null [OF up.hyps(2)] show ?case by auto
qed

lemma below_child:
  assumes l: "links_inv s {}" and ro: "root_inv s {}" and a: "attached s {} i"
    and int: "child1 (node s i) \<noteq> b2_nullNode"
    and c: "c = child1 (node s i) \<or> c = child2 (node s i)"
  shows "below s c h \<Longrightarrow> below s i h"
proof (induction rule: below.induct)
  case self
  note L = links_invD(5,6,8,9) [OF l a int]
  from L c have ac: "attached s {} c" and pc: "parent (node s c) = i" by auto
  have "c \<noteq> m_root s"
    using pc root_invD(3) [OF ro] root_invD(1) [OF ro a] attached_not_null [OF a] by auto
  have "below s i (parent (node s c))" by (simp add: pc below.self)
  then show ?case using ac \<open>c \<noteq> m_root s\<close> by (rule below.up)
next
  case (up h)
  from up.IH up.hyps(2,3) show ?case by (rule below.up)
qed

lemma below_cases:
  assumes l: "links_inv s {}" and a: "attached s {} i"
  shows "below s i h \<Longrightarrow> h = i \<or> below s (child1 (node s i)) h \<or> below s (child2 (node s i)) h"
proof (induction rule: below.induct)
  case self
  show ?case by simp
next
  case (up h)
  from up.IH show ?case
  proof (elim disjE)
    assume p: "parent (node s h) = i"
    from links_invD(2) [OF l up.hyps(2,3)] p
    have "child1 (node s i) = h \<or> child2 (node s i) = h" by simp
    then show ?thesis using below.self [of s h] by auto
  next
    assume "below s (child1 (node s i)) (parent (node s h))"
    then have "below s (child1 (node s i)) h" using up.hyps(2,3) by (rule below.up)
    then show ?thesis by simp
  next
    assume "below s (child2 (node s i)) (parent (node s h))"
    then have "below s (child2 (node s i)) h" using up.hyps(2,3) by (rule below.up)
    then show ?thesis by simp
  qed
qed

lemma below_rank:
  fixes r :: "int \<Rightarrow> real"
  assumes l: "links_inv s {}" and rk: "rank_inv s {} r"
  shows "below s a h \<Longrightarrow> r h \<le> r a"
proof (induction rule: below.induct)
  case self
  show ?case by simp
next
  case (up h)
  from parent_rank [OF l rk up.hyps(2,3)] up.IH show ?case by simp
qed

lemma below_linear: "below s a h \<Longrightarrow> below s b h \<Longrightarrow> below s a b \<or> below s b a"
proof (induction rule: below.induct)
  case self
  then show ?case by simp
next
  case (up h)
  from up.prems show ?case
  proof (cases rule: below.cases)
    case self
    have "below s a h" using up.hyps(1,2,3) by (rule below.up)
    with self show ?thesis by simp
  next
    case up': up
    from up.IH [OF up'(1)] show ?thesis .
  qed
qed

lemma children_apart:
  fixes r :: "int \<Rightarrow> real"
  assumes l: "links_inv s {}" and rk: "rank_inv s {} r" and a: "attached s {} i"
    and int: "child1 (node s i) \<noteq> b2_nullNode"
  shows "\<not> (below s (child1 (node s i)) h \<and> below s (child2 (node s i)) h)"
proof
  let ?c1 = "child1 (node s i)" and ?c2 = "child2 (node s i)"
  assume b: "below s ?c1 h \<and> below s ?c2 h"
  note L = links_invD(7,8,9) [OF l a int]
  note R = rank_invD [OF rk a int]
  have no: "\<not> below s x y" if "x \<noteq> y" "parent (node s y) = i" "r x < r i" for x y
  proof
    assume "below s x y"
    then show False
    proof (cases rule: below.cases)
      case self
      with that(1) show False by simp
    next
      case up
      with that(2) have "below s x i" by simp
      from below_rank [OF l rk this] that(3) show False by simp
    qed
  qed
  from b have "below s ?c1 ?c2 \<or> below s ?c2 ?c1"
    using below_linear [of s ?c1 h ?c2] by simp
  with no [of ?c1 ?c2] no [of ?c2 ?c1] L R show False by auto
qed

lemma below_overlaps:
  assumes l: "links_inv s {}" and ex: "exact_inv s {} {}"
  shows "below s i h \<Longrightarrow> overlaps (aabb (node s h)) box \<Longrightarrow> overlaps (aabb (node s i)) box"
proof (induction rule: below.induct)
  case self
  then show ?case .
next
  case (up h)
  let ?p = "parent (node s h)"
  from links_invD(1,2) [OF l up.hyps(2,3)] have ap: "attached s {} ?p"
    and c: "child1 (node s ?p) = h \<or> child2 (node s ?p) = h" by auto
  have int: "child1 (node s ?p) \<noteq> b2_nullNode"
    using c links_invD(3) [OF l ap] attached_not_null [OF up.hyps(2)] by auto
  have e: "aabb (node s ?p) =
      combine (aabb (node s (child1 (node s ?p)))) (aabb (node s (child2 (node s ?p))))"
    using exact_invD(2) [OF ex ap _ int] by simp
  have "overlaps (aabb (node s ?p)) box"
  proof (cases "child1 (node s ?p) = h")
    case True
    with up.prems have "overlaps (aabb (node s (child1 (node s ?p)))) box" by simp
    then show ?thesis by (subst e) (rule overlaps_combine(1))
  next
    case False
    with c have "child2 (node s ?p) = h" by simp
    with up.prems have "overlaps (aabb (node s (child2 (node s ?p)))) box" by simp
    then show ?thesis by (subst e) (rule overlaps_combine(2))
  qed
  then show ?case by (rule up.IH)
qed

lemma below_root_chain:
  assumes l: "links_inv s {}"
  shows "anc_chain s h xs \<Longrightarrow> attached s {} h \<Longrightarrow> below s (m_root s) h"
proof (induction xs arbitrary: h)
  case Nil
  then show ?case by (auto dest: attached_not_null)
next
  case (Cons x xs)
  show ?case
  proof (cases "h = m_root s")
    case True
    then show ?thesis by (simp add: below.self)
  next
    case False
    from Cons.prems(1) have c: "anc_chain s (parent (node s h)) xs" by auto
    from links_invD(1) [OF l Cons.prems(2) False] have "attached s {} (parent (node s h))" .
    from Cons.IH [OF c this] show ?thesis using Cons.prems(2) False by (rule below.up)
  qed
qed

lemma below_root:
  fixes r :: "int \<Rightarrow> real"
  assumes t: "tinv s {} {} r" and a: "attached s {} h"
  shows "below s (m_root s) h"
proof -
  from t have l: "links_inv s {}" and rk: "rank_inv s {} r" and ro: "root_inv s {}"
    by (auto simp: tinv_def)
  from anc_chain_exists [OF l rk ro a] obtain xs where "anc_chain s h xs" ..
  from below_root_chain [OF l this a] show ?thesis .
qed

lemma hits_set:
  fixes r :: "int \<Rightarrow> real"
  assumes t: "tinv s {} {} r"
  shows "attached s {} i \<Longrightarrow> height (node s i) < int n \<Longrightarrow>
     set (hits s box n i) = {h. below s i h \<and> attached s {} h \<and>
        child1 (node s h) = b2_nullNode \<and> overlaps (aabb (node s h)) box} \<and>
     distinct (hits s box n i)"
proof -
  define L where "L = (\<lambda>i. {h. below s i h \<and> attached s {} h \<and>
        child1 (node s h) = b2_nullNode \<and> overlaps (aabb (node s h)) box})"
  have mem: "h \<in> L i \<longleftrightarrow> below s i h \<and> attached s {} h \<and>
        child1 (node s h) = b2_nullNode \<and> overlaps (aabb (node s h)) box" for h i
    by (simp add: L_def)
  from t have l: "links_inv s {}" and rk: "rank_inv s {} r" and ex: "exact_inv s {} {}"
    and ro: "root_inv s {}"
    by (auto simp: tinv_def)
  have "attached s {} i \<Longrightarrow> height (node s i) < int n \<Longrightarrow>
     set (hits s box n i) = L i \<and> distinct (hits s box n i)"
  proof (induction n arbitrary: i)
    case 0
    then show ?case by (auto simp: attached_def allocated_def)
  next
    case (Suc n)
    note a = Suc.prems(1)
    have inn: "i \<noteq> b2_nullNode" using a by (rule attached_not_null)
    show ?case
    proof (cases "overlaps (aabb (node s i)) box")
      case False
      have "L i = {}"
      proof (rule equals0I)
        fix h assume "h \<in> L i"
        then have "below s i h" "overlaps (aabb (node s h)) box" by (simp_all add: mem)
        from below_overlaps [OF l ex this] False show False by simp
      qed
      moreover have "hits s box (Suc n) i = []" using False inn by simp
      ultimately show ?thesis by simp
    next
      case True
      show ?thesis
      proof (cases "child1 (node s i) = b2_nullNode")
        case leaf: True
        have "L i = {i}"
        proof (rule set_eqI)
          fix h show "h \<in> L i \<longleftrightarrow> h \<in> {i}"
          proof
            assume "h \<in> L i"
            then have "below s i h" by (simp add: mem)
            from below_leaf [OF l a leaf this] show "h \<in> {i}" by simp
          next
            assume "h \<in> {i}"
            then show "h \<in> L i" using a leaf True by (simp add: mem below.self)
          qed
        qed
        moreover have "hits s box (Suc n) i = [i]" using True leaf inn by (simp add: IsLeaf_def)
        ultimately show ?thesis by simp
      next
        case int: False
        let ?c1 = "child1 (node s i)" and ?c2 = "child2 (node s i)"
        note LK = links_invD(5,6) [OF l a int]
        have hh: "height (node s i) = 1 + max (height (node s ?c1)) (height (node s ?c2))"
          using exact_invD(1) [OF ex a _ int] by simp
        have h1: "height (node s ?c1) < int n" and h2: "height (node s ?c2) < int n"
          using hh Suc.prems(2) by auto
        from Suc.IH [OF LK(1) h1] have s1: "set (hits s box n ?c1) = L ?c1"
          and d1: "distinct (hits s box n ?c1)" by simp_all
        from Suc.IH [OF LK(2) h2] have s2: "set (hits s box n ?c2) = L ?c2"
          and d2: "distinct (hits s box n ?c2)" by simp_all
        have e: "hits s box (Suc n) i = hits s box n ?c2 @ hits s box n ?c1"
          using True int inn by (simp add: IsLeaf_def)
        have U: "L i = L ?c2 \<union> L ?c1"
        proof (rule set_eqI)
          fix h
          show "h \<in> L i \<longleftrightarrow> h \<in> L ?c2 \<union> L ?c1"
          proof
            assume h: "h \<in> L i"
            then have b: "below s i h" and lf: "child1 (node s h) = b2_nullNode" by (simp_all add: mem)
            from lf int have "h \<noteq> i" by auto
            with below_cases [OF l a b] have "below s ?c1 h \<or> below s ?c2 h" by simp
            with h show "h \<in> L ?c2 \<union> L ?c1" by (auto simp: mem)
          next
            assume "h \<in> L ?c2 \<union> L ?c1"
            then consider "h \<in> L ?c2" | "h \<in> L ?c1" by auto
            then show "h \<in> L i"
            proof cases
              case 1
              then have "below s ?c2 h" by (simp add: mem)
              from below_child [OF l ro a int _ this] have "below s i h" by simp
              with 1 show ?thesis by (simp add: mem)
            next
              case 2
              then have "below s ?c1 h" by (simp add: mem)
              from below_child [OF l ro a int _ this] have "below s i h" by simp
              with 2 show ?thesis by (simp add: mem)
            qed
          qed
        qed
        have D: "L ?c2 \<inter> L ?c1 = {}"
        proof (rule equals0I)
          fix h assume "h \<in> L ?c2 \<inter> L ?c1"
          then have "below s ?c1 h \<and> below s ?c2 h" by (simp add: mem)
          with children_apart [OF l rk a int, of h] show False by simp
        qed
        have "set (hits s box (Suc n) i) = L i" unfolding e U by (simp add: s1 s2)
        moreover have "distinct (hits s box (Suc n) i)"
          unfolding e using d1 d2 D by (simp add: s1 s2)
        ultimately show ?thesis by (rule conjI)
      qed
    qed
  qed
  then show "attached s {} i \<Longrightarrow> height (node s i) < int n \<Longrightarrow>
     set (hits s box n i) = {h. below s i h \<and> attached s {} h \<and>
        child1 (node s h) = b2_nullNode \<and> overlaps (aabb (node s h)) box} \<and>
     distinct (hits s box n i)"
    by (simp add: L_def)
qed

section \<open>Queries and heights\<close>

lemma is_proxy_iff:
  assumes t: "tree_inv s"
  shows "is_proxy s h \<longleftrightarrow> attached s {} h \<and> child1 (node s h) = b2_nullNode"
proof
  assume "is_proxy s h"
  with is_proxy_attached [OF t] show "attached s {} h \<and> child1 (node s h) = b2_nullNode" by simp
next
  assume "attached s {} h \<and> child1 (node s h) = b2_nullNode"
  then show "is_proxy s h" by (auto simp: is_proxy_def attached_def allocated_def IsLeaf_def)
qed

text \<open>
  Claim C1. In every reachable state and for every query box, \<^verbatim>\<open>Query\<close> with a callback
  that always answers "continue" returns, and the handles it has called the callback
  with, in the order of the calls, form a list without repetition whose elements are
  exactly the live proxies whose stored box overlaps the query box.
\<close>

theorem Query_complete:
  assumes "reachable ext mult s" and "\<And>c h. fst (cb c h)"
  shows "\<exists>c1 calls. Query (traced_query cb) (c0, []) s box = Some (Inr (c1, calls)) \<and>
     distinct (map fst calls) \<and>
     set (map fst calls) = {h. is_proxy s h \<and> overlaps (aabb (node s h)) box}"
proof -
  from reachable_tree_inv [OF assms(1)] have ti: "tree_inv s" .
  then have t: "tinv s {} {} (hrank s)" by (simp add: tree_inv_def)
  then have ro: "root_inv s {}" by (simp add: tinv_def)
  define hs where "hs = hits s box (Suc (nat (height (node s (m_root s))))) (m_root s)"
  have tc: "fst (traced_query cb ct h)" for ct h by (rule traced_continues [OF assms(2)])
  from Query_hits [OF t tc, where c = "(c0, [])" and box = box]
  have q: "Query (traced_query cb) (c0, []) s box = Some (Inr (feed (traced_query cb) (c0, []) hs))"
    by (simp add: hs_def)
  have tr: "snd (feed (traced_query cb) (c0, []) hs) = map (\<lambda>h. (h, True)) hs"
    using feed_traced [OF assms(2), where c = c0 and tr = "[]" and hs = hs] by simp
  have "distinct hs \<and> set hs = {h. is_proxy s h \<and> overlaps (aabb (node s h)) box}"
  proof (cases "m_root s = b2_nullNode")
    case True
    then have "hs = []" by (simp add: hs_def)
    moreover have "\<not> is_proxy s h" for h
      using root_invD(1) [OF ro, of h] True by (auto simp: is_proxy_iff [OF ti])
    ultimately show ?thesis by simp
  next
    case False
    from root_invD(2) [OF ro False] have a: "attached s {} (m_root s)" .
    then have "height (node s (m_root s)) < int (Suc (nat (height (node s (m_root s)))))"
      by (simp add: attached_def allocated_def)
    from hits_set [OF t a this, of box]
    have s: "set hs = {h. below s (m_root s) h \<and> attached s {} h \<and>
        child1 (node s h) = b2_nullNode \<and> overlaps (aabb (node s h)) box}"
      and d: "distinct hs" by (simp_all add: hs_def)
    have "set hs = {h. is_proxy s h \<and> overlaps (aabb (node s h)) box}"
      unfolding s using below_root [OF t] by (auto simp: is_proxy_iff [OF ti])
    with d show ?thesis by simp
  qed
  moreover obtain c1 where "feed (traced_query cb) (c0, []) hs = (c1, map (\<lambda>h. (h, True)) hs)"
    using tr by (cases "feed (traced_query cb) (c0, []) hs") simp
  ultimately show ?thesis
    by (intro exI [of _ c1] exI [of _ "map (\<lambda>h. (h, True)) hs"]) (simp add: q comp_def)
qed

text \<open>On the tree of two proxies, the box \<open>[(2,0),(3,1)]\<close> overlaps the fat box of the proxy 1
  only.\<close>

theorem Query_complete_witness:
  "reachable (1/10) 4 tie_tree \<and>
   Query (traced_query (\<lambda>c h. (True, c))) ((), []) tie_tree (rect 2 0 3 1)
     = Some (Inr ((), [(1, True)])) \<and>
   {h. is_proxy tie_tree h \<and> overlaps (aabb (node tie_tree h)) (rect 2 0 3 1)} = {1}"
proof -
  have q: "Query (traced_query (\<lambda>c h. (True, c))) ((), []) tie_tree (rect 2 0 3 1)
     = Some (Inr ((), [(1, True)]))"
    by (simp add: Query_def run_loop.simps Query_body_def traced_query_def tie_tree_facts
        overlaps_def IsLeaf_def b2_nullNode_def in_range_def rect_def Let_def)
  from Query_complete [OF reachable_tie_tree [of 4], where cb = "\<lambda>c h. (True, c)"
      and ?c0.0 = "()" and box = "rect 2 0 3 1"] q
  have "{h. is_proxy tie_tree h \<and> overlaps (aabb (node tie_tree h)) (rect 2 0 3 1)} = {1}"
    by auto
  with q reachable_tie_tree [of 4] show ?thesis by simp
qed

lemma leaf_below:
  fixes r :: "int \<Rightarrow> real"
  assumes t: "tinv s {} {} r"
  shows "attached s {} i \<Longrightarrow> height (node s i) < int n \<Longrightarrow>
     \<exists>h. below s i h \<and> attached s {} h \<and> child1 (node s h) = b2_nullNode"
proof (induction n arbitrary: i)
  case 0
  then show ?case by (auto simp: attached_def allocated_def)
next
  case (Suc n)
  from t have l: "links_inv s {}" and ex: "exact_inv s {} {}" and ro: "root_inv s {}"
    by (auto simp: tinv_def)
  show ?case
  proof (cases "child1 (node s i) = b2_nullNode")
    case True
    with Suc.prems(1) below.self [of s i] show ?thesis by blast
  next
    case False
    let ?c1 = "child1 (node s i)"
    note L = links_invD(5,6) [OF l Suc.prems(1) False]
    have "height (node s i) =
        1 + max (height (node s ?c1)) (height (node s (child2 (node s i))))"
      using exact_invD(1) [OF ex Suc.prems(1) _ False] by simp
    with Suc.prems(2) have "height (node s ?c1) < int n" by simp
    from Suc.IH [OF L(1) this] obtain h where h: "below s ?c1 h" "attached s {} h"
      "child1 (node s h) = b2_nullNode" by blast
    from below_child [OF l ro Suc.prems(1) False _ h(1)] have "below s i h" by simp
    with h show ?thesis by blast
  qed
qed

lemma single_proxy_root:
  assumes ti: "tree_inv s" and one: "\<forall>h'. is_proxy s h' \<longleftrightarrow> h' = h"
  shows "m_root s = h"
proof -
  from ti have t: "tinv s {} {} (hrank s)" by (simp add: tree_inv_def)
  then have l: "links_inv s {}" and rk: "rank_inv s {} (hrank s)" and ro: "root_inv s {}"
    by (auto simp: tinv_def)
  from one have "is_proxy s h" by simp
  then have ah: "attached s {} h" and lh: "child1 (node s h) = b2_nullNode"
    by (simp_all add: is_proxy_iff [OF ti])
  have rn: "m_root s \<noteq> b2_nullNode" using root_invD(1) [OF ro ah] .
  from root_invD(2) [OF ro rn] have ar: "attached s {} (m_root s)" .
  show ?thesis
  proof (cases "child1 (node s (m_root s)) = b2_nullNode")
    case True
    with ar have "is_proxy s (m_root s)" by (simp add: is_proxy_iff [OF ti])
    with one show ?thesis by simp
  next
    case False
    let ?c1 = "child1 (node s (m_root s))" and ?c2 = "child2 (node s (m_root s))"
    note L = links_invD(5,6) [OF l ar False]
    have hb: "\<exists>n. height (node s i) < int n" for i
      by (rule exI [of _ "Suc (nat (height (node s i)))"]) simp
    from hb [of ?c1] obtain n1 where "height (node s ?c1) < int n1" ..
    from leaf_below [OF t L(1) this] obtain h1 where h1: "below s ?c1 h1" "attached s {} h1"
      "child1 (node s h1) = b2_nullNode" by blast
    from hb [of ?c2] obtain n2 where "height (node s ?c2) < int n2" ..
    from leaf_below [OF t L(2) this] obtain h2 where h2: "below s ?c2 h2" "attached s {} h2"
      "child1 (node s h2) = b2_nullNode" by blast
    from h1 have "is_proxy s h1" by (simp add: is_proxy_iff [OF ti])
    with one have e1: "h1 = h" by blast
    from h2 have "is_proxy s h2" by (simp add: is_proxy_iff [OF ti])
    with one have e2: "h2 = h" by blast
    note e1 e2
    with h1(1) h2(1) children_apart [OF l rk ar False, of h] show ?thesis by simp
  qed
qed

text \<open>
  Claim C9. \<^verbatim>\<open>GetHeight\<close> returns 0 on an empty tree, whose root is the sentinel, and it
  returns 0 in every reachable state that holds exactly one live proxy.
\<close>

theorem GetHeight_empty_or_single:
  "(m_root s = b2_nullNode \<longrightarrow> GetHeight s = Inr 0) \<and>
   (reachable ext mult s \<longrightarrow> (\<forall>h'. is_proxy s h' \<longleftrightarrow> h' = h) \<longrightarrow> GetHeight s = Inr 0)"
proof (intro conjI impI)
  assume "m_root s = b2_nullNode"
  then show "GetHeight s = Inr 0" by (simp add: GetHeight_def)
next
  assume r: "reachable ext mult s" and one: "\<forall>h'. is_proxy s h' \<longleftrightarrow> h' = h"
  from reachable_tree_inv [OF r] have ti: "tree_inv s" .
  from single_proxy_root [OF ti one] have root: "m_root s = h" .
  from one have p: "is_proxy s h" by simp
  then have "attached s {} h" "child1 (node s h) = b2_nullNode"
    by (simp_all add: is_proxy_iff [OF ti])
  moreover from ti have "links_inv s {}" by (simp add: tree_inv_def tinv_def)
  ultimately have "height (node s h) = 0" by (intro links_invD(4))
  with p root show "GetHeight s = Inr 0"
    by (auto simp: GetHeight_def is_proxy_def dest: in_range_not_null)
qed

lemma reachable_one_proxy: "reachable ext mult (one_proxy ext)"
proof -
  have r0: "reachable ext mult tree0" unfolding tree0_def by (rule reachable.init)
  from CreateProxy_tinv [OF reachable_tree_inv [OF r0], of ext "rect 0 0 1 1" 0]
  obtain s1 h where c: "CreateProxy ext tree0 (rect 0 0 1 1) 0 = Some (Inr (s1, h))" by blast
  then have "one_proxy ext = s1" by (simp add: one_proxy_def)
  with reachable.create [OF r0 c] show ?thesis by simp
qed

text \<open>The empty tree and the tree of one proxy.\<close>

theorem GetHeight_empty_or_single_witness:
  "m_root tree0 = b2_nullNode \<and> GetHeight tree0 = Inr 0 \<and>
   reachable (1/8) 4 (one_proxy (1/8)) \<and> (\<forall>h'. is_proxy (one_proxy (1/8)) h' \<longleftrightarrow> h' = 0) \<and>
   GetHeight (one_proxy (1/8)) = Inr 0"
proof -
  have e: "m_root tree0 = b2_nullNode" by (simp add: tree0_fields b2_nullNode_def)
  have r: "reachable (1/8) 4 (one_proxy (1/8))" by (rule reachable_one_proxy)
  have o: "\<forall>h'. is_proxy (one_proxy (1/8)) h' \<longleftrightarrow> h' = 0"
    by (auto simp: is_proxy_def in_range_def IsLeaf_def one_proxy_facts tree0_node b2_nullNode_def)
  from GetHeight_empty_or_single [of tree0 "1/8" 4 0] e
  have 1: "GetHeight tree0 = Inr 0" by simp
  from GetHeight_empty_or_single [of "one_proxy (1/8)" "1/8" 4 0] r o
  have 2: "GetHeight (one_proxy (1/8)) = Inr 0" by blast
  from e 1 r o 2 show ?thesis by blast
qed

end
